(* ===== verification/Zoekt_Prelude.thy ===== *)
theory Zoekt_Prelude
  imports Main "HOL-Library.Word"
begin

text \<open>
  The types and generic facts the component theories share.

  Go's fixed-width integers are words (\<open>+\<close>, \<open>-\<close> and \<open>*\<close> wrap as in Go), a Go
  \<^verbatim>\<open>[]byte\<close> or \<^verbatim>\<open>string\<close> is a list of bytes, a \<^verbatim>\<open>rune\<close> is a 32-bit word, and a
  Go \<^verbatim>\<open>int\<close> used as a length or an index is a \<open>nat\<close>, or an \<open>int\<close> where it can
  be negative. A Go function that returns an error, and an operation that panics, gives a
  value of \<open>res\<close>.
\<close>

section \<open>Types of the model\<close>

type_synonym u8 = "8 word"
type_synonym u32 = "32 word"
type_synonym u64 = "64 word"
type_synonym bytes = "u8 list"
type_synonym rune = "32 word"

datatype go_error = GoErr string | GoPanic string

type_synonym 'a res = "go_error + 'a"

definition rbind :: "'a res \<Rightarrow> ('a \<Rightarrow> 'b res) \<Rightarrow> 'b res" where
  "rbind m f = (case m of Inl e \<Rightarrow> Inl e | Inr x \<Rightarrow> f x)"

lemma rbind_simps [simp]: "rbind (Inl e) f = Inl e" "rbind (Inr x) f = f x"
  by (simp_all add: rbind_def)

lemma rbind_cong [fundef_cong]:
  assumes "m = m'" and "\<And>x. m' = Inr x \<Longrightarrow> f x = f' x"
  shows "rbind m f = rbind m' f'"
  using assms by (auto simp: rbind_def split: sum.splits)

lemma rbind_Inr_iff: "rbind m f = Inr y \<longleftrightarrow> (\<exists>x. m = Inr x \<and> f x = Inr y)"
  by (auto simp: rbind_def split: sum.splits)

text \<open>The largest \<^verbatim>\<open>uint32\<close>, which the iterators use as the end mark (indexdata.go).\<close>

abbreviation maxUInt32 :: u32 where
  "maxUInt32 \<equiv> 0xffffffff"

text \<open>Go's slice expression \<^verbatim>\<open>xs[a:b]\<close> for \<open>a \<le> b \<le> length xs\<close>.\<close>

definition slice :: "nat \<Rightarrow> nat \<Rightarrow> 'a list \<Rightarrow> 'a list" where
  "slice a b xs = take (b - a) (drop a xs)"

section \<open>Slices with spare capacity\<close>

text \<open>A Go slice with the bytes between its length and its capacity: a slice expression may
  reach into them.\<close>

type_synonym goslice = "bytes \<times> bytes"

text \<open>\<^verbatim>\<open>content[a:b]\<close> and \<^verbatim>\<open>content[a:]\<close>.\<close>

definition goSlice :: "goslice \<Rightarrow> u32 \<Rightarrow> u32 \<Rightarrow> bytes option" where
  "goSlice c a b = (if a \<le> b \<and> unat b \<le> length (fst c) + length (snd c)
     then Some (slice (unat a) (unat b) (fst c @ snd c)) else None)"

definition goSliceFrom :: "goslice \<Rightarrow> u32 \<Rightarrow> bytes option" where
  "goSliceFrom c a = (if unat a \<le> length (fst c) then Some (drop (unat a) (fst c)) else None)"

section \<open>Maps\<close>

text \<open>A Go map is an association list, read with \<open>map_of\<close>; \<open>mapSet\<close> is \<^verbatim>\<open>m[k] = v\<close>.\<close>

definition mapSet :: "'k \<Rightarrow> 'v \<Rightarrow> ('k \<times> 'v) list \<Rightarrow> ('k \<times> 'v) list" where
  "mapSet k v m = (k, v) # filter (\<lambda>e. fst e \<noteq> k) m"

lemma map_of_mapSet [simp]: "map_of (mapSet k v m) = (map_of m)(k \<mapsto> v)"
proof
  fix x
  have "x \<noteq> k \<Longrightarrow> map_of (filter (\<lambda>e. fst e \<noteq> k) m) x = map_of m x" by (induction m) auto
  then show "map_of (mapSet k v m) x = ((map_of m)(k \<mapsto> v)) x" by (simp add: mapSet_def)
qed

lemma distinct_mapSet [simp]: "distinct (map fst m) \<Longrightarrow> distinct (map fst (mapSet k v m))"
  by (induction m) (auto simp: mapSet_def)

lemma keys_mapSet [simp]: "fst ` set (mapSet k v m) = insert k (fst ` set m)"
  by (auto simp: mapSet_def)

section \<open>Collections of rewrite rules\<close>

named_theorems zoekt_simps \<open>defining equations that evaluate the model on concrete input\<close>

section \<open>Lists\<close>

lemma length_slice [simp]: "b \<le> length xs \<Longrightarrow> length (slice a b xs) = b - a"
  by (simp add: slice_def)

lemma slice_0 [simp]: "slice 0 b xs = take b xs"
  by (simp add: slice_def)

lemma slice_self [simp]: "slice a a xs = []"
  by (simp add: slice_def)

lemma slice_append_mid: "slice (length xs) (length xs + length ys) (xs @ ys @ zs) = ys"
  by (simp add: slice_def)

lemma nth_slice: "b \<le> length xs \<Longrightarrow> i < b - a \<Longrightarrow> slice a b xs ! i = xs ! (a + i)"
  by (simp add: slice_def)

lemma drop_eq_nth_Cons: "i < length xs \<Longrightarrow> drop i xs = xs ! i # drop (Suc i) xs"
  by (simp add: Cons_nth_drop_Suc)

text \<open>The bytes \<open>bs\<close> stand at position \<open>p\<close> of \<open>F\<close>.\<close>

definition bytesAt :: "'a list \<Rightarrow> nat \<Rightarrow> 'a list \<Rightarrow> bool" where
  "bytesAt F p bs \<longleftrightarrow> p + length bs \<le> length F \<and> take (length bs) (drop p F) = bs"

lemma bytesAt_slice: "bytesAt F p bs \<Longrightarrow> slice p (p + length bs) F = bs"
  by (simp add: bytesAt_def slice_def)

lemma bytesAt_length: "bytesAt F p bs \<Longrightarrow> p + length bs \<le> length F"
  by (simp add: bytesAt_def)

lemma bytesAt_append: "bytesAt F p (bs @ cs) \<longleftrightarrow> bytesAt F p bs \<and> bytesAt F (p + length bs) cs"
  by (auto simp: bytesAt_def take_add add.commute append_eq_append_conv_if)

lemma bytesAt_extend: "bytesAt F p bs \<Longrightarrow> bytesAt (F @ G) p bs"
  by (auto simp: bytesAt_def)

lemma bytesAt_end: "bytesAt (F @ bs) (length F) bs"
  by (simp add: bytesAt_def)

lemma dropWhile_sorted_set:
  fixes l :: "'a::linorder"
  shows "sorted xs \<Longrightarrow> set (dropWhile (\<lambda>x. x \<le> l) xs) = {x \<in> set xs. l < x}"
proof (induction xs)
  case Nil
  then show ?case by simp
next
  case (Cons x xs)
  then show ?case by (cases "x \<le> l") auto
qed

lemma length_takeWhile_eqI:
  assumes "n \<le> length xs" and "\<And>i. i < n \<Longrightarrow> P (xs ! i)" and "n < length xs \<Longrightarrow> \<not> P (xs ! n)"
  shows "length (takeWhile P xs) = n"
  using assms
proof (induction xs arbitrary: n)
  case (Cons x xs)
  show ?case
  proof (cases n)
    case (Suc m)
    then show ?thesis using Cons.IH [of m] Cons.prems Cons.prems(2) [of 0] Cons.prems(2) [of "Suc _"] by auto
  qed (use Cons.prems in auto)
qed simp

lemma sorted_list_of_set_Cons:
  fixes x :: "'a::linorder"
  assumes "finite A" and "\<And>a. a \<in> A \<Longrightarrow> x < a"
  shows "sorted_list_of_set (insert x A) = x # sorted_list_of_set A"
proof -
  have "sorted (x # sorted_list_of_set A)" "distinct (x # sorted_list_of_set A)"
    using assms by (auto intro: less_imp_le)
  then have "sorted_list_of_set (set (x # sorted_list_of_set A)) = x # sorted_list_of_set A"
    by (rule sorted_list_of_set.idem_if_sorted_distinct)
  then show ?thesis using assms(1) by simp
qed

section \<open>Words\<close>

lemma unat_u32_less: "unat (x::u32) < 4294967296"
  using unsigned_less [of x, where ?'a = nat] by simp

lemma max32_greatest [simp]: "(x::u32) \<le> maxUInt32"
  using unat_u32_less [of x] by (simp add: word_le_nat_alt)

lemma less_max32_iff: "(x::u32) < maxUInt32 \<longleftrightarrow> x \<noteq> maxUInt32"
  by (metis max32_greatest order_less_le)

lemma not_max32_less [simp]: "\<not> maxUInt32 < (x::u32)"
  by (simp add: not_less)

lemma max32_le_iff [simp]: "maxUInt32 \<le> (x::u32) \<longleftrightarrow> x = maxUInt32"
  by (metis max32_greatest order_antisym)

lemma unat_add_u32: "unat x + unat y < 4294967296 \<Longrightarrow> unat (x + y :: u32) = unat x + unat y"
  by (subst unat_add_lem [THEN iffD1]) simp_all

lemma unat_sub_u32: "(y::u32) \<le> x \<Longrightarrow> unat (x - y) = unat x - unat y"
  by (rule unat_sub)

lemma unat_ucast_mod: "unat (ucast (x::'a::len word) :: 'b::len word) = unat x mod 2 ^ LENGTH('b)"
  by (simp add: unsigned_ucast_eq take_bit_eq_mod)

lemma unat_drop_bit_div: "unat (drop_bit n (x::'a::len word)) = unat x div 2 ^ n"
  by (subst unat_drop_bit_eq) (rule drop_bit_eq_div)

lemma unat_of_nat_u32: "n < 4294967296 \<Longrightarrow> unat (of_nat n :: u32) = n"
  by (simp add: unat_of_nat)

end
