(* ===== verification/Go_Std.thy ===== *)
theory Go_Std
  imports Zoekt_Prelude
begin

unbundle bit_operations_syntax

text \<open>
  The parts of the Go standard library that the program's core calls, translated from
  their documented behaviour: varints and big-endian integers (encoding/binary), UTF-8
  (unicode/utf8), binary search (sort), and searching in byte strings (bytes, strings).
  The theory also holds the facts about them the component proofs use.
\<close>

section \<open>encoding/binary: varints\<close>

text \<open>\<^verbatim>\<open>binary.PutUvarint\<close>: seven bits a byte, least significant first, the high bit
  of a byte set when another one follows.\<close>

function putUvarint :: "u64 \<Rightarrow> bytes" where
  "putUvarint x = (if x < 0x80 then [ucast x] else (ucast x OR 0x80) # putUvarint (drop_bit 7 x))"
  by pat_completeness auto
termination
proof (relation "measure unat")
  fix x :: u64
  assume "\<not> x < 0x80"
  then have "128 \<le> unat x" by (simp add: word_less_nat_alt not_less)
  then show "(drop_bit 7 x, x) \<in> measure unat" by (simp only: in_measure unat_drop_bit_div) simp
qed simp

declare putUvarint.simps [simp del]

text \<open>\<^verbatim>\<open>binary.Uvarint\<close>: the value and the number of bytes read; the count is 0 when the
  buffer ends inside a varint and negative when the value does not fit 64 bits.\<close>

fun uvarintLoop :: "nat \<Rightarrow> u64 \<Rightarrow> nat \<Rightarrow> bytes \<Rightarrow> u64 \<times> int" where
  "uvarintLoop i x s [] = (0, 0)"
| "uvarintLoop i x s (b # bs) =
     (if b < 0x80 then
        (if 9 < i \<or> (i = 9 \<and> 1 < b) then (0, - (int i + 1))
         else (x OR push_bit s (ucast b), int i + 1))
      else uvarintLoop (Suc i) (x OR push_bit s (ucast (b AND 0x7f))) (s + 7) bs)"

definition uvarint :: "bytes \<Rightarrow> u64 \<times> int" where
  "uvarint bs = uvarintLoop 0 0 0 bs"

lemma putUvarint_neq_Nil [simp]: "putUvarint x \<noteq> []"
  by (subst putUvarint.simps) simp

lemma putUvarint_length_pos [simp]: "0 < length (putUvarint x)"
  by simp

lemma low7_split: "push_bit s (y AND 0x7f) OR push_bit (s + 7) (drop_bit 7 y) = push_bit s (y :: u64)"
proof (rule bit_word_eqI)
  fix n
  have m: "(0x7f :: u64) = mask 7" by (simp add: mask_eq_exp_minus_1)
  show "bit (push_bit s (y AND 0x7f) OR push_bit (s + 7) (drop_bit 7 y)) n = bit (push_bit s y) n"
    if "n < LENGTH(64)"
    using that unfolding m
    by (cases "n < s + 7") (auto simp: bit_simps not_less not_le)
qed

lemma ucast_high_bit: "ucast ((ucast (y::u64) OR 0x80 :: u8) AND 0x7f) = y AND 0x7f"
proof (rule bit_word_eqI)
  fix n
  have m: "(0x7f :: u64) = mask 7" "(0x7f :: u8) = mask 7"
    by (simp_all add: mask_eq_exp_minus_1)
  have "bit (0x80 :: int) n = bit (2 ^ 7 :: int) n" by simp
  then have h: "bit (0x80 :: int) n \<longleftrightarrow> n = 7" by (simp only: bit_exp_iff) auto
  show "bit (ucast ((ucast y OR 0x80 :: u8) AND 0x7f) :: u64) n = bit (y AND 0x7f) n"
    if "n < LENGTH(64)"
    using that unfolding m by (auto simp: bit_simps h)
qed

lemma uvarintLoop_put:
  assumes "unat y < 2 ^ (64 - 7 * i)" and "i \<le> 9"
  shows "uvarintLoop i x (7 * i) (putUvarint y @ bs)
    = (x OR push_bit (7 * i) y, int i + int (length (putUvarint y)))"
  using assms
proof (induction y arbitrary: i x rule: putUvarint.induct)
  case (1 y)
  show ?case
  proof (cases "y < 0x80")
    case True
    then have b: "(ucast y :: u8) < 0x80" "unat (ucast y :: u8) = unat y"
      by (simp_all add: word_less_nat_alt unat_ucast_mod)
    have y9: "unat y \<le> 1" if "i = 9" using "1.prems"(1) that by simp
    have "\<not> (9 < i \<or> (i = 9 \<and> 1 < (ucast y :: u8)))"
      using "1.prems"(2) y9 b(2) by (auto simp: word_less_nat_alt)
    moreover have "ucast (ucast y :: u8) = y"
      using True b(2) by (simp add: word_unat_eq_iff unat_ucast_mod word_less_nat_alt)
    ultimately show ?thesis
      using True b(1) by (simp add: putUvarint.simps [of y])
  next
    case False
    then have big: "128 \<le> unat y" by (simp add: word_less_nat_alt not_less)
    have i9: "i \<noteq> 9"
    proof
      assume "i = 9"
      with "1.prems"(1) have "unat y < 2" by simp
      with big show False by simp
    qed
    then have i: "Suc i \<le> 9" using "1.prems"(2) by simp
    have "unat (drop_bit 7 y) = unat y div 128"
      by (simp only: unat_drop_bit_div) simp
    also have "\<dots> < 2 ^ (64 - 7 * Suc i)"
    proof -
      have "2 ^ (64 - 7 * i) = 128 * (2::nat) ^ (64 - 7 * Suc i)"
        using i power_add [of "2::nat" 7 "64 - 7 * Suc i"] by (simp add: numeral_eq_Suc [of "num.Bit1 num.One"])
      then show ?thesis using "1.prems"(1) by (simp add: less_mult_imp_div_less mult.commute)
    qed
    finally have small: "unat (drop_bit 7 y) < 2 ^ (64 - 7 * Suc i)" .
    have hb: "\<not> (ucast y OR 0x80 :: u8) < 0x80"
      by (simp add: not_less le_word_or1)
    have glue: "(x OR push_bit (7 * i) (y AND 0x7f)) OR push_bit (7 * i + 7) (drop_bit 7 y)
        = x OR push_bit (7 * i) y"
      by (simp only: or.assoc low7_split)
    have "7 * Suc i = 7 * i + 7" by simp
    with "1.IH" [OF False small i, of "x OR push_bit (7 * i) (y AND 0x7f)"] glue False hb
    show ?thesis
      by (simp add: putUvarint.simps [of y] ucast_high_bit add.commute del: push_bit_and)
  qed
qed

lemma uvarint_put: "uvarint (putUvarint y @ bs) = (y, int (length (putUvarint y)))"
  using uvarintLoop_put [of y 0 0 bs] unsigned_less [of y, where ?'a = nat]
  by (simp add: uvarint_def)

section \<open>encoding/binary: big-endian integers\<close>

definition putUint32 :: "u32 \<Rightarrow> bytes" where
  "putUint32 n = [ucast (drop_bit 24 n), ucast (drop_bit 16 n), ucast (drop_bit 8 n), ucast n]"

definition uint32 :: "bytes \<Rightarrow> u32" where
  "uint32 b = ucast (b ! 3) OR push_bit 8 (ucast (b ! 2)) OR push_bit 16 (ucast (b ! 1))
     OR push_bit 24 (ucast (b ! 0))"

definition putUint64 :: "u64 \<Rightarrow> bytes" where
  "putUint64 n = [ucast (drop_bit 56 n), ucast (drop_bit 48 n), ucast (drop_bit 40 n),
     ucast (drop_bit 32 n), ucast (drop_bit 24 n), ucast (drop_bit 16 n), ucast (drop_bit 8 n), ucast n]"

definition uint64 :: "bytes \<Rightarrow> u64" where
  "uint64 b = ucast (b ! 7) OR push_bit 8 (ucast (b ! 6)) OR push_bit 16 (ucast (b ! 5))
     OR push_bit 24 (ucast (b ! 4)) OR push_bit 32 (ucast (b ! 3)) OR push_bit 40 (ucast (b ! 2))
     OR push_bit 48 (ucast (b ! 1)) OR push_bit 56 (ucast (b ! 0))"

lemma length_putUint32 [simp]: "length (putUint32 n) = 4"
  by (simp add: putUint32_def)

lemma length_putUint64 [simp]: "length (putUint64 n) = 8"
  by (simp add: putUint64_def)

text \<open>Gluing the next byte to the low bits read so far.\<close>

lemma byte_base: "ucast (ucast (n::'a::len word) :: u8) = take_bit 8 n"
  by (rule bit_word_eqI) (auto simp: bit_simps)

lemma byte_glue:
  "take_bit k n OR push_bit k (ucast (ucast (drop_bit k (n::'a::len word)) :: u8)) = take_bit (k + 8) n"
proof (rule bit_word_eqI)
  fix m
  show "bit (take_bit k n OR push_bit k (ucast (ucast (drop_bit k n) :: u8))) m = bit (take_bit (k + 8) n) m"
    if "m < LENGTH('a)"
    using that by (cases "m < k") (auto simp: bit_simps)
qed

lemma uint32_put [simp]: "uint32 (putUint32 n @ bs) = n"
  using byte_glue [of 8 n] byte_glue [of 16 n] byte_glue [of 24 n]
  by (simp add: uint32_def putUint32_def byte_base take_bit_word_eq_self flip: or.assoc)

lemma uint64_put [simp]: "uint64 (putUint64 n @ bs) = n"
  using byte_glue [of 8 n] byte_glue [of 16 n] byte_glue [of 24 n] byte_glue [of 32 n]
    byte_glue [of 40 n] byte_glue [of 48 n] byte_glue [of 56 n]
  by (simp add: uint64_def putUint64_def byte_base take_bit_word_eq_self flip: or.assoc)

section \<open>unicode/utf8\<close>

abbreviation runeError :: rune where
  "runeError \<equiv> 0xFFFD"

text \<open>\<^verbatim>\<open>utf8.DecodeRune\<close>: the first rune and its width. An empty input gives width 0, an
  invalid encoding (a bad lead or continuation byte, an overlong form, a surrogate, a value
  above U+10FFFF) gives \<open>runeError\<close> and width 1.\<close>

definition isCont :: "u8 \<Rightarrow> bool" where
  "isCont b \<longleftrightarrow> 0x80 \<le> b \<and> b \<le> 0xBF"

definition second3 :: "u8 \<Rightarrow> u8 \<Rightarrow> bool" where
  "second3 b0 b1 \<longleftrightarrow> isCont b1 \<and> (b0 = 0xE0 \<longrightarrow> 0xA0 \<le> b1) \<and> (b0 = 0xED \<longrightarrow> b1 \<le> 0x9F)"

definition second4 :: "u8 \<Rightarrow> u8 \<Rightarrow> bool" where
  "second4 b0 b1 \<longleftrightarrow> isCont b1 \<and> (b0 = 0xF0 \<longrightarrow> 0x90 \<le> b1) \<and> (b0 = 0xF4 \<longrightarrow> b1 \<le> 0x8F)"

definition bitsOf :: "nat \<Rightarrow> u8 \<Rightarrow> rune" where
  "bitsOf k b = ucast (take_bit k b)"

fun decodeRune :: "bytes \<Rightarrow> rune \<times> nat" where
  "decodeRune [] = (runeError, 0)"
| "decodeRune (b0 # bs) =
     (if b0 < 0x80 then (ucast b0, 1)
      else if 0xC2 \<le> b0 \<and> b0 \<le> 0xDF then
        (case bs of
           b1 # _ \<Rightarrow> if isCont b1 then (push_bit 6 (bitsOf 5 b0) OR bitsOf 6 b1, 2) else (runeError, 1)
         | _ \<Rightarrow> (runeError, 1))
      else if 0xE0 \<le> b0 \<and> b0 \<le> 0xEF then
        (case bs of
           b1 # b2 # _ \<Rightarrow>
             if second3 b0 b1 \<and> isCont b2
             then (push_bit 12 (bitsOf 4 b0) OR push_bit 6 (bitsOf 6 b1) OR bitsOf 6 b2, 3)
             else (runeError, 1)
         | _ \<Rightarrow> (runeError, 1))
      else if 0xF0 \<le> b0 \<and> b0 \<le> 0xF4 then
        (case bs of
           b1 # b2 # b3 # _ \<Rightarrow>
             if second4 b0 b1 \<and> isCont b2 \<and> isCont b3
             then (push_bit 18 (bitsOf 3 b0) OR push_bit 12 (bitsOf 6 b1)
                     OR push_bit 6 (bitsOf 6 b2) OR bitsOf 6 b3, 4)
             else (runeError, 1)
         | _ \<Rightarrow> (runeError, 1))
      else (runeError, 1))"

lemma decodeRune_bounds:
  "snd (decodeRune bs) \<le> 4 \<and> snd (decodeRune bs) \<le> length bs \<and> (bs \<noteq> [] \<longrightarrow> 1 \<le> snd (decodeRune bs))"
  by (cases bs) (auto split: list.splits)

lemma decodeRune_size_pos: "bs \<noteq> [] \<Longrightarrow> 0 < snd (decodeRune bs)"
  using decodeRune_bounds [of bs] by auto

lemma decodeRune_size_le: "snd (decodeRune bs) \<le> length bs"
  using decodeRune_bounds [of bs] by simp

lemma decodeRune_size_le4: "snd (decodeRune bs) \<le> 4"
  using decodeRune_bounds [of bs] by simp

lemma decodeRune_pair_pos: "(r, sz) = decodeRune bs \<Longrightarrow> bs \<noteq> [] \<Longrightarrow> 0 < sz"
  by (metis decodeRune_size_pos snd_conv)

declare decodeRune.simps [simp del]

text \<open>The runes of a string with their widths, as a \<^verbatim>\<open>for range\<close> loop over it sees them.\<close>

function runesOf :: "bytes \<Rightarrow> (rune \<times> nat) list" where
  "runesOf bs = (if bs = [] then [] else decodeRune bs # runesOf (drop (snd (decodeRune bs)) bs))"
  by pat_completeness auto
termination
  by (relation "measure length") (auto simp: decodeRune_size_pos)

declare runesOf.simps [simp del]

lemma runesOf_Nil [simp]: "runesOf [] = []"
  by (simp add: runesOf.simps)

lemma runesOf_eq_Nil [simp]: "runesOf bs = [] \<longleftrightarrow> bs = []"
  by (cases "bs = []") (simp_all add: runesOf.simps [of bs])

lemma runesOf_nonempty:
  "bs \<noteq> [] \<Longrightarrow> runesOf bs = decodeRune bs # runesOf (drop (snd (decodeRune bs)) bs)"
  by (simp add: runesOf.simps)

definition runes :: "bytes \<Rightarrow> rune list" where
  "runes bs = map fst (runesOf bs)"

text \<open>\<^verbatim>\<open>utf8.RuneCountInString\<close>.\<close>

definition runeCount :: "bytes \<Rightarrow> nat" where
  "runeCount bs = length (runesOf bs)"

lemma sum_widths: "sum_list (map snd (runesOf bs)) = length bs"
proof (induction bs rule: runesOf.induct)
  case (1 bs)
  then show ?case
    using decodeRune_size_le [of bs] by (cases "bs = []") (simp_all add: runesOf_nonempty)
qed

lemma runeCount_le: "runeCount bs \<le> length bs"
proof (induction bs rule: runesOf.induct)
  case (1 bs)
  then show ?case
    using decodeRune_size_le [of bs] decodeRune_size_pos [of bs]
    by (cases "bs = []") (simp_all add: runesOf_nonempty runeCount_def)
qed

text \<open>\<^verbatim>\<open>utf8.EncodeRune\<close>.\<close>

definition cbyte :: "rune \<Rightarrow> u8" where
  "cbyte r = 0x80 OR ucast (take_bit 6 r)"

definition validRune :: "rune \<Rightarrow> bool" where
  "validRune r \<longleftrightarrow> r \<le> 0x10FFFF \<and> \<not> (0xD800 \<le> r \<and> r \<le> 0xDFFF)"

definition encodeRune :: "rune \<Rightarrow> bytes" where
  "encodeRune r0 =
     (if r0 \<le> 0x7F then [ucast r0]
      else if r0 \<le> 0x7FF then [0xC0 OR ucast (drop_bit 6 r0), cbyte r0]
      else (let r = (if validRune r0 then r0 else runeError) in
        if r \<le> 0xFFFF then [0xE0 OR ucast (drop_bit 12 r), cbyte (drop_bit 6 r), cbyte r]
        else [0xF0 OR ucast (drop_bit 18 r), cbyte (drop_bit 12 r), cbyte (drop_bit 6 r), cbyte r]))"

lemma bitsOf_lead:
  assumes "take_bit k (x::rune) = x" and "k \<le> 8"
  shows "bitsOf k (push_bit k m OR ucast x) = x"
proof (rule bit_word_eqI)
  fix n assume "n < LENGTH(32)"
  have "bit x n \<longleftrightarrow> n < k \<and> bit x n" using assms(1) bit_take_bit_iff [of k x n] by metis
  then show "bit (bitsOf k (push_bit k m OR ucast x)) n = bit x n"
    using assms(2) \<open>n < LENGTH(32)\<close> by (auto simp: bitsOf_def bit_simps)
qed

lemma lead_add:
  assumes "take_bit k (x::rune) = x" "k \<le> 8"
  shows "push_bit k m OR (ucast x :: u8) = push_bit k m + ucast x"
proof (rule disjunctive_add [symmetric])
  fix n :: nat
  have "bit x n \<longleftrightarrow> n < k \<and> bit x n" using assms(1) bit_take_bit_iff [of k x n] by metis
  then show "\<not> bit (push_bit k m) n \<or> \<not> bit (ucast x :: u8) n" by (auto simp: bit_simps)
qed

lemma unat_lead:
  assumes "take_bit k (x::rune) = x" "k \<le> 8" "unat (push_bit k m :: u8) + 2 ^ k \<le> 256"
  shows "unat (push_bit k m OR (ucast x :: u8)) = unat (push_bit k m :: u8) + unat x"
proof -
  have "unat x < 2 ^ k" using assms(1) by (metis take_bit_nat_less_exp unsigned_take_bit_eq)
  moreover have "2 ^ k \<le> (256::nat)" using assms(2) power_increasing [of k 8 "2::nat"] by simp
  ultimately have "unat (ucast x :: u8) = unat x" by (simp add: unat_ucast_mod)
  then show ?thesis unfolding lead_add [OF assms(1,2)] using assms(3) \<open>unat x < 2 ^ k\<close>
    by (subst unat_add_lem [THEN iffD1]) simp_all
qed

lemma take_bit_of_less: "unat (x::rune) < 2 ^ k \<Longrightarrow> take_bit k x = x"
  by (metis take_bit_nat_eq_self unsigned_take_bit_eq word_unat_eq_iff)

lemma isCont_cbyte: "isCont (cbyte r)" and bitsOf_cbyte: "bitsOf 6 (cbyte r) = take_bit 6 r"
  and unat_cbyte: "unat (cbyte r) = 128 + unat r mod 64"
proof -
  let ?x = "take_bit 6 r"
  have x: "take_bit 6 ?x = ?x" by simp
  have ux: "unat ?x = unat r mod 64" by (subst unsigned_take_bit_eq) (simp_all add: take_bit_eq_mod)
  have c: "cbyte r = push_bit 6 2 OR ucast ?x" by (simp add: cbyte_def)
  show u: "unat (cbyte r) = 128 + unat r mod 64" unfolding c using unat_lead [OF x, of 2] ux by simp
  show "bitsOf 6 (cbyte r) = ?x" unfolding c by (rule bitsOf_lead [OF x]) simp
  have "unat r mod 64 < 64" by simp
  then show "isCont (cbyte r)" using u by (simp add: isCont_def word_le_nat_alt)
qed

lemma decodeRune_2:
  assumes "194 \<le> unat b0" "unat b0 \<le> 223" "isCont b1"
  shows "decodeRune (b0 # b1 # bs) = (push_bit 6 (bitsOf 5 b0) OR bitsOf 6 b1, 2)"
  using assms by (simp add: decodeRune.simps word_less_nat_alt word_le_nat_alt)

lemma decodeRune_3:
  assumes "224 \<le> unat b0" "unat b0 \<le> 239" "second3 b0 b1" "isCont b2"
  shows "decodeRune (b0 # b1 # b2 # bs) =
    (push_bit 12 (bitsOf 4 b0) OR push_bit 6 (bitsOf 6 b1) OR bitsOf 6 b2, 3)"
  using assms by (simp add: decodeRune.simps word_less_nat_alt word_le_nat_alt)

lemma decodeRune_4:
  assumes "240 \<le> unat b0" "unat b0 \<le> 244" "second4 b0 b1" "isCont b2" "isCont b3"
  shows "decodeRune (b0 # b1 # b2 # b3 # bs) =
    (push_bit 18 (bitsOf 3 b0) OR push_bit 12 (bitsOf 6 b1) OR push_bit 6 (bitsOf 6 b2) OR bitsOf 6 b3, 4)"
  using assms by (simp add: decodeRune.simps word_less_nat_alt word_le_nat_alt)

lemma glue3:
  "push_bit 12 (drop_bit 12 r) OR push_bit 6 (take_bit 6 (drop_bit 6 r)) OR take_bit 6 r = (r::rune)"
proof (rule bit_word_eqI)
  fix n assume "n < LENGTH(32)"
  consider "n < 6" | "6 \<le> n" "n < 12" | "12 \<le> n" by linarith
  then show "bit (push_bit 12 (drop_bit 12 r) OR push_bit 6 (take_bit 6 (drop_bit 6 r)) OR take_bit 6 r) n = bit r n"
    using \<open>n < LENGTH(32)\<close> by cases (auto simp: bit_simps)
qed

lemma glue4:
  "push_bit 18 (drop_bit 18 r) OR push_bit 12 (take_bit 6 (drop_bit 12 r))
     OR push_bit 6 (take_bit 6 (drop_bit 6 r)) OR take_bit 6 r = (r::rune)"
proof (rule bit_word_eqI)
  fix n assume "n < LENGTH(32)"
  consider "n < 6" | "6 \<le> n" "n < 12" | "12 \<le> n" "n < 18" | "18 \<le> n" by linarith
  then show "bit (push_bit 18 (drop_bit 18 r) OR push_bit 12 (take_bit 6 (drop_bit 12 r))
     OR push_bit 6 (take_bit 6 (drop_bit 6 r)) OR take_bit 6 r) n = bit r n"
    using \<open>n < LENGTH(32)\<close> by cases (auto simp: bit_simps)
qed

lemma mod_window:
  fixes x :: nat
  assumes "c * m \<le> x" "x < c * m + k" "k \<le> m"
  shows "x mod m < k"
proof -
  obtain j where j: "x = c * m + j" using assms(1) le_Suc_ex by blast
  then have "j < k" using assms(2) by simp
  then show ?thesis using j assms(3) by simp
qed

lemma decode_encode2:
  assumes "\<not> r \<le> 0x7F" "r \<le> 0x7FF"
  shows "decodeRune (encodeRune r @ bs) = (r, 2)"
proof -
  have u: "127 < unat r" "unat r \<le> 2047" using assms by (simp_all add: word_less_nat_alt word_le_nat_alt)
  define b0 :: u8 where "b0 = push_bit 5 6 OR ucast (drop_bit 6 r)"
  have h: "unat (drop_bit 6 r) = unat r div 64" by (simp add: unat_drop_bit_div)
  have th: "take_bit 5 (drop_bit 6 r) = drop_bit 6 r" by (rule take_bit_of_less) (use h u in simp)
  have b0: "unat b0 = 192 + unat r div 64" "bitsOf 5 b0 = drop_bit 6 r"
    unfolding b0_def using unat_lead [OF th, of 6] h bitsOf_lead [OF th, of 6] by simp_all
  have rng: "194 \<le> unat b0" "unat b0 \<le> 223" unfolding b0(1) using u by linarith+
  have "encodeRune r = [b0, cbyte r]" using assms by (simp add: encodeRune_def b0_def)
  then have "decodeRune (encodeRune r @ bs) = (push_bit 6 (drop_bit 6 r) OR take_bit 6 r, 2)"
    using decodeRune_2 [of b0 "cbyte r" bs] rng b0(2) isCont_cbyte [of r] bitsOf_cbyte [of r] by simp
  moreover have "push_bit 6 (drop_bit 6 r) OR take_bit 6 r = r"
    by (rule bit_word_eqI) (auto simp: bit_simps)
  ultimately show ?thesis by simp
qed

lemma decode_encode3:
  assumes "\<not> r \<le> 0x7FF" "r \<le> 0xFFFF" "validRune r"
  shows "decodeRune (encodeRune r @ bs) = (r, 3)"
proof -
  have u: "2047 < unat r" "unat r \<le> 65535" "\<not> (55296 \<le> unat r \<and> unat r \<le> 57343)"
    using assms by (simp_all add: validRune_def word_less_nat_alt word_le_nat_alt)
  define b0 :: u8 where "b0 = push_bit 4 14 OR ucast (drop_bit 12 r)"
  have h: "unat (drop_bit 12 r) = unat r div 4096" "unat (drop_bit 6 r) = unat r div 64"
    by (simp_all add: unat_drop_bit_div)
  have th: "take_bit 4 (drop_bit 12 r) = drop_bit 12 r" by (rule take_bit_of_less) (use h u in simp)
  have b0: "unat b0 = 224 + unat r div 4096" "bitsOf 4 b0 = drop_bit 12 r"
    unfolding b0_def using unat_lead [OF th, of 14] h bitsOf_lead [OF th, of 14] by simp_all
  have b1: "unat (cbyte (drop_bit 6 r)) = 128 + (unat r div 64) mod 64" by (simp add: unat_cbyte h)
  have rng: "224 \<le> unat b0" "unat b0 \<le> 239" unfolding b0(1) using u by linarith+
  have "160 \<le> 128 + unat r div 64 mod 64" if "224 + unat r div 4096 = 224"
  proof -
    have "32 \<le> unat r div 64" "unat r div 64 < 64" using that u by linarith+
    then show ?thesis by simp
  qed
  moreover have "128 + unat r div 64 mod 64 \<le> 159" if "224 + unat r div 4096 = 237"
  proof -
    have "832 \<le> unat r div 64" "unat r div 64 < 864" using that u by linarith+
    then show ?thesis using mod_window [of 13 64 "unat r div 64" 32] by simp
  qed
  ultimately have "second3 b0 (cbyte (drop_bit 6 r))"
    unfolding second3_def using isCont_cbyte b0(1) b1
    by (simp add: word_le_nat_alt word_unat_eq_iff)
  moreover have "\<not> r \<le> 0x7F" using u by (simp add: word_le_nat_alt)
  then have "encodeRune r = [b0, cbyte (drop_bit 6 r), cbyte r]"
    using assms by (simp add: encodeRune_def b0_def Let_def)
  ultimately have "decodeRune (encodeRune r @ bs) =
      (push_bit 12 (drop_bit 12 r) OR push_bit 6 (take_bit 6 (drop_bit 6 r)) OR take_bit 6 r, 3)"
    using decodeRune_3 [of b0 "cbyte (drop_bit 6 r)" "cbyte r" bs] rng b0(2) isCont_cbyte [of r] bitsOf_cbyte by simp
  moreover have "push_bit 12 (drop_bit 12 r) OR push_bit 6 (take_bit 6 (drop_bit 6 r)) OR take_bit 6 r = r"
    by (rule glue3)
  ultimately show ?thesis by simp
qed

lemma decode_encode4:
  assumes "\<not> r \<le> 0xFFFF" "validRune r"
  shows "decodeRune (encodeRune r @ bs) = (r, 4)"
proof -
  have u: "65535 < unat r" "unat r \<le> 1114111"
    using assms by (simp_all add: validRune_def word_less_nat_alt word_le_nat_alt)
  define b0 :: u8 where "b0 = push_bit 3 30 OR ucast (drop_bit 18 r)"
  have h: "unat (drop_bit 18 r) = unat r div 262144" "unat (drop_bit 12 r) = unat r div 4096"
    by (simp_all add: unat_drop_bit_div)
  have th: "take_bit 3 (drop_bit 18 r) = drop_bit 18 r" by (rule take_bit_of_less) (use h u in simp)
  have b0: "unat b0 = 240 + unat r div 262144" "bitsOf 3 b0 = drop_bit 18 r"
    unfolding b0_def using unat_lead [OF th, of 30] h bitsOf_lead [OF th, of 30] by simp_all
  have b1: "unat (cbyte (drop_bit 12 r)) = 128 + (unat r div 4096) mod 64" by (simp add: unat_cbyte h)
  have rng: "240 \<le> unat b0" "unat b0 \<le> 244" unfolding b0(1) using u by linarith+
  have "144 \<le> 128 + unat r div 4096 mod 64" if "240 + unat r div 262144 = 240"
  proof -
    have "16 \<le> unat r div 4096" "unat r div 4096 < 64" using that u by linarith+
    then show ?thesis by simp
  qed
  moreover have "128 + unat r div 4096 mod 64 \<le> 143" if "240 + unat r div 262144 = 244"
  proof -
    have "256 \<le> unat r div 4096" "unat r div 4096 < 272" using that u by linarith+
    then show ?thesis using mod_window [of 4 64 "unat r div 4096" 16] by simp
  qed
  ultimately have "second4 b0 (cbyte (drop_bit 12 r))"
    unfolding second4_def using isCont_cbyte b0(1) b1
    by (simp add: word_le_nat_alt word_unat_eq_iff)
  moreover have "\<not> r \<le> 0x7F" "\<not> r \<le> 0x7FF" using u by (simp_all add: word_le_nat_alt)
  then have "encodeRune r = [b0, cbyte (drop_bit 12 r), cbyte (drop_bit 6 r), cbyte r]"
    using assms by (simp add: encodeRune_def b0_def Let_def)
  ultimately have "decodeRune (encodeRune r @ bs) =
      (push_bit 18 (drop_bit 18 r) OR push_bit 12 (take_bit 6 (drop_bit 12 r))
        OR push_bit 6 (take_bit 6 (drop_bit 6 r)) OR take_bit 6 r, 4)"
    using decodeRune_4 [of b0 "cbyte (drop_bit 12 r)" "cbyte (drop_bit 6 r)" "cbyte r" bs] rng b0(2)
      isCont_cbyte bitsOf_cbyte by simp
  moreover have "push_bit 18 (drop_bit 18 r) OR push_bit 12 (take_bit 6 (drop_bit 12 r))
        OR push_bit 6 (take_bit 6 (drop_bit 6 r)) OR take_bit 6 r = r"
    by (rule glue4)
  ultimately show ?thesis by simp
qed

lemma decode_encode:
  assumes "validRune r"
  shows "decodeRune (encodeRune r @ bs) = (r, length (encodeRune r))"
proof -
  consider "r \<le> 0x7F" | "\<not> r \<le> 0x7F" "r \<le> 0x7FF" | "\<not> r \<le> 0x7FF" "r \<le> 0xFFFF" | "\<not> r \<le> 0xFFFF" by blast
  then show ?thesis
  proof cases
    case 1
    then have "unat r \<le> 127" by (simp add: word_le_nat_alt)
    then have "unat (ucast r :: u8) = unat r" by (simp add: unat_ucast_mod)
    then have "(ucast r :: u8) < 0x80" "(ucast (ucast r :: u8) :: rune) = r"
      using \<open>unat r \<le> 127\<close> by (simp_all add: word_less_nat_alt word_unat_eq_iff unat_ucast_mod)
    then show ?thesis using 1 by (simp add: encodeRune_def decodeRune.simps)
  next
    case 2
    then show ?thesis using decode_encode2 [OF 2, of bs] by (simp add: encodeRune_def)
  next
    case 3
    then have "\<not> r \<le> 0x7F" by (auto simp: word_le_nat_alt)
    then show ?thesis using decode_encode3 [OF 3 assms, of bs] 3 assms by (simp add: encodeRune_def Let_def)
  next
    case 4
    then have "\<not> r \<le> 0x7F" "\<not> r \<le> 0x7FF" by (auto simp: word_le_nat_alt)
    then show ?thesis using decode_encode4 [OF 4 assms, of bs] 4 assms by (simp add: encodeRune_def Let_def)
  qed
qed

text \<open>\<^verbatim>\<open>string(rs)\<close> of a slice of runes.\<close>

definition encodeRunes :: "rune list \<Rightarrow> bytes" where
  "encodeRunes rs = concat (map encodeRune rs)"

lemma encodeRune_nonempty: "encodeRune r \<noteq> []"
  by (simp add: encodeRune_def Let_def)

lemma runesOf_encode:
  "\<forall>r \<in> set rs. validRune r \<Longrightarrow>
    runesOf (encodeRunes rs @ bs) = map (\<lambda>r. (r, length (encodeRune r))) rs @ runesOf bs"
proof (induction rs)
  case Nil
  then show ?case by (simp add: encodeRunes_def)
next
  case (Cons r rs)
  have "encodeRunes (r # rs) @ bs = encodeRune r @ encodeRunes rs @ bs" by (simp add: encodeRunes_def)
  then show ?case using Cons decode_encode [of r "encodeRunes rs @ bs"] encodeRune_nonempty [of r]
    by (simp add: runesOf_nonempty)
qed

lemma runes_encode: "\<forall>r \<in> set rs. validRune r \<Longrightarrow> runes (encodeRunes rs) = rs"
  using runesOf_encode [of rs "[]"] unfolding runes_def by (simp add: map_idI)

section \<open>sort.Search\<close>

function searchLoop :: "(nat \<Rightarrow> bool) \<Rightarrow> nat \<Rightarrow> nat \<Rightarrow> nat" where
  "searchLoop f i j =
     (if i < j then (let h = (i + j) div 2 in if \<not> f h then searchLoop f (h + 1) j else searchLoop f i h)
      else i)"
  by pat_completeness auto
termination
  by (relation "measure (\<lambda>(f, i, j). j - i)") auto

declare searchLoop.simps [simp del]

definition sortSearch :: "nat \<Rightarrow> (nat \<Rightarrow> bool) \<Rightarrow> nat" where
  "sortSearch n f = searchLoop f 0 n"

lemma searchLoop_spec:
  assumes "i \<le> j" and "\<And>a b. a \<le> b \<Longrightarrow> b < n \<Longrightarrow> f a \<Longrightarrow> f b" and "j \<le> n"
    and "\<And>k. k < i \<Longrightarrow> \<not> f k" and "\<And>k. j \<le> k \<Longrightarrow> k < n \<Longrightarrow> f k"
  shows "searchLoop f i j \<le> n \<and> (\<forall>k < searchLoop f i j. \<not> f k)
    \<and> (\<forall>k. searchLoop f i j \<le> k \<longrightarrow> k < n \<longrightarrow> f k)"
  using assms
proof (induction f i j rule: searchLoop.induct)
  case (1 f i j)
  show ?case
  proof (cases "i < j")
    case False
    then have "searchLoop f i j = i" by (simp add: searchLoop.simps [of f i j])
    with False "1.prems" show ?thesis by simp
  next
    case True
    let ?h = "(i + j) div 2"
    have h: "i \<le> ?h" "?h < j" using True by auto
    show ?thesis
    proof (cases "f ?h")
      case True
      have up: "f k" if "?h \<le> k" "k < n" for k
        using "1.prems"(2) that True by blast
      have "searchLoop f i j = searchLoop f i ?h"
        using \<open>i < j\<close> True by (simp add: searchLoop.simps [of f i j] Let_def)
      with "1.IH"(2) [OF \<open>i < j\<close> refl] True h "1.prems" up show ?thesis by simp
    next
      case False
      have down: "\<not> f k" if "k < Suc ?h" for k
        using "1.prems"(2) [of k ?h] that False h "1.prems"(3) by auto
      have "searchLoop f i j = searchLoop f (?h + 1) j"
        using \<open>i < j\<close> False by (simp add: searchLoop.simps [of f i j] Let_def)
      with "1.IH"(1) [OF \<open>i < j\<close> refl] False h "1.prems" down show ?thesis by simp
    qed
  qed
qed

lemma sortSearch_spec:
  assumes "\<And>a b. a \<le> b \<Longrightarrow> b < n \<Longrightarrow> f a \<Longrightarrow> f b"
  shows sortSearch_le: "sortSearch n f \<le> n"
    and sortSearch_below: "k < sortSearch n f \<Longrightarrow> \<not> f k"
    and sortSearch_above: "sortSearch n f \<le> k \<Longrightarrow> k < n \<Longrightarrow> f k"
  using searchLoop_spec [of 0 n n f] assms by (auto simp: sortSearch_def)

section \<open>bytes and strings\<close>

definition hasPrefix :: "'a list \<Rightarrow> 'a list \<Rightarrow> bool" where
  "hasPrefix s p \<longleftrightarrow> take (length p) s = p"

text \<open>\<^verbatim>\<open>bytes.Index\<close>: the first position of \<open>sep\<close>, or \<open>-1\<close>.\<close>

fun indexFrom :: "int \<Rightarrow> 'a list \<Rightarrow> 'a list \<Rightarrow> int" where
  "indexFrom i s sep =
     (if hasPrefix s sep then i else case s of [] \<Rightarrow> -1 | _ # s' \<Rightarrow> indexFrom (i + 1) s' sep)"

declare indexFrom.simps [simp del]

definition indexOf :: "'a list \<Rightarrow> 'a list \<Rightarrow> int" where
  "indexOf s sep = indexFrom 0 s sep"

definition indexByte :: "bytes \<Rightarrow> u8 \<Rightarrow> int" where
  "indexByte s c = indexOf s [c]"

definition contains :: "'a list \<Rightarrow> 'a list \<Rightarrow> bool" where
  "contains s sep \<longleftrightarrow> indexOf s sep \<noteq> -1"

lemma hasPrefix_append [simp]: "hasPrefix (p @ s) p"
  by (simp add: hasPrefix_def)

lemma hasPrefix_iff: "hasPrefix s p \<longleftrightarrow> (\<exists>t. s = p @ t)"
  by (metis append_take_drop_id hasPrefix_append hasPrefix_def)

lemma indexFrom_cases:
  "0 \<le> i \<Longrightarrow> (indexFrom i s sep = -1 \<and> (\<forall>k. \<not> hasPrefix (drop k s) sep))
    \<or> (\<exists>k. indexFrom i s sep = i + int k \<and> k + length sep \<le> length s \<and> hasPrefix (drop k s) sep
          \<and> (\<forall>j<k. \<not> hasPrefix (drop j s) sep))"
proof (induction i s sep rule: indexFrom.induct)
  case (1 i s sep)
  show ?case
  proof (cases "hasPrefix s sep")
    case True
    then have "length sep \<le> length s" by (auto simp: hasPrefix_iff)
    with True show ?thesis by (intro disjI2 exI [of _ 0]) (simp add: indexFrom.simps [of i s sep])
  next
    case F: False
    show ?thesis
    proof (cases s)
      case Nil
      with F show ?thesis by (simp add: indexFrom.simps [of i "[]" sep])
    next
      case (Cons c s')
      have eq: "indexFrom i s sep = indexFrom (i + 1) s' sep"
        using F Cons by (simp add: indexFrom.simps [of i "c # s'" sep])
      have IH: "(indexFrom (i + 1) s' sep = -1 \<and> (\<forall>k. \<not> hasPrefix (drop k s') sep))
        \<or> (\<exists>k. indexFrom (i + 1) s' sep = i + 1 + int k \<and> k + length sep \<le> length s'
            \<and> hasPrefix (drop k s') sep \<and> (\<forall>j<k. \<not> hasPrefix (drop j s') sep))"
        using "1.IH" [OF F Cons] "1.prems" by simp
      then show ?thesis
      proof
        assume *: "indexFrom (i + 1) s' sep = -1 \<and> (\<forall>k. \<not> hasPrefix (drop k s') sep)"
        have "\<not> hasPrefix (drop k s) sep" for k
          using * F Cons by (cases k) auto
        with * eq show ?thesis by simp
      next
        assume "\<exists>k. indexFrom (i + 1) s' sep = i + 1 + int k \<and> k + length sep \<le> length s'
            \<and> hasPrefix (drop k s') sep \<and> (\<forall>j<k. \<not> hasPrefix (drop j s') sep)"
        then obtain k where k: "indexFrom (i + 1) s' sep = i + 1 + int k" "k + length sep \<le> length s'"
          "hasPrefix (drop k s') sep" "\<forall>j<k. \<not> hasPrefix (drop j s') sep"
          by blast
        have "\<not> hasPrefix (drop j s) sep" if "j < Suc k" for j
          using that k(4) F Cons by (cases j) auto
        with k eq Cons show ?thesis by (intro disjI2 exI [of _ "Suc k"]) auto
      qed
    qed
  qed
qed

lemma indexOf_cases:
  obtains (none) "indexOf s sep = -1" "\<And>k. \<not> hasPrefix (drop k s) sep"
  | (some) k where "indexOf s sep = int k" "k + length sep \<le> length s" "hasPrefix (drop k s) sep"
      "\<And>j. j < k \<Longrightarrow> \<not> hasPrefix (drop j s) sep"
  using indexFrom_cases [of 0 s sep] by (auto simp: indexOf_def)

lemma contains_iff: "contains s sep \<longleftrightarrow> (\<exists>xs ys. s = xs @ sep @ ys)"
proof
  assume "contains s sep"
  then show "\<exists>xs ys. s = xs @ sep @ ys"
    by (cases rule: indexOf_cases [of s sep])
      (auto simp: contains_def hasPrefix_iff, metis append_take_drop_id)
next
  assume "\<exists>xs ys. s = xs @ sep @ ys"
  then obtain xs ys where "s = xs @ sep @ ys" by blast
  then have "hasPrefix (drop (length xs) s) sep" by simp
  then show "contains s sep"
    by (cases rule: indexOf_cases [of s sep]) (auto simp: contains_def)
qed

end
