(* ===== verification/Zoekt_Bits.thy ===== *)
theory Zoekt_Bits
  imports Go_Std
begin

unbundle bit_operations_syntax

text \<open>
  The model of \<^verbatim>\<open>bits.go\<close>: trigrams packed into 64 bits, their case variants, case
  folding comparison, splitting a string into trigrams, the delta encodings of offset lists
  and document sections, and character classes. The Unicode tables behind
  \<^verbatim>\<open>unicode.SimpleFold\<close> and \<^verbatim>\<open>unicode.ToLower\<close> are the parameters \<open>sfold\<close> and \<open>lower\<close>.
\<close>

section \<open>Trigrams\<close>

type_synonym ngram = u64

abbreviation (input) ngramSize :: nat where
  "ngramSize \<equiv> 3"

type_synonym rune3 = "rune \<times> rune \<times> rune"

definition runesToNGram :: "rune3 \<Rightarrow> ngram" where
  "runesToNGram b = (case b of (b0, b1, b2) \<Rightarrow>
     push_bit 42 (scast b0) OR push_bit 21 (scast b1) OR scast b2)"

definition bytesToNGram :: "bytes \<Rightarrow> ngram" where
  "bytesToNGram b = runesToNGram (ucast (b ! 0), ucast (b ! 1), ucast (b ! 2))"

definition runeMask :: u64 where
  "runeMask = push_bit 21 1 - 1"

definition ngramToRunes :: "ngram \<Rightarrow> rune3" where
  "ngramToRunes n = (ucast (drop_bit 42 n AND runeMask), ucast (drop_bit 21 n AND runeMask),
     ucast (n AND runeMask))"

definition ngramToBytes :: "ngram \<Rightarrow> bytes" where
  "ngramToBytes n = (case ngramToRunes n of (r0, r1, r2) \<Rightarrow> [ucast r0, ucast r1, ucast r2])"

text \<open>A rune fits the 21 bits of its slot in a trigram.\<close>

definition rune21 :: "rune \<Rightarrow> bool" where
  "rune21 r \<longleftrightarrow> r < 0x200000"

lemma runeMask_eq: "runeMask = mask 21"
  by (simp add: runeMask_def mask_eq_exp_minus_1)

lemma rune21_take_bit: "rune21 r \<Longrightarrow> take_bit 21 r = r"
  by (simp add: rune21_def word_less_nat_alt take_bit_eq_mod [symmetric] word_unat_eq_iff
      unsigned_take_bit_eq take_bit_nat_eq_self_iff)

lemma rune21_bit: "rune21 r \<Longrightarrow> bit r n \<Longrightarrow> n < 21"
  by (metis bit_take_bit_iff rune21_take_bit)

lemma rune21_scast: "rune21 r \<Longrightarrow> (scast r :: u64) = ucast r"
  by (rule bit_word_eqI) (auto simp: bit_simps dest: rune21_bit)

lemma ngramToRunes_runesToNGram:
  assumes "rune21 a" "rune21 b" "rune21 c"
  shows "ngramToRunes (runesToNGram (a, b, c)) = (a, b, c)"
proof -
  let ?n = "push_bit 42 (ucast a) OR push_bit 21 (ucast b) OR ucast c :: u64"
  have "ucast (drop_bit 42 ?n AND mask 21) = a"
    using assms by (intro bit_word_eqI) (auto simp: bit_simps dest: rune21_bit)
  moreover have "ucast (drop_bit 21 ?n AND mask 21) = b"
    using assms by (intro bit_word_eqI) (auto simp: bit_simps dest: rune21_bit)
  moreover have "ucast (?n AND mask 21) = c"
    using assms by (intro bit_word_eqI) (auto simp: bit_simps dest: rune21_bit)
  ultimately show ?thesis
    using assms by (simp add: ngramToRunes_def runesToNGram_def runeMask_eq rune21_scast)
qed

section \<open>Offset lists as varint deltas\<close>

fun deltasLoop :: "u32 \<Rightarrow> u32 list \<Rightarrow> bytes" where
  "deltasLoop prev [] = []"
| "deltasLoop prev (p # ps) = putUvarint (ucast (p - prev)) @ deltasLoop p ps"

definition toSizedDeltas :: "u32 list \<Rightarrow> bytes" where
  "toSizedDeltas offsets = putUvarint (of_nat (length offsets)) @ deltasLoop 0 offsets"

text \<open>The decoding loop. A varint that does not end gives \<open>m = 0\<close>, on which the Go loop spins
  forever, and one that overflows gives \<open>m < 0\<close>, on which the slice expression panics: in
  both cases the function does not return, which is \<open>None\<close>.\<close>

function undeltasLoop :: "u32 \<Rightarrow> bytes \<Rightarrow> u32 list option" where
  "undeltasLoop prev data =
     (if data = [] then Some []
      else let (delta, m) = uvarint data; offset = prev + ucast delta in
        if m \<le> 0 then None
        else map_option (Cons offset) (undeltasLoop offset (drop (nat m) data)))"
  by pat_completeness auto
termination
  by (relation "measure (\<lambda>(prev, data). length data)") auto

declare undeltasLoop.simps [simp del]

definition fromSizedDeltas :: "bytes \<Rightarrow> u32 list option" where
  "fromSizedDeltas data =
     (let (sz, m) = uvarint data in if m < 0 then None else undeltasLoop 0 (drop (nat m) data))"

definition fromDeltas :: "bytes \<Rightarrow> u32 list option" where
  "fromDeltas data = undeltasLoop 0 data"

lemma ucast_ucast_u32: "ucast (ucast (x::u32) :: u64) = x"
  by (rule bit_word_eqI) (auto simp: bit_simps)

lemma undeltas_deltas: "undeltasLoop prev (deltasLoop prev ps) = Some ps"
proof (induction ps arbitrary: prev)
  case Nil
  then show ?case by (simp add: undeltasLoop.simps)
next
  case (Cons p ps)
  let ?v = "putUvarint (ucast (p - prev))"
  have "undeltasLoop prev (?v @ deltasLoop p ps) = map_option (Cons p) (undeltasLoop p (deltasLoop p ps))"
    by (subst undeltasLoop.simps) (simp add: uvarint_put ucast_ucast_u32)
  with Cons.IH show ?case by simp
qed

lemma fromDeltas_deltasLoop: "fromDeltas (deltasLoop 0 ps) = Some ps"
  by (simp add: fromDeltas_def undeltas_deltas)

lemma fromSizedDeltas_toSizedDeltas: "fromSizedDeltas (toSizedDeltas ps) = Some ps"
  by (simp add: fromSizedDeltas_def toSizedDeltas_def uvarint_put undeltas_deltas)

section \<open>Document sections\<close>

text \<open>The struct \<^verbatim>\<open>DocumentSection\<close> of indexbuilder.go, which bits.go encodes.\<close>

record DocumentSection =
  Start :: u32
  End :: u32

definition marshalDocSections :: "DocumentSection list \<Rightarrow> bytes" where
  "marshalDocSections secs = toSizedDeltas (concat (map (\<lambda>s. [Start s, End s]) secs))"

fun pairSections :: "u32 list \<Rightarrow> DocumentSection list option" where
  "pairSections [] = Some []"
| "pairSections [_] = None"
| "pairSections (a # b # ints) = map_option (Cons \<lparr>Start = a, End = b\<rparr>) (pairSections ints)"

definition unmarshalDocSections :: "bytes \<Rightarrow> DocumentSection list option" where
  "unmarshalDocSections inp = Option.bind (fromSizedDeltas inp) pairSections"

lemma pairSections_concat: "pairSections (concat (map (\<lambda>s. [Start s, End s]) secs)) = Some secs"
  by (induction secs) auto

lemma unmarshal_marshal: "unmarshalDocSections (marshalDocSections secs) = Some secs"
  by (simp add: unmarshalDocSections_def marshalDocSections_def fromSizedDeltas_toSizedDeltas
      pairSections_concat)

section \<open>Splitting a string into trigrams\<close>

record runeNgramOff =
  ngramOf :: ngram
  byteSize :: u32
  byteOff :: u32
  runeOff :: u32

definition byteEnd :: "runeNgramOff \<Rightarrow> u32" where
  "byteEnd r = byteOff r + byteSize r"

fun splitLoop :: "rune3 \<Rightarrow> u32 \<times> u32 \<times> u32 \<Rightarrow> u32 \<Rightarrow> int \<Rightarrow> nat \<Rightarrow> (rune \<times> nat) list \<Rightarrow> runeNgramOff list"
where
  "splitLoop g off i chars runeCnt [] = []"
| "splitLoop (g0, g1, g2) (o0, o1, o2) i chars runeCnt ((r, sz) # rs) =
     (let chars' = chars + 1; g' = (g1, g2, r); off' = (o1, o2, i); i' = i + of_nat sz;
          runeCnt' = runeCnt + 1;
          rest = splitLoop g' off' i' chars' runeCnt' rs
      in if runeCnt' < ngramSize then rest
         else \<lparr>ngramOf = runesToNGram g', byteSize = i' - o1, byteOff = o1, runeOff = of_int chars'\<rparr> # rest)"

definition splitNGrams :: "bytes \<Rightarrow> runeNgramOff list" where
  "splitNGrams str = splitLoop (0, 0, 0) (0, 0, 0) 0 (-1) 0 (runesOf str)"

text \<open>The byte offsets of the runes of a string, with the offset of its end.\<close>

fun runeStarts :: "u32 \<Rightarrow> (rune \<times> nat) list \<Rightarrow> u32 list" where
  "runeStarts i [] = [i]"
| "runeStarts i ((r, sz) # rs) = i # runeStarts (i + of_nat sz) rs"

lemma runeStarts_nth:
  "k \<le> length rs \<Longrightarrow> runeStarts i rs ! k = i + of_nat (sum_list (map snd (take k rs)))"
proof (induction i rs arbitrary: k rule: runeStarts.induct)
  case (1 i)
  then show ?case by simp
next
  case (2 i r sz rs)
  then show ?case by (cases k) auto
qed

lemma splitLoop_full:
  assumes "2 \<le> n"
  shows "splitLoop (g0, g1, g2) (o0, o1, o2) i c n rs =
    (let G = g1 # g2 # map fst rs; O' = o1 # o2 # runeStarts i rs in
     map (\<lambda>k. \<lparr>ngramOf = runesToNGram (G ! k, G ! Suc k, G ! Suc (Suc k)),
                byteSize = O' ! (k + 3) - O' ! k, byteOff = O' ! k, runeOff = of_int (c + 1 + int k)\<rparr>)
       [0..<length rs])"
  using assms
proof (induction rs arbitrary: g0 g1 g2 o0 o1 o2 i c n)
  case Nil
  then show ?case by simp
next
  case (Cons x rs)
  obtain r sz where x: "x = (r, sz)" by force
  have nth: "runeStarts j rs ! 0 = j" for j by (cases rs) (auto split: prod.splits)
  have up: "[0..<length (x # rs)] = 0 # map Suc [0..<length rs]"
    by (simp add: upt_conv_Cons map_Suc_upt del: upt_Suc)
  show ?case
    using Cons.IH [of "Suc n" g1 g2 r o1 o2 i "i + of_nat sz" "c + 1"] Cons.prems
    unfolding up by (simp add: x Let_def nth numeral_3_eq_3 algebra_simps)
qed

lemma splitNGrams_eq:
  assumes "runesOf str = rs"
  shows "splitNGrams str =
     map (\<lambda>k. \<lparr>ngramOf = runesToNGram (fst (rs ! k), fst (rs ! (k + 1)), fst (rs ! (k + 2))),
                byteSize = of_nat (sum_list (map snd (take 3 (drop k rs)))),
                byteOff = of_nat (sum_list (map snd (take k rs))), runeOff = of_nat (k + 2)\<rparr>)
       [0..<length rs - 2]"
proof (cases rs)
  case Nil
  with assms show ?thesis by (simp add: splitNGrams_def)
next
  case (Cons x0 rs1)
  obtain r0 z0 where "x0 = (r0, z0)" by force
  with Cons have rs: "rs = (r0, z0) # rs1" by simp
  show ?thesis
  proof (cases rs1)
    case Nil
    with rs assms show ?thesis by (simp add: splitNGrams_def)
  next
    case (Cons x1 rs2)
    obtain r1 z1 where x1: "x1 = (r1, z1)" by force
    have starts: "0 # of_nat z0 # runeStarts (of_nat z0 + of_nat z1) rs2 = runeStarts 0 rs"
      using rs Cons x1 by simp
    have G: "r0 # r1 # map fst rs2 = map fst rs" using rs Cons x1 by simp
    have split: "splitNGrams str = map (\<lambda>k. \<lparr>ngramOf = runesToNGram (map fst rs ! k, map fst rs ! Suc k, map fst rs ! Suc (Suc k)),
        byteSize = runeStarts 0 rs ! (k + 3) - runeStarts 0 rs ! k, byteOff = runeStarts 0 rs ! k,
        runeOff = of_int (1 + 1 + int k)\<rparr>) [0..<length rs2]"
      using splitLoop_full [of "Suc (Suc 0)" 0 r0 r1 0 0 "of_nat z0" "of_nat z0 + of_nat z1" 1 rs2] assms
      by (simp add: splitNGrams_def rs Cons x1 Let_def flip: starts)
    have len: "length rs - 2 = length rs2" "length rs = Suc (Suc (length rs2))" using rs Cons by simp_all
    have off: "runeStarts 0 rs ! k = of_nat (sum_list (map snd (take k rs)))" if "k < length rs2" for k
      using runeStarts_nth [of k rs 0] that len(2) by simp
    have off3: "runeStarts 0 rs ! (k + 3) = of_nat (sum_list (map snd (take k rs)))
        + of_nat (sum_list (map snd (take 3 (drop k rs))))" if "k < length rs2" for k
      using runeStarts_nth [of "k + 3" rs 0] that len(2) by (simp add: take_add)
    show ?thesis
      unfolding split len(1) using len(2) by (auto simp: off off3)
  qed
qed

section \<open>Case folding\<close>

definition toLower :: "(rune \<Rightarrow> rune) \<Rightarrow> bytes \<Rightarrow> bytes" where
  "toLower lower inp = concat (map (\<lambda>(c, sz). encodeRune (lower c)) (runesOf inp))"

lemma runes_toLower:
  assumes "\<forall>r \<in> set (runes s). validRune (lower r)"
  shows "runes (toLower lower s) = map lower (runes s)"
proof -
  have "toLower lower s = encodeRunes (map lower (runes s))"
    by (simp add: toLower_def encodeRunes_def runes_def comp_def case_prod_unfold)
  then show ?thesis using assms by (simp add: runes_encode)
qed

definition isASCII :: "bytes \<Rightarrow> bool" where
  "isASCII inp \<longleftrightarrow> list_all (\<lambda>(r, sz). \<not> 1 < sz) (runesOf inp)"

definition asciiLower :: "u8 \<Rightarrow> u8" where
  "asciiLower d = (if 0x41 \<le> d \<and> d \<le> 0x5A then d - 0x41 + 0x61 else d)"

definition caseFoldingEqualsASCII :: "bytes \<Rightarrow> bytes \<Rightarrow> bool" where
  "caseFoldingEqualsASCII lowered mixed \<longleftrightarrow>
     length lowered \<le> length mixed \<and> (\<forall>i \<in> {0..<length lowered}. asciiLower (mixed ! i) = lowered ! i)"

function cfeLoop :: "(rune \<Rightarrow> rune) \<Rightarrow> bytes \<Rightarrow> bytes \<Rightarrow> nat \<Rightarrow> nat \<times> bool" where
  "cfeLoop lower lowered mixed matchTotal =
     (if lowered \<noteq> [] \<and> mixed \<noteq> [] then
        (let (lr, lsz) = decodeRune lowered; (mr, msz) = decodeRune mixed in
           if lr \<noteq> lower mr then (0, False)
           else cfeLoop lower (drop lsz lowered) (drop msz mixed) (matchTotal + msz))
      else (matchTotal, lowered = []))"
  by pat_completeness auto
termination
  by (relation "measure (\<lambda>(lower, lowered, mixed, total). length lowered)")
    (auto dest: decodeRune_pair_pos)

declare cfeLoop.simps [simp del]

definition caseFoldingEqualsRunes :: "(rune \<Rightarrow> rune) \<Rightarrow> bytes \<Rightarrow> bytes \<Rightarrow> nat \<times> bool" where
  "caseFoldingEqualsRunes lower lowered mixed = cfeLoop lower lowered mixed 0"

lemma cfeLoop_match:
  "cfeLoop lower lowered mixed t =
     (if hasPrefix (map lower (runes mixed)) (runes lowered)
      then (t + sum_list (map snd (take (runeCount lowered) (runesOf mixed))), True)
      else if hasPrefix (runes lowered) (map lower (runes mixed)) then (t + length mixed, False)
      else (0, False))"
proof (induction lower lowered mixed t rule: cfeLoop.induct)
  case (1 lower lowered mixed t)
  show ?case
  proof (cases "lowered \<noteq> [] \<and> mixed \<noteq> []")
    case False
    then show ?thesis
      by (subst cfeLoop.simps) (auto simp: runes_def runeCount_def hasPrefix_def runesOf_nonempty)
  next
    case True
    obtain lr lsz mr msz where d: "decodeRune lowered = (lr, lsz)" "decodeRune mixed = (mr, msz)"
      by force
    have rs: "runesOf lowered = (lr, lsz) # runesOf (drop lsz lowered)"
      "runesOf mixed = (mr, msz) # runesOf (drop msz mixed)"
      using True d by (simp_all add: runesOf_nonempty)
    have "msz \<le> length mixed" using decodeRune_size_le [of mixed] d by simp
    then have len: "msz + length (drop msz mixed) = length mixed" by simp
    show ?thesis
    proof (cases "lr = lower mr")
      case False
      with True d rs show ?thesis
        by (simp add: cfeLoop.simps [of lower lowered mixed t] runes_def hasPrefix_def)
    next
      case eq: True
      have step: "cfeLoop lower lowered mixed t
          = cfeLoop lower (drop lsz lowered) (drop msz mixed) (t + msz)"
        using True d eq by (simp add: cfeLoop.simps [of lower lowered mixed t])
      have IH: "cfeLoop lower (drop lsz lowered) (drop msz mixed) (t + msz) =
        (if hasPrefix (map lower (runes (drop msz mixed))) (runes (drop lsz lowered))
         then (t + msz + sum_list (map snd (take (runeCount (drop lsz lowered)) (runesOf (drop msz mixed)))), True)
         else if hasPrefix (runes (drop lsz lowered)) (map lower (runes (drop msz mixed)))
           then (t + msz + length (drop msz mixed), False) else (0, False))"
        using "1.IH" [OF True d(1) [symmetric] refl d(2) [symmetric] refl] eq by simp
      show ?thesis
        unfolding step IH using rs eq len by (auto simp: runes_def runeCount_def hasPrefix_def)
    qed
  qed
qed

section \<open>Case variants of a trigram\<close>

text \<open>The inner loop: advance the first rune in its folding orbit, and carry to the next rune
  when it came back to its start.\<close>

definition nextVariant :: "(rune \<Rightarrow> rune) \<Rightarrow> rune3 \<Rightarrow> rune3 \<Rightarrow> rune3" where
  "nextVariant sfold as cur = (case (as, cur) of ((a0, a1, a2), (c0, c1, c2)) \<Rightarrow>
     let n0 = sfold c0 in if n0 \<noteq> a0 then (n0, c1, c2)
     else let n1 = sfold c1 in if n1 \<noteq> a1 then (n0, n1, c2)
     else (n0, n1, sfold c2))"

partial_function (option) variantLoop ::
  "(rune \<Rightarrow> rune) \<Rightarrow> rune3 \<Rightarrow> rune3 \<Rightarrow> ngram list \<Rightarrow> ngram list option" where
  "variantLoop sfold as cur variants =
     (let cur' = nextVariant sfold as cur; variants' = variants @ [runesToNGram cur'] in
        if cur' = as then Some variants' else variantLoop sfold as cur' variants')"

definition generateCaseNgrams :: "(rune \<Rightarrow> rune) \<Rightarrow> ngram \<Rightarrow> ngram list option" where
  "generateCaseNgrams sfold g = variantLoop sfold (ngramToRunes g) (ngramToRunes g) []"

text \<open>Each rune comes back to itself under folding: Unicode's simple folding permutes every
  class of equivalent runes cyclically.\<close>

definition cyclic :: "(rune \<Rightarrow> rune) \<Rightarrow> rune \<Rightarrow> bool" where
  "cyclic f r \<longleftrightarrow> (\<exists>n>0. (f ^^ n) r = r)"

definition orbit :: "(rune \<Rightarrow> rune) \<Rightarrow> rune \<Rightarrow> rune set" where
  "orbit f r = range (\<lambda>n. (f ^^ n) r)"

definition period :: "(rune \<Rightarrow> rune) \<Rightarrow> rune \<Rightarrow> nat" where
  "period f r = (LEAST n. 0 < n \<and> (f ^^ n) r = r)"

lemma period_props:
  assumes "cyclic f r"
  shows "0 < period f r" and "(f ^^ period f r) r = r"
  using LeastI_ex [of "\<lambda>n. 0 < n \<and> (f ^^ n) r = r"] assms
  by (auto simp: period_def cyclic_def)

lemma period_least: "0 < n \<Longrightarrow> (f ^^ n) r = r \<Longrightarrow> period f r \<le> n"
  by (simp add: period_def Least_le)

lemma funpow_mod_period:
  assumes "cyclic f r"
  shows "(f ^^ (k mod period f r)) r = (f ^^ k) r"
  by (rule funpow_mod_eq) (rule period_props(2) [OF assms])

lemma funpow_back:
  assumes "cyclic f r"
  shows "(f ^^ k) r = r \<longleftrightarrow> k mod period f r = 0"
proof
  assume "(f ^^ k) r = r"
  then have "(f ^^ (k mod period f r)) r = r" by (simp add: funpow_mod_period assms)
  moreover have "k mod period f r < period f r" using period_props(1) [OF assms] by simp
  ultimately show "k mod period f r = 0"
    using period_least [of "k mod period f r" f r] by (metis gr0I not_le)
next
  assume "k mod period f r = 0"
  then show "(f ^^ k) r = r" using funpow_mod_period [OF assms, of k] by simp
qed

lemma orbit_eq:
  assumes "cyclic f r"
  shows "orbit f r = (\<lambda>n. (f ^^ n) r) ` {0..<period f r}"
proof
  show "orbit f r \<subseteq> (\<lambda>n. (f ^^ n) r) ` {0..<period f r}"
  proof
    fix x
    assume "x \<in> orbit f r"
    then obtain n where "x = (f ^^ n) r" by (auto simp: orbit_def)
    then have "x = (f ^^ (n mod period f r)) r" by (simp add: funpow_mod_period assms)
    then show "x \<in> (\<lambda>n. (f ^^ n) r) ` {0..<period f r}"
      using period_props(1) [OF assms] by auto
  qed
qed (auto simp: orbit_def)

lemma funpow_inj_period:
  assumes "cyclic f r" and "i < period f r" and "j < period f r" and "(f ^^ i) r = (f ^^ j) r"
  shows "i = j"
proof -
  have le: "i = j" if "i \<le> j" "i < period f r" "j < period f r" "(f ^^ i) r = (f ^^ j) r" for i j
  proof -
    let ?p = "period f r"
    have "(f ^^ (?p - j + i)) r = (f ^^ (?p - j)) ((f ^^ i) r)" by (simp add: funpow_add)
    also have "\<dots> = (f ^^ (?p - j + j)) r" using that(4) by (simp only: funpow_add o_apply)
    also have "\<dots> = r" using that(3) period_props(2) [OF assms(1)] by simp
    finally have "(?p - j + i) mod ?p = 0" by (simp add: funpow_back [OF assms(1)])
    then have "?p - j + i = ?p \<or> ?p - j + i = 0"
      using that by (cases "i = j") auto
    then show ?thesis using that by auto
  qed
  show ?thesis using le [of i j] le [of j i] assms by (cases "i \<le> j") auto
qed

lemma card_orbit: "cyclic f r \<Longrightarrow> card (orbit f r) = period f r"
  by (subst orbit_eq, assumption, subst card_image) (auto intro!: inj_onI funpow_inj_period)

text \<open>The \<open>k\<close>-th value of the counter, read off the digits of \<open>k\<close> in the mixed radix of the
  three periods.\<close>

definition variantAt :: "(rune \<Rightarrow> rune) \<Rightarrow> rune3 \<Rightarrow> nat \<Rightarrow> rune3" where
  "variantAt f as k = (case as of (a0, a1, a2) \<Rightarrow>
     ((f ^^ k) a0, (f ^^ (k div period f a0)) a1, (f ^^ (k div period f a0 div period f a1)) a2))"

lemma nextVariant_variantAt:
  assumes "cyclic f a0" "cyclic f a1"
  shows "nextVariant f (a0, a1, a2) (variantAt f (a0, a1, a2) k) = variantAt f (a0, a1, a2) (Suc k)"
proof -
  let ?p0 = "period f a0" and ?p1 = "period f a1"
  have p: "0 < ?p0" "0 < ?p1" using period_props(1) assms by auto
  have n0: "f ((f ^^ k) a0) = a0 \<longleftrightarrow> Suc k mod ?p0 = 0" using funpow_back [OF assms(1), of "Suc k"] by simp
  have n1: "f ((f ^^ (k div ?p0)) a1) = a1 \<longleftrightarrow> Suc (k div ?p0) mod ?p1 = 0"
    using funpow_back [OF assms(2), of "Suc (k div ?p0)"] by simp
  have d0: "Suc k div ?p0 = (if Suc k mod ?p0 = 0 then Suc (k div ?p0) else k div ?p0)"
    by (simp add: div_Suc)
  have d1: "Suc (k div ?p0) div ?p1
      = (if Suc (k div ?p0) mod ?p1 = 0 then Suc (k div ?p0 div ?p1) else k div ?p0 div ?p1)"
    by (simp add: div_Suc)
  show ?thesis
    using n0 n1 by (auto simp: nextVariant_def variantAt_def Let_def d0 d1)
qed

lemma variantAt_back:
  assumes "cyclic f a0" "cyclic f a1" "cyclic f a2"
  shows "variantAt f (a0, a1, a2) k = (a0, a1, a2)
    \<longleftrightarrow> k mod (period f a0 * period f a1 * period f a2) = 0"
proof -
  let ?p0 = "period f a0" and ?p1 = "period f a1" and ?p2 = "period f a2"
  have p: "0 < ?p0" "0 < ?p1" "0 < ?p2" using period_props(1) assms by auto
  have "variantAt f (a0, a1, a2) k = (a0, a1, a2) \<longleftrightarrow>
    k mod ?p0 = 0 \<and> k div ?p0 mod ?p1 = 0 \<and> k div ?p0 div ?p1 mod ?p2 = 0"
    by (simp add: variantAt_def funpow_back assms)
  also have "\<dots> \<longleftrightarrow> k mod (?p0 * (?p1 * ?p2)) = 0"
    using p by (auto simp: mod_mult2_eq)
  finally show ?thesis by (simp add: mult.assoc)
qed

lemma variantLoop_run:
  assumes cyc: "cyclic f a0" "cyclic f a1" "cyclic f a2" and "k < N"
    and N: "N = period f a0 * period f a1 * period f a2"
  shows "variantLoop f (a0, a1, a2) (variantAt f (a0, a1, a2) k) acc =
    Some (acc @ map (\<lambda>j. runesToNGram (variantAt f (a0, a1, a2) j)) [Suc k..<Suc N])"
  using \<open>k < N\<close>
proof (induction "N - k" arbitrary: k acc)
  case 0
  then show ?case by simp
next
  case (Suc d)
  let ?v = "variantAt f (a0, a1, a2)"
  have next_v: "nextVariant f (a0, a1, a2) (?v k) = ?v (Suc k)"
    by (rule nextVariant_variantAt) (use cyc in auto)
  show ?case
  proof (cases "Suc k = N")
    case True
    then have "?v (Suc k) = (a0, a1, a2)" using variantAt_back [OF cyc, of "Suc k"] N by simp
    then show ?thesis using next_v True by (subst variantLoop.simps) (simp add: Let_def)
  next
    case False
    with Suc.prems have lt: "Suc k < N" by simp
    then have "?v (Suc k) \<noteq> (a0, a1, a2)" using variantAt_back [OF cyc, of "Suc k"] N by simp
    moreover have "[Suc k..<Suc N] = Suc k # [Suc (Suc k)..<Suc N]"
      using lt by (simp add: upt_conv_Cons)
    moreover have "d = N - Suc k" using Suc.hyps(2) by simp
    ultimately show ?thesis
      using next_v Suc.hyps(1) [OF _ lt] by (subst variantLoop.simps) (simp add: Let_def)
  qed
qed

lemma variantAt_surj:
  assumes "cyclic f a0" "cyclic f a1"
    and "x \<in> orbit f a0" "y \<in> orbit f a1" "z \<in> orbit f a2"
  shows "\<exists>k. variantAt f (a0, a1, a2) k = (x, y, z)"
proof -
  let ?p0 = "period f a0" and ?p1 = "period f a1"
  obtain i where i: "i < ?p0" "x = (f ^^ i) a0" using assms by (auto simp: orbit_eq)
  obtain j where j: "j < ?p1" "y = (f ^^ j) a1" using assms by (auto simp: orbit_eq)
  obtain l where l: "z = (f ^^ l) a2" using assms(5) by (auto simp: orbit_def)
  let ?k = "i + ?p0 * (j + ?p1 * l)"
  have k0: "?k mod ?p0 = i" "?k div ?p0 = j + ?p1 * l" using i by simp_all
  have k1: "(j + ?p1 * l) mod ?p1 = j" "(j + ?p1 * l) div ?p1 = l" using j by simp_all
  have "(f ^^ ?k) a0 = x" using funpow_mod_period [OF assms(1), of ?k] k0 i by simp
  moreover have "(f ^^ (?k div ?p0)) a1 = y"
    using funpow_mod_period [OF assms(2), of "?k div ?p0"] k0 k1 j by simp
  ultimately have "variantAt f (a0, a1, a2) ?k = (x, y, z)"
    using k0 k1 l by (simp add: variantAt_def)
  then show ?thesis by blast
qed

lemma variantAt_period:
  assumes cyc: "cyclic f a0" "cyclic f a1" "cyclic f a2"
    and N: "N = period f a0 * period f a1 * period f a2"
  shows "variantAt f (a0, a1, a2) (k mod N) = variantAt f (a0, a1, a2) k"
proof -
  let ?p0 = "period f a0" and ?p1 = "period f a1" and ?p2 = "period f a2"
  have p: "0 < ?p0" "0 < ?p1" "0 < ?p2" using period_props(1) cyc by auto
  have m: "k mod N = k mod ?p0 + ?p0 * (k div ?p0 mod ?p1 + ?p1 * (k div ?p0 div ?p1 mod ?p2))"
    using p N by (simp add: mod_mult2_eq mult.assoc add.commute)
  have 0: "(k mod N) mod ?p0 = k mod ?p0" "(k mod N) div ?p0 = k div ?p0 mod ?p1 + ?p1 * (k div ?p0 div ?p1 mod ?p2)"
    unfolding m using p by simp_all
  have 1: "((k mod N) div ?p0) mod ?p1 = k div ?p0 mod ?p1" "(k mod N) div ?p0 div ?p1 = k div ?p0 div ?p1 mod ?p2"
    unfolding 0(2) using p by simp_all
  have "(f ^^ (k mod N)) a0 = (f ^^ k) a0"
    using funpow_mod_period [OF cyc(1), of "k mod N"] funpow_mod_period [OF cyc(1), of k] 0(1) by simp
  moreover have "(f ^^ ((k mod N) div ?p0)) a1 = (f ^^ (k div ?p0)) a1"
    using funpow_mod_period [OF cyc(2), of "(k mod N) div ?p0"] funpow_mod_period [OF cyc(2), of "k div ?p0"] 1(1)
    by simp
  moreover have "(f ^^ ((k mod N) div ?p0 div ?p1)) a2 = (f ^^ (k div ?p0 div ?p1)) a2"
    unfolding 1(2) by (rule funpow_mod_period [OF cyc(3)])
  ultimately show ?thesis by (simp add: variantAt_def)
qed

lemma variantAt_range:
  assumes cyc: "cyclic f a0" "cyclic f a1" "cyclic f a2"
    and N: "N = period f a0 * period f a1 * period f a2"
  shows "variantAt f (a0, a1, a2) ` {Suc 0..N} = orbit f a0 \<times> orbit f a1 \<times> orbit f a2"
proof
  show "variantAt f (a0, a1, a2) ` {Suc 0..N} \<subseteq> orbit f a0 \<times> orbit f a1 \<times> orbit f a2"
    by (auto simp: variantAt_def orbit_def)
  show "orbit f a0 \<times> orbit f a1 \<times> orbit f a2 \<subseteq> variantAt f (a0, a1, a2) ` {Suc 0..N}"
  proof clarify
    fix x y z
    assume "x \<in> orbit f a0" "y \<in> orbit f a1" "z \<in> orbit f a2"
    then obtain k where k: "variantAt f (a0, a1, a2) k = (x, y, z)"
      using variantAt_surj [OF cyc(1,2)] by blast
    have "0 < N" using period_props(1) cyc N by simp
    define m where "m = (if k mod N = 0 then N else k mod N)"
    have "m mod N = k mod N" "m \<in> {Suc 0..N}"
      using \<open>0 < N\<close> mod_less_divisor [of N k] by (auto simp: m_def less_imp_le)
    moreover have "variantAt f (a0, a1, a2) m = (x, y, z)"
      using k variantAt_period [OF cyc N, of m] variantAt_period [OF cyc N, of k] \<open>m mod N = k mod N\<close>
      by simp
    ultimately show "(x, y, z) \<in> variantAt f (a0, a1, a2) ` {Suc 0..N}" by (metis imageI)
  qed
qed

lemma generateCaseNgrams_run:
  assumes "ngramToRunes g = (a0, a1, a2)" and cyc: "cyclic f a0" "cyclic f a1" "cyclic f a2"
  shows "\<exists>vs. generateCaseNgrams f g = Some vs
    \<and> set vs = runesToNGram ` (orbit f a0 \<times> orbit f a1 \<times> orbit f a2)
    \<and> length vs = card (orbit f a0) * card (orbit f a1) * card (orbit f a2)"
proof -
  define N where "N = period f a0 * period f a1 * period f a2"
  have "0 < N" using period_props(1) cyc by (simp add: N_def)
  have start: "variantAt f (a0, a1, a2) 0 = (a0, a1, a2)" by (simp add: variantAt_def)
  let ?vs = "map (\<lambda>j. runesToNGram (variantAt f (a0, a1, a2) j)) [Suc 0..<Suc N]"
  have "generateCaseNgrams f g = Some ?vs"
    using variantLoop_run [OF cyc \<open>0 < N\<close> N_def, of "[]"] assms(1) start
    by (simp add: generateCaseNgrams_def)
  moreover have "set ?vs = runesToNGram ` (orbit f a0 \<times> orbit f a1 \<times> orbit f a2)"
    using variantAt_range [OF cyc N_def]
    by (simp add: atLeastLessThanSuc_atLeastAtMost image_image [symmetric] del: upt_Suc)
  moreover have "length ?vs = card (orbit f a0) * card (orbit f a1) * card (orbit f a2)"
    using cyc by (simp add: card_orbit N_def del: upt_Suc)
  ultimately show ?thesis by blast
qed

section \<open>Character classes\<close>

datatype charClass = ClassChar | ClassDigit | ClassPunct | ClassOther | ClassSpace

definition byteClass :: "u8 \<Rightarrow> charClass" where
  "byteClass c =
     (if (0x61 \<le> c \<and> c \<le> 0x7A) \<or> (0x41 \<le> c \<and> c \<le> 0x5A) then ClassChar
      else if 0x30 \<le> c \<and> c \<le> 0x39 then ClassDigit
      else if c = 0x20 \<or> c = 0x0A then ClassSpace
      else if c = 0x2E \<or> c = 0x2C \<or> c = 0x3B \<or> c = 0x22 \<or> c = 0x27 then ClassPunct
      else ClassOther)"

section \<open>Properties\<close>

text \<open>C2: \<^verbatim>\<open>generateCaseNgrams\<close> terminates and returns each combination of case variants of the
  three runes, once per combination: the variants of a rune are its orbit under
  \<^verbatim>\<open>unicode.SimpleFold\<close>, which returns to its start from every rune.\<close>

theorem generateCaseNgrams_complete:
  assumes "ngramToRunes g = (a0, a1, a2)" and "cyclic f a0" "cyclic f a1" "cyclic f a2"
  shows "\<exists>vs. generateCaseNgrams f g = Some vs
    \<and> set vs = runesToNGram ` (orbit f a0 \<times> orbit f a1 \<times> orbit f a2)
    \<and> length vs = card (orbit f a0) * card (orbit f a1) * card (orbit f a2)"
  by (rule generateCaseNgrams_run [OF assms])

definition foldA :: "rune \<Rightarrow> rune" where
  "foldA r = (if r = 97 then 65 else if r = 65 then 97 else r)"

lemma foldA_cyclic: "cyclic foldA r"
  unfolding cyclic_def by (rule exI [of _ "Suc (Suc 0)"]) (simp add: foldA_def)

lemma ngram_aab: "ngramToRunes (runesToNGram (97, 97, 98)) = (97, 97, 98)"
  by (rule ngramToRunes_runesToNGram) (simp_all add: rune21_def)

theorem generateCaseNgrams_complete_witness:
  "ngramToRunes (runesToNGram (97, 97, 98)) = (97, 97, 98) \<and>
   (\<exists>vs. generateCaseNgrams foldA (runesToNGram (97, 97, 98)) = Some vs
    \<and> set vs = runesToNGram ` (orbit foldA 97 \<times> orbit foldA 97 \<times> orbit foldA 98))"
  using generateCaseNgrams_complete [OF ngram_aab foldA_cyclic foldA_cyclic foldA_cyclic] ngram_aab
  by blast

text \<open>C4: \<^verbatim>\<open>splitNGrams\<close> returns one entry per window of three runes, in order: its trigram, the
  byte offset and byte length of the window, and the index of its last rune.\<close>

theorem splitNGrams_windows:
  "splitNGrams str = (let rs = runesOf str in
     map (\<lambda>k. \<lparr>ngramOf = runesToNGram (fst (rs ! k), fst (rs ! (k + 1)), fst (rs ! (k + 2))),
                byteSize = of_nat (sum_list (map snd (take 3 (drop k rs)))),
                byteOff = of_nat (sum_list (map snd (take k rs))), runeOff = of_nat (k + 2)\<rparr>)
       [0..<length rs - 2])"
  unfolding Let_def by (rule splitNGrams_eq) simp

text \<open>C5: \<^verbatim>\<open>caseFoldingEqualsRunes\<close> decides whether the runes of the needle are a prefix of the
  lowered runes of the text, and returns the number of text bytes the needle covers.\<close>

theorem caseFoldingEqualsRunes_prefix:
  "caseFoldingEqualsRunes lower lowered mixed =
     (if hasPrefix (map lower (runes mixed)) (runes lowered)
      then (sum_list (map snd (take (runeCount lowered) (runesOf mixed))), True)
      else (if hasPrefix (runes lowered) (map lower (runes mixed)) then length mixed else 0, False))"
  unfolding caseFoldingEqualsRunes_def cfeLoop_match by simp

text \<open>C6: offset lists and section lists survive the trip through the index file:
  \<^verbatim>\<open>fromSizedDeltas\<close> inverts \<^verbatim>\<open>toSizedDeltas\<close>, also when the offsets are not increasing,
  and \<^verbatim>\<open>unmarshalDocSections\<close> inverts \<^verbatim>\<open>marshalDocSections\<close>.\<close>

theorem deltas_roundtrip:
  "fromSizedDeltas (toSizedDeltas offsets) = Some offsets
   \<and> unmarshalDocSections (marshalDocSections secs) = Some secs"
  by (simp add: fromSizedDeltas_toSizedDeltas unmarshal_marshal)

text \<open>C7: packing three runes of at most 21 bits into a 64-bit trigram loses nothing, so distinct
  trigrams of text have distinct keys.\<close>

theorem ngram_roundtrip:
  assumes "rune21 a" "rune21 b" "rune21 c"
  shows "ngramToRunes (runesToNGram (a, b, c)) = (a, b, c)"
  by (rule ngramToRunes_runesToNGram [OF assms])

theorem ngram_roundtrip_witness:
  "rune21 0x10FFFF \<and> ngramToRunes (runesToNGram (0x10FFFF, 0, 0x10FFFF)) = (0x10FFFF, 0, 0x10FFFF)"
  using ngram_roundtrip [of "0x10FFFF" 0 "0x10FFFF"] by (simp add: rune21_def)

end
