(* ===== verification/Zoekt_Hititer.thy ===== *)
theory Zoekt_Hititer
  imports Zoekt_Bits "HOL-Library.Monad_Syntax"
begin

text \<open>
  The model of \<^verbatim>\<open>hititer.go\<close>: iterators over the corpus offsets at which a trigram occurs.

  The Go interface \<^verbatim>\<open>hitIterator\<close> is the locale \<open>hit_iterator\<close>: \<open>first\<close> and \<open>nxt\<close> are
  its two methods, state passed explicitly because \<^verbatim>\<open>first\<close> of a distance iterator moves it,
  with \<open>None\<close> for a call that does not return. \<open>hits\<close> is the set of offsets still to come.
  The laws are what the clients need, and are weaker than the comment of the interface:
  \<open>nxt l\<close> need not skip everything up to \<open>l\<close>.

  The concrete iterators are built the way \<^verbatim>\<open>trigramHitIterator\<close> and
  \<^verbatim>\<open>newDistanceTrigramIter\<close> build them: posting lists in memory or compressed, one of them or
  a merge of several for a trigram, a trigram or two trigrams at a distance for a query.
\<close>

section \<open>The interface\<close>

locale hit_iterator =
  fixes first :: "'s \<Rightarrow> (u32 \<times> 's) option"
    and nxt :: "u32 \<Rightarrow> 's \<Rightarrow> 's option"
    and hits :: "'s \<Rightarrow> u32 set"
    and inv :: "'s \<Rightarrow> bool"
  assumes max_not_hit: "inv s \<Longrightarrow> maxUInt32 \<notin> hits s"
    and first_law: "inv s \<Longrightarrow> \<exists>s'. first s = Some (if hits s = {} then maxUInt32 else Min (hits s), s')
      \<and> inv s' \<and> hits s' = hits s"
    and next_law: "inv s \<Longrightarrow> \<exists>s'. nxt l s = Some s' \<and> inv s' \<and> hits s' \<subseteq> hits s
      \<and> {p \<in> hits s. l < p} \<subseteq> hits s'"
    and next_max: "inv s \<Longrightarrow> nxt maxUInt32 s = Some s' \<Longrightarrow> hits s' = {}"
    and next_progress: "inv s \<Longrightarrow> first s = Some (v, s0) \<Longrightarrow> v \<le> l \<Longrightarrow> nxt l s0 = Some s'
      \<Longrightarrow> v \<notin> hits s'"

section \<open>Posting lists in memory\<close>

record inMemoryIterator =
  postings :: "u32 list"
  memWhat :: ngram

definition memFirst :: "inMemoryIterator \<Rightarrow> u32" where
  "memFirst i = (case postings i of p # _ \<Rightarrow> p | [] \<Rightarrow> maxUInt32)"

definition memNext :: "u32 \<Rightarrow> inMemoryIterator \<Rightarrow> inMemoryIterator" where
  "memNext limit i =
     (let ps = (if limit = maxUInt32 then [] else postings i)
      in i\<lparr>postings := dropWhile (\<lambda>p. p \<le> limit) ps\<rparr>)"

section \<open>Compressed posting lists\<close>

record compressedPostingIterator =
  blob :: bytes
  orig :: bytes
  cpFirst :: u32
  cpWhat :: ngram

text \<open>A negative width makes the slice expression panic.\<close>

definition newCompressedPostingIterator :: "bytes \<Rightarrow> ngram \<Rightarrow> compressedPostingIterator option" where
  "newCompressedPostingIterator b w =
     (let (d, sz) = uvarint b in
        if sz < 0 then None
        else Some \<lparr>blob = drop (nat sz) b, orig = b, cpFirst = ucast d, cpWhat = w\<rparr>)"

text \<open>The loop of \<^verbatim>\<open>next\<close>. On a truncated varint it spins (\<open>sz = 0\<close>), on an overlong one it
  panics (\<open>sz < 0\<close>): \<open>None\<close>.\<close>

function cpLoop :: "u32 \<Rightarrow> u32 \<Rightarrow> bytes \<Rightarrow> (u32 \<times> bytes) option" where
  "cpLoop limit f b =
     (if f \<le> limit \<and> b \<noteq> [] then
        (let (delta, sz) = uvarint b in
           if sz \<le> 0 then None else cpLoop limit (f + ucast delta) (drop (nat sz) b))
      else Some (f, b))"
  by pat_completeness auto
termination
  by (relation "measure (\<lambda>(limit, f, b). length b)") auto

declare cpLoop.simps [simp del]

definition cpNext :: "u32 \<Rightarrow> compressedPostingIterator \<Rightarrow> compressedPostingIterator option" where
  "cpNext limit i =
     (if limit = maxUInt32 then Some (i\<lparr>blob := [], cpFirst := maxUInt32\<rparr>)
      else if cpFirst i \<le> limit \<and> blob i = [] then Some (i\<lparr>cpFirst := maxUInt32\<rparr>)
      else map_option (\<lambda>(f, b). i\<lparr>cpFirst := f, blob := b\<rparr>) (cpLoop limit (cpFirst i) (blob i)))"

text \<open>The bytes \<^verbatim>\<open>updateStats\<close> counts as loaded.\<close>

definition cpBytesLoaded :: "compressedPostingIterator \<Rightarrow> int" where
  "cpBytesLoaded i = int (length (orig i)) - int (length (blob i))"

section \<open>One posting list\<close>

datatype postingIterator = InMemory inMemoryIterator | Compressed compressedPostingIterator

fun piFirst :: "postingIterator \<Rightarrow> (u32 \<times> postingIterator) option" where
  "piFirst (InMemory i) = Some (memFirst i, InMemory i)"
| "piFirst (Compressed i) = Some (cpFirst i, Compressed i)"

fun piNext :: "u32 \<Rightarrow> postingIterator \<Rightarrow> postingIterator option" where
  "piNext l (InMemory i) = Some (InMemory (memNext l i))"
| "piNext l (Compressed i) = map_option Compressed (cpNext l i)"

fun piHits :: "postingIterator \<Rightarrow> u32 set" where
  "piHits (InMemory i) = set (postings i)"
| "piHits (Compressed i) =
     (if cpFirst i = maxUInt32 then {}
      else case undeltasLoop (cpFirst i) (blob i) of Some ps \<Rightarrow> insert (cpFirst i) (set ps) | None \<Rightarrow> {})"

text \<open>A posting list holds increasing offsets, none of them the end mark.\<close>

definition ascending :: "u32 list \<Rightarrow> bool" where
  "ascending ps \<longleftrightarrow> sorted_wrt (<) ps \<and> maxUInt32 \<notin> set ps"

fun piInv :: "postingIterator \<Rightarrow> bool" where
  "piInv (InMemory i) \<longleftrightarrow> ascending (postings i)"
| "piInv (Compressed i) \<longleftrightarrow> (cpFirst i = maxUInt32 \<and> blob i = [])
     \<or> (\<exists>ps. blob i = deltasLoop (cpFirst i) ps \<and> ascending (cpFirst i # ps))"

lemma ascending_Nil [simp]: "ascending []"
  by (simp add: ascending_def)

lemma ascending_Cons:
  "ascending (p # ps) \<longleftrightarrow> (\<forall>q \<in> set ps. p < q) \<and> p \<noteq> maxUInt32 \<and> ascending ps"
  by (auto simp: ascending_def)

lemma ascending_sorted: "ascending ps \<Longrightarrow> sorted ps"
  by (simp add: ascending_def strict_sorted_iff)

lemma ascending_Min: "ascending (p # ps) \<Longrightarrow> Min (set (p # ps)) = p"
  by (intro Min_eqI) (auto simp: ascending_Cons less_imp_le)

lemma ascending_dropWhile: "ascending ps \<Longrightarrow> ascending (dropWhile P ps)"
  by (auto simp: ascending_def sorted_wrt_dropWhile dest: set_dropWhileD)

lemma deltasLoop_eq_Nil [simp]: "deltasLoop f ps = [] \<longleftrightarrow> ps = []"
  by (cases ps) auto

lemma cpLoop_Nil [simp]: "cpLoop l f [] = Some (f, [])"
  by (simp add: cpLoop.simps)

lemma cpLoop_deltas_step:
  "f \<le> l \<Longrightarrow> cpLoop l f (deltasLoop f (p # ps)) = cpLoop l p (deltasLoop p ps)"
  by (subst cpLoop.simps) (simp add: uvarint_put ucast_ucast_u32)

text \<open>What the loop does on a well-formed list: it drops a prefix of the offsets up to the
  limit, and the last offset stays even when it is below the limit.\<close>

fun skipTo :: "u32 \<Rightarrow> u32 list \<Rightarrow> u32 list" where
  "skipTo l (p # q # ps) = (if p \<le> l then skipTo l (q # ps) else p # q # ps)"
| "skipTo l ps = ps"

lemma cpLoop_skipTo:
  "\<exists>q qs. skipTo l (f # ps) = q # qs \<and> cpLoop l f (deltasLoop f ps) = Some (q, deltasLoop q qs)"
proof (induction ps arbitrary: f)
  case Nil
  then show ?case by (simp add: cpLoop.simps)
next
  case (Cons p ps)
  show ?case
  proof (cases "f \<le> l")
    case True
    then show ?thesis using Cons.IH [of p] by (simp only: cpLoop_deltas_step skipTo.simps if_True)
  next
    case False
    then show ?thesis by (simp add: cpLoop.simps)
  qed
qed

lemma skipTo_suffix: "\<exists>xs. ps = xs @ skipTo l ps \<and> (\<forall>x \<in> set xs. x \<le> l)"
proof (induction l ps rule: skipTo.induct)
  case (1 l p q ps)
  show ?case
  proof (cases "p \<le> l")
    case True
    then obtain xs where "q # ps = xs @ skipTo l (q # ps)" "\<forall>x \<in> set xs. x \<le> l"
      using "1.IH" by blast
    with True show ?thesis by (intro exI [of _ "p # xs"]) simp
  qed simp
qed simp_all

lemma skipTo_head:
  assumes "skipTo l (p # ps) = q # qs" and "ascending (p # ps)" and "p \<le> l" and "ps \<noteq> []"
  shows "p < q"
  using assms
proof (induction ps arbitrary: p)
  case Nil
  then show ?case by simp
next
  case (Cons r rs)
  then have pr: "p < r" and asc: "ascending (r # rs)" and sk: "skipTo l (r # rs) = q # qs"
    by (auto simp: ascending_Cons)
  show ?case
  proof (cases "r \<le> l \<and> rs \<noteq> []")
    case True
    then show ?thesis using Cons.IH [OF sk asc] pr by auto
  next
    case False
    then have "q = r" using sk by (cases rs) auto
    then show ?thesis using pr by simp
  qed
qed

lemma ascending_append: "ascending (xs @ ys) \<Longrightarrow> ascending ys"
  by (auto simp: ascending_def sorted_wrt_append)


lemma piInv_Compressed:
  assumes "piInv (Compressed i)"
  obtains "cpFirst i = maxUInt32" "blob i = []"
    | ps where "blob i = deltasLoop (cpFirst i) ps" "ascending (cpFirst i # ps)"
  using assms by auto

lemma piHits_deltas:
  assumes "blob i = deltasLoop (cpFirst i) ps" and "ascending (cpFirst i # ps)"
  shows "piHits (Compressed i) = set (cpFirst i # ps)"
  using assms by (simp add: undeltas_deltas ascending_Cons)

lemma cpNext_law:
  assumes "blob i = deltasLoop (cpFirst i) ps" and asc: "ascending (cpFirst i # ps)"
  shows "\<exists>i'. cpNext l i = Some i' \<and> piInv (Compressed i') \<and>
           piHits (Compressed i') \<subseteq> set (cpFirst i # ps) \<and>
           {p \<in> set (cpFirst i # ps). l < p} \<subseteq> piHits (Compressed i') \<and>
           (cpFirst i \<le> l \<longrightarrow> cpFirst i \<notin> piHits (Compressed i'))"
proof (cases "l = maxUInt32 \<or> (cpFirst i \<le> l \<and> ps = [])")
  case True
  then show ?thesis using assms by (auto simp: cpNext_def not_max32_less)
next
  case False
  obtain q qs where sk: "skipTo l (cpFirst i # ps) = q # qs"
    and run: "cpLoop l (cpFirst i) (deltasLoop (cpFirst i) ps) = Some (q, deltasLoop q qs)"
    using cpLoop_skipTo by blast
  obtain xs where xs: "cpFirst i # ps = xs @ q # qs" "\<forall>x \<in> set xs. x \<le> l"
    using skipTo_suffix [of "cpFirst i # ps" l] sk by auto
  then have qs: "ascending (q # qs)" using asc ascending_append by metis
  define j where "j = i\<lparr>cpFirst := q, blob := deltasLoop q qs\<rparr>"
  have j: "cpFirst j = q" "blob j = deltasLoop q qs" by (simp_all add: j_def)
  have hits: "piHits (Compressed j) = set (q # qs)"
    using piHits_deltas [of j qs] j qs by simp
  have "cpNext l i = Some j" using False run assms(1) by (auto simp: cpNext_def j_def)
  moreover have "piInv (Compressed j)" using qs j by auto
  moreover have "cpFirst i \<notin> set (q # qs)" if "cpFirst i \<le> l"
    using skipTo_head [OF sk asc that] False that qs by (auto simp: ascending_Cons)
  moreover have "{p \<in> set (cpFirst i # ps). l < p} \<subseteq> set (q # qs)" "set (q # qs) \<subseteq> set (cpFirst i # ps)"
    unfolding xs(1) using xs(2) by auto
  ultimately show ?thesis unfolding hits [symmetric] by blast
qed

lemma piFirst_law:
  assumes "piInv s"
  shows "piFirst s = Some (if piHits s = {} then maxUInt32 else Min (piHits s), s)"
proof (cases s)
  case (InMemory i)
  then show ?thesis using assms ascending_Min [of "hd (postings i)" "tl (postings i)"]
    by (cases "postings i") (simp_all add: memFirst_def)
next
  case (Compressed i)
  from assms [unfolded Compressed] consider "cpFirst i = maxUInt32" "blob i = []"
    | ps where "blob i = deltasLoop (cpFirst i) ps" "ascending (cpFirst i # ps)"
    by (rule piInv_Compressed)
  then show ?thesis
    by cases (use Compressed piHits_deltas ascending_Min in \<open>simp_all del: piHits.simps(2) Min_insert add: piHits_deltas\<close>, simp add: Compressed)
qed

lemma piNext_law:
  assumes "piInv s"
  shows "\<exists>s'. piNext l s = Some s' \<and> piInv s' \<and> piHits s' \<subseteq> piHits s \<and>
           {p \<in> piHits s. l < p} \<subseteq> piHits s' \<and>
           (\<forall>v s0. piFirst s = Some (v, s0) \<longrightarrow> v \<le> l \<longrightarrow> v \<notin> piHits s')"
proof (cases s)
  case (InMemory i)
  show ?thesis
  proof (cases "l = maxUInt32")
    case True
    then show ?thesis using InMemory by (auto simp: memNext_def not_max32_less)
  next
    case False
    have "set (dropWhile (\<lambda>p. p \<le> l) (postings i)) = {p \<in> set (postings i). l < p}"
      using assms InMemory dropWhile_sorted_set [of "postings i" l] ascending_sorted by auto
    moreover have "piNext l s = Some (InMemory (i\<lparr>postings := dropWhile (\<lambda>p. p \<le> l) (postings i)\<rparr>))"
      using InMemory False by (simp add: memNext_def)
    ultimately show ?thesis using assms InMemory
      by (simp add: ascending_dropWhile not_less)
  qed
next
  case (Compressed i)
  from assms [unfolded Compressed] consider "cpFirst i = maxUInt32" "blob i = []"
    | ps where "blob i = deltasLoop (cpFirst i) ps" "ascending (cpFirst i # ps)"
    by (rule piInv_Compressed)
  then show ?thesis
  proof cases
    case 1
    then show ?thesis using Compressed by (simp add: cpNext_def)
  next
    case 2
    obtain i' where "cpNext l i = Some i'" "piInv (Compressed i')"
      "piHits (Compressed i') \<subseteq> set (cpFirst i # ps)"
      "{p \<in> set (cpFirst i # ps). l < p} \<subseteq> piHits (Compressed i')"
      "cpFirst i \<le> l \<longrightarrow> cpFirst i \<notin> piHits (Compressed i')"
      using cpNext_law [OF 2, of l] by blast
    then show ?thesis unfolding Compressed piHits_deltas [OF 2]
      by (intro exI [of _ "Compressed i'"]) (simp del: piInv.simps piHits.simps)
  qed
qed

lemma piNext_max: "piNext maxUInt32 s = Some s' \<Longrightarrow> piHits s' = {}"
  by (cases s) (auto simp: memNext_def cpNext_def)

interpretation pi: hit_iterator piFirst piNext piHits piInv
proof unfold_locales
  fix s l v s0 s' assume "piInv s"
  then show "maxUInt32 \<notin> piHits s"
    by (cases s) (auto simp: ascending_def undeltas_deltas)
  show "\<exists>s'. piFirst s = Some (if piHits s = {} then maxUInt32 else Min (piHits s), s')
      \<and> piInv s' \<and> piHits s' = piHits s"
    using piFirst_law \<open>piInv s\<close> by blast
  show "\<exists>s'. piNext l s = Some s' \<and> piInv s' \<and> piHits s' \<subseteq> piHits s \<and> {p \<in> piHits s. l < p} \<subseteq> piHits s'"
    using piNext_law [OF \<open>piInv s\<close>] by blast
  show "piNext maxUInt32 s = Some s' \<Longrightarrow> piHits s' = {}"
    by (rule piNext_max)
  assume "piFirst s = Some (v, s0)" "v \<le> l" "piNext l s0 = Some s'"
  then show "v \<notin> piHits s'"
    using piNext_law [OF \<open>piInv s\<close>, of l] piFirst_law [OF \<open>piInv s\<close>] by auto
qed

section \<open>Merging\<close>

text \<open>\<^verbatim>\<open>mergingIterator\<close>, over the methods of its children.\<close>

fun mergeFirst :: "('s \<Rightarrow> (u32 \<times> 's) option) \<Rightarrow> u32 \<Rightarrow> 's list \<Rightarrow> (u32 \<times> 's list) option" where
  "mergeFirst first r [] = Some (r, [])"
| "mergeFirst first r (j # js) = do {
     (f, j') \<leftarrow> first j;
     (r', js') \<leftarrow> mergeFirst first (if f < r then f else r) js;
     Some (r', j' # js')
   }"

fun mergeNext :: "(u32 \<Rightarrow> 's \<Rightarrow> 's option) \<Rightarrow> u32 \<Rightarrow> 's list \<Rightarrow> 's list option" where
  "mergeNext nxt limit [] = Some []"
| "mergeNext nxt limit (j # js) = do {
     j' \<leftarrow> nxt limit j;
     js' \<leftarrow> mergeNext nxt limit js;
     Some (j' # js')
   }"

definition minHit :: "u32 set \<Rightarrow> u32" where
  "minHit H = (if H = {} then maxUInt32 else Min H)"

lemma minHit_le: "p \<in> H \<Longrightarrow> minHit H \<le> p"
  by (auto simp: minHit_def)

lemma minHit_empty [simp]: "minHit {} = maxUInt32"
  by (simp add: minHit_def)

lemma minHit_in: "maxUInt32 \<notin> H \<Longrightarrow> minHit H \<noteq> maxUInt32 \<Longrightarrow> minHit H \<in> H"
  by (auto simp: minHit_def intro: Min_in split: if_splits)

lemma minHit_Un: "minHit (A \<union> B) = min (minHit A) (minHit B)"
  by (auto simp: minHit_def Min_Un min_def)

context hit_iterator
begin

lemma first_minHit: "inv s \<Longrightarrow> \<exists>s'. first s = Some (minHit (hits s), s') \<and> inv s' \<and> hits s' = hits s"
  using first_law [of s] by (simp add: minHit_def)

lemma minHit_eq_max: "inv s \<Longrightarrow> minHit (hits s) = maxUInt32 \<longleftrightarrow> hits s = {}"
  using max_not_hit [of s] minHit_in [of "hits s"] by (metis Min_in finite minHit_def)

lemma next_after_first:
  assumes "inv s" "first s = Some (v, s0)"
  shows "\<exists>s'. nxt l s0 = Some s' \<and> inv s' \<and> hits s' \<subseteq> hits s \<and> {p \<in> hits s. l < p} \<subseteq> hits s' \<and>
    (v \<le> l \<longrightarrow> v \<notin> hits s')"
proof -
  from first_minHit [OF assms(1)] assms(2) have "inv s0" "hits s0 = hits s" by auto
  then show ?thesis using next_law [of s0 l] next_progress [OF assms] by auto
qed

lemma mergeFirst_law:
  "list_all inv js \<Longrightarrow> \<exists>js'. mergeFirst first r js = Some (min r (minHit (\<Union>j \<in> set js. hits j)), js') \<and>
     list_all inv js' \<and> map hits js' = map hits js"
proof (induction js arbitrary: r)
  case Nil
  then show ?case by (simp add: min_absorb1)
next
  case (Cons j js)
  then obtain j' where j': "first j = Some (minHit (hits j), j')" "inv j'" "hits j' = hits j"
    using first_minHit [of j] by auto
  let ?r = "if minHit (hits j) < r then minHit (hits j) else r"
  obtain js' where "mergeFirst first ?r js = Some (min ?r (minHit (\<Union>j \<in> set js. hits j)), js')"
    "list_all inv js'" "map hits js' = map hits js"
    using Cons by fastforce
  moreover have "?r = min r (minHit (hits j))" by auto
  ultimately show ?case using j' by (simp add: minHit_Un min.assoc)
qed

lemma mergeNext_law:
  "list_all inv js \<Longrightarrow> \<exists>js'. mergeNext nxt l js = Some js' \<and> list_all inv js' \<and>
     (\<Union>j \<in> set js'. hits j) \<subseteq> (\<Union>j \<in> set js. hits j) \<and>
     {p \<in> (\<Union>j \<in> set js. hits j). l < p} \<subseteq> (\<Union>j \<in> set js'. hits j)"
proof (induction js)
  case Nil
  then show ?case by simp
next
  case (Cons j js)
  then obtain js' where "mergeNext nxt l js = Some js'" "list_all inv js'"
     "(\<Union>j \<in> set js'. hits j) \<subseteq> (\<Union>j \<in> set js. hits j)"
     "{p \<in> (\<Union>j \<in> set js. hits j). l < p} \<subseteq> (\<Union>j \<in> set js'. hits j)" by auto
  moreover obtain j' where "nxt l j = Some j'" "inv j'" "hits j' \<subseteq> hits j" "{p \<in> hits j. l < p} \<subseteq> hits j'"
    using Cons.prems next_law [of j l] by auto
  ultimately show ?case by (intro exI [of _ "j' # js'"]) auto
qed

lemma mergeNext_max:
  "list_all inv js \<Longrightarrow> mergeNext nxt maxUInt32 js = Some js' \<Longrightarrow> (\<Union>j \<in> set js'. hits j) = {}"
  by (induction js arbitrary: js') (auto simp: bind_eq_Some_conv next_max)

lemma mergeNext_progress:
  assumes "list_all inv js" "mergeFirst first r js = Some (v, js0)" "mergeNext nxt l js0 = Some js'"
    and "w \<le> v" "w \<le> l" "w \<noteq> maxUInt32"
  shows "w \<notin> (\<Union>j \<in> set js'. hits j)"
  using assms
proof (induction js arbitrary: r js0 js')
  case Nil
  then show ?case by simp
next
  case (Cons j js)
  then obtain u j0 ks where u: "first j = Some (u, j0)"
    and ks: "mergeFirst first (if u < r then u else r) js = Some (v, ks)" "js0 = j0 # ks"
    by (auto simp: bind_eq_Some_conv)
  obtain j' ks' where step: "nxt l j0 = Some j'" "mergeNext nxt l ks = Some ks'" "js' = j' # ks'"
    using Cons.prems ks(2) by (auto simp: bind_eq_Some_conv)
  have inv: "inv j" "list_all inv js" using Cons.prems by auto
  have min: "u = minHit (hits j)" using first_minHit [OF inv(1)] u by auto
  have "v \<le> u"
    using mergeFirst_law [OF inv(2), of "if u < r then u else r"] ks(1)
    by (auto simp: min_le_iff_disj not_less split: if_splits)
  then have "w \<notin> hits j'"
    using next_after_first [OF inv(1) u, of l] step(1) min minHit_le [of w "hits j"] Cons.prems(4,5)
    by (metis option.inject order.trans order_antisym subset_iff)
  then show ?case using Cons.IH [OF inv(2) ks(1) step(2)] Cons.prems step(3) by auto
qed

end

section \<open>The iterator of a trigram\<close>

text \<open>What \<^verbatim>\<open>trigramHitIterator\<close> returns: one posting list, or the merge of those of the
  case variants.\<close>

datatype trigramIterator = Single postingIterator | Merging "postingIterator list"

fun tiFirst :: "trigramIterator \<Rightarrow> (u32 \<times> trigramIterator) option" where
  "tiFirst (Single i) = map_option (\<lambda>(f, i'). (f, Single i')) (piFirst i)"
| "tiFirst (Merging iters) = map_option (\<lambda>(f, iters'). (f, Merging iters')) (mergeFirst piFirst maxUInt32 iters)"

fun tiNext :: "u32 \<Rightarrow> trigramIterator \<Rightarrow> trigramIterator option" where
  "tiNext l (Single i) = map_option Single (piNext l i)"
| "tiNext l (Merging iters) = map_option Merging (mergeNext piNext l iters)"

fun tiHits :: "trigramIterator \<Rightarrow> u32 set" where
  "tiHits (Single i) = piHits i"
| "tiHits (Merging iters) = (\<Union>i \<in> set iters. piHits i)"

fun tiInv :: "trigramIterator \<Rightarrow> bool" where
  "tiInv (Single i) \<longleftrightarrow> piInv i"
| "tiInv (Merging iters) \<longleftrightarrow> list_all piInv iters"

lemma UN_map_cong: "map f xs = map g ys \<Longrightarrow> (\<Union>x \<in> set xs. f x) = (\<Union>y \<in> set ys. g y)"
  by (metis image_set)

interpretation ti: hit_iterator tiFirst tiNext tiHits tiInv
proof unfold_locales
  fix s l v s0 s' assume inv: "tiInv s"
  show "maxUInt32 \<notin> tiHits s"
    using inv pi.max_not_hit by (cases s) (auto simp: list_all_iff)
  then show "tiFirst s = Some (v, s0) \<Longrightarrow> v \<le> l \<Longrightarrow> tiNext l s0 = Some s' \<Longrightarrow> v \<notin> tiHits s'"
  proof (cases s)
    case (Merging iters)
    assume *: "tiFirst s = Some (v, s0)" "v \<le> l" "tiNext l s0 = Some s'"
    show ?thesis
    proof (cases "v = maxUInt32")
      case True
      then have "l = maxUInt32" using * by simp
      moreover obtain is0 where "s0 = Merging is0" "list_all piInv is0"
        using * inv Merging pi.mergeFirst_law [of iters maxUInt32] by auto
      ultimately show ?thesis using * pi.mergeNext_max [of is0] by auto
    next
      case False
      then show ?thesis
        using * inv Merging pi.mergeNext_progress [of iters maxUInt32 v _ l _ v] by auto
    qed
  qed (use inv pi.next_progress in auto)
  show "\<exists>s'. tiFirst s = Some (if tiHits s = {} then maxUInt32 else Min (tiHits s), s') \<and>
      tiInv s' \<and> tiHits s' = tiHits s"
    unfolding minHit_def [symmetric]
  proof (cases s)
    case (Single i)
    then show "\<exists>s'. tiFirst s = Some (minHit (tiHits s), s') \<and> tiInv s' \<and> tiHits s' = tiHits s"
      using inv pi.first_minHit [of i] by auto
  next
    case (Merging iters)
    obtain is' where "mergeFirst piFirst maxUInt32 iters = Some (min maxUInt32 (minHit (tiHits s)), is')"
      "list_all piInv is'" "map piHits is' = map piHits iters"
      using inv Merging pi.mergeFirst_law [of iters maxUInt32] by auto
    then show "\<exists>s'. tiFirst s = Some (minHit (tiHits s), s') \<and> tiInv s' \<and> tiHits s' = tiHits s"
      using Merging UN_map_cong [of piHits is' piHits iters] by (simp add: min_absorb2)
  qed
  show "\<exists>s'. tiNext l s = Some s' \<and> tiInv s' \<and> tiHits s' \<subseteq> tiHits s \<and> {p \<in> tiHits s. l < p} \<subseteq> tiHits s'"
  proof (cases s)
    case (Single i)
    then show ?thesis using inv pi.next_law [of i l] by auto
  next
    case (Merging iters)
    then show ?thesis using inv pi.mergeNext_law [of iters l] by auto
  qed
  show "tiNext maxUInt32 s = Some s' \<Longrightarrow> tiHits s' = {}"
    using inv pi.mergeNext_max pi.next_max by (cases s) auto
qed

section \<open>Hits at a distance\<close>

record 's distanceHitIterator =
  started :: bool
  distance :: u32
  i1 :: 's
  i2 :: 's

partial_function (option) findNext ::
  "('s \<Rightarrow> (u32 \<times> 's) option) \<Rightarrow> (u32 \<Rightarrow> 's \<Rightarrow> 's option)
     \<Rightarrow> 's distanceHitIterator \<Rightarrow> 's distanceHitIterator option" where
  "findNext first nxt i = do {
     (p1, a) \<leftarrow> first (i1 i);
     (p2, b) \<leftarrow> first (i2 i);
     if p1 = maxUInt32 \<or> p2 = maxUInt32 then do {
       a' \<leftarrow> nxt maxUInt32 a;
       Some (i\<lparr>i1 := a', i2 := b\<rparr>)
     } else if p1 + distance i < p2 then do {
       a' \<leftarrow> nxt (p2 - distance i - 1) a;
       findNext first nxt (i\<lparr>i1 := a', i2 := b\<rparr>)
     } else if p2 < p1 + distance i then do {
       b' \<leftarrow> nxt (p1 + distance i - 1) b;
       findNext first nxt (i\<lparr>i1 := a, i2 := b'\<rparr>)
     } else Some (i\<lparr>i1 := a, i2 := b\<rparr>)
   }"

definition distFirst ::
  "('s \<Rightarrow> (u32 \<times> 's) option) \<Rightarrow> (u32 \<Rightarrow> 's \<Rightarrow> 's option)
     \<Rightarrow> 's distanceHitIterator \<Rightarrow> (u32 \<times> 's distanceHitIterator) option" where
  "distFirst first nxt i = do {
     i' \<leftarrow> (if started i then Some i
            else map_option (\<lambda>j. j\<lparr>started := True\<rparr>) (findNext first nxt i));
     (f, a) \<leftarrow> first (i1 i');
     Some (f, i'\<lparr>i1 := a\<rparr>)
   }"

definition distNext ::
  "('s \<Rightarrow> (u32 \<times> 's) option) \<Rightarrow> (u32 \<Rightarrow> 's \<Rightarrow> 's option)
     \<Rightarrow> u32 \<Rightarrow> 's distanceHitIterator \<Rightarrow> 's distanceHitIterator option" where
  "distNext first nxt limit i = do {
     a \<leftarrow> nxt limit (i1 i);
     let l2 = limit + distance i;
     b \<leftarrow> nxt (if l2 < limit then maxUInt32 else l2) (i2 i);
     findNext first nxt (i\<lparr>i1 := a, i2 := b\<rparr>)
   }"

text \<open>The hits are those of the first iterator that the second one has at the distance. Corpus
  offsets plus the distance must stay below \<open>2\<^sup>3\<^sup>2\<close>: \<open>findNext\<close> adds without a check.\<close>

definition distHits :: "('s \<Rightarrow> u32 set) \<Rightarrow> 's distanceHitIterator \<Rightarrow> u32 set" where
  "distHits hits i = {p \<in> hits (i1 i). p + distance i \<in> hits (i2 i)}"

definition distWf :: "('s \<Rightarrow> u32 set) \<Rightarrow> ('s \<Rightarrow> bool) \<Rightarrow> 's distanceHitIterator \<Rightarrow> bool" where
  "distWf hits good i \<longleftrightarrow> good (i1 i) \<and> good (i2 i) \<and>
     (\<forall>p \<in> hits (i1 i). unat p + unat (distance i) < 4294967296)"

definition aligned :: "('s \<Rightarrow> u32 set) \<Rightarrow> 's distanceHitIterator \<Rightarrow> bool" where
  "aligned hits i \<longleftrightarrow> hits (i1 i) = {} \<or> minHit (hits (i1 i)) \<in> distHits hits i"

definition distInv :: "('s \<Rightarrow> u32 set) \<Rightarrow> ('s \<Rightarrow> bool) \<Rightarrow> 's distanceHitIterator \<Rightarrow> bool" where
  "distInv hits good i \<longleftrightarrow> distWf hits good i \<and> (started i \<longrightarrow> aligned hits i)"

lemma started_irrelevant [simp]:
  "distWf hits good (i\<lparr>started := b\<rparr>) = distWf hits good i"
  "distHits hits (i\<lparr>started := b\<rparr>) = distHits hits i"
  "aligned hits (i\<lparr>started := b\<rparr>) = aligned hits i"
  by (simp_all add: distWf_def distHits_def aligned_def)

text \<open>The two skips of \<open>findNext\<close> lose no pair at the distance.\<close>

lemma skip_first_limit:
  fixes p1 p2 d :: u32
  assumes "p1 + d < p2" "unat p1 + unat d < 4294967296"
  shows "unat (p2 - d - 1) = unat p2 - unat d - 1"
proof -
  have lt: "unat p1 + unat d < unat p2" using assms by (simp add: word_less_nat_alt unat_add_u32)
  then have "unat (p2 - d) = unat p2 - unat d"
    by (intro unat_sub_u32) (simp add: word_le_nat_alt)
  moreover have "unat (p2 - d - 1) = unat (p2 - d) - unat (1::u32)"
    using lt calculation by (intro unat_sub_u32) (simp add: word_le_nat_alt)
  ultimately show ?thesis by simp
qed

lemma skip_first_sound:
  fixes p p1 p2 d :: u32
  assumes "p1 + d < p2" "unat p1 + unat d < 4294967296" "unat p + unat d < 4294967296" "p \<le> p2 - d - 1"
  shows "p + d < p2"
  using assms(1,2,4) skip_first_limit [OF assms(1,2)]
  by (simp add: word_less_nat_alt word_le_nat_alt unat_add_u32 assms(3))

lemma skip_first_covers:
  fixes p1 p2 d :: u32
  assumes "p1 + d < p2" "unat p1 + unat d < 4294967296"
  shows "p1 \<le> p2 - d - 1"
  using assms skip_first_limit [OF assms]
  by (simp add: word_less_nat_alt word_le_nat_alt unat_add_u32)

lemma pred_u32: "(a::u32) < b \<Longrightarrow> p \<le> b - 1 \<longleftrightarrow> p < b"
proof -
  assume "a < b"
  then have "unat (b - 1) = unat b - unat (1::u32)"
    by (intro unat_sub_u32) (simp add: word_less_nat_alt word_le_nat_alt)
  then show ?thesis using \<open>a < b\<close> by (auto simp: word_less_nat_alt word_le_nat_alt)
qed

context hit_iterator
begin

text \<open>One skip of \<open>findNext\<close>: the iterator that lags loses an offset, and no hit is lost.\<close>

lemma skip1:
  assumes wf: "distWf hits inv i" and p1: "first (i1 i) = Some (p1, a)" "p1 \<in> hits (i1 i)"
    and b: "inv b" "hits b = hits (i2 i)" and lt: "p1 + distance i < minHit (hits (i2 i))"
  obtains a' where "nxt (minHit (hits (i2 i)) - distance i - 1) a = Some a'"
    "distWf hits inv (i\<lparr>i1 := a', i2 := b\<rparr>)" "hits a' \<subset> hits (i1 i)"
    "distHits hits (i\<lparr>i1 := a', i2 := b\<rparr>) = distHits hits i"
proof -
  let ?p2 = "minHit (hits (i2 i))"
  let ?l = "?p2 - distance i - 1"
  have nowrap: "\<And>p. p \<in> hits (i1 i) \<Longrightarrow> unat p + unat (distance i) < 4294967296" and "inv (i1 i)"
    using wf by (auto simp: distWf_def)
  have "p1 \<le> ?l" using skip_first_covers [OF lt nowrap [OF p1(2)]] .
  then obtain a' where a': "nxt ?l a = Some a'" "inv a'" "hits a' \<subseteq> hits (i1 i)"
    "{p \<in> hits (i1 i). ?l < p} \<subseteq> hits a'" "p1 \<notin> hits a'"
    using next_after_first [OF \<open>inv (i1 i)\<close> p1(1), of ?l] by blast
  have "p \<in> hits a'" if "p \<in> hits (i1 i)" "p + distance i \<in> hits (i2 i)" for p
  proof (rule ccontr)
    assume "p \<notin> hits a'"
    then have "p \<le> ?l" using that a' by (auto simp: not_less)
    then have "p + distance i < ?p2" using skip_first_sound [OF lt nowrap [OF p1(2)] nowrap] that by blast
    then show False using minHit_le [OF that(2)] by simp
  qed
  then show ?thesis using a' b p1(2) nowrap
    by (intro that [of a']) (auto simp: distWf_def distHits_def)
qed

lemma skip2:
  assumes wf: "distWf hits inv i" and p2: "first (i2 i) = Some (p2, b)" "p2 \<in> hits (i2 i)"
    and a: "inv a" "hits a = hits (i1 i)" and lt: "p2 < minHit (hits (i1 i)) + distance i"
    and ne: "hits (i1 i) \<noteq> {}"
  obtains b' where "nxt (minHit (hits (i1 i)) + distance i - 1) b = Some b'"
    "distWf hits inv (i\<lparr>i1 := a, i2 := b'\<rparr>)" "hits b' \<subset> hits (i2 i)"
    "distHits hits (i\<lparr>i1 := a, i2 := b'\<rparr>) = distHits hits i"
proof -
  let ?p1 = "minHit (hits (i1 i))"
  let ?l = "?p1 + distance i - 1"
  have nowrap: "\<And>p. p \<in> hits (i1 i) \<Longrightarrow> unat p + unat (distance i) < 4294967296" and "inv (i2 i)"
    using wf by (auto simp: distWf_def)
  have "p2 \<le> ?l" using pred_u32 [OF lt] lt by simp
  then obtain b' where b': "nxt ?l b = Some b'" "inv b'" "hits b' \<subseteq> hits (i2 i)"
    "{p \<in> hits (i2 i). ?l < p} \<subseteq> hits b'" "p2 \<notin> hits b'"
    using next_after_first [OF \<open>inv (i2 i)\<close> p2(1), of ?l] by blast
  have in1: "?p1 \<in> hits (i1 i)" using ne by (simp add: minHit_def)
  have "p + distance i \<in> hits b'" if "p \<in> hits (i1 i)" "p + distance i \<in> hits (i2 i)" for p
  proof (rule ccontr)
    assume "p + distance i \<notin> hits b'"
    then have "p + distance i \<le> ?l" using that b'(4) by (auto simp: not_less)
    then have "p + distance i < ?p1 + distance i" using pred_u32 [OF lt] by simp
    then show False using minHit_le [OF that(1)] nowrap [OF that(1)] nowrap [OF in1]
      by (simp add: word_less_nat_alt word_le_nat_alt unat_add_u32)
  qed
  then show ?thesis using b' a p2(2) nowrap
    by (intro that [of b']) (auto simp: distWf_def distHits_def)
qed

lemma findNext_law:
  assumes "distWf hits inv i"
  shows "\<exists>i'. findNext first nxt i = Some i' \<and> distWf hits inv i' \<and> distHits hits i' = distHits hits i \<and>
    aligned hits i' \<and> distance i' = distance i \<and> started i' = started i \<and> hits (i1 i') \<subseteq> hits (i1 i)"
  using assms
proof (induction "card (hits (i1 i)) + card (hits (i2 i))" arbitrary: i rule: less_induct)
  case less
  let ?p1 = "minHit (hits (i1 i))" and ?p2 = "minHit (hits (i2 i))"
  have inv: "inv (i1 i)" "inv (i2 i)" using less.prems by (auto simp: distWf_def)
  obtain a where a: "first (i1 i) = Some (?p1, a)" "inv a" "hits a = hits (i1 i)"
    using first_minHit [OF inv(1)] by blast
  obtain b where b: "first (i2 i) = Some (?p2, b)" "inv b" "hits b = hits (i2 i)"
    using first_minHit [OF inv(2)] by blast
  note step = findNext.simps [of first nxt i]
  consider (ended) "?p1 = maxUInt32 \<or> ?p2 = maxUInt32"
    | (one) "?p1 \<noteq> maxUInt32" "?p2 \<noteq> maxUInt32" "?p1 + distance i < ?p2"
    | (two) "?p1 \<noteq> maxUInt32" "?p2 \<noteq> maxUInt32" "?p2 < ?p1 + distance i"
    | (hit) "?p1 \<noteq> maxUInt32" "?p2 \<noteq> maxUInt32" "?p1 + distance i = ?p2"
    by (meson linorder_less_linear)
  then show ?case
  proof cases
    case ended
    obtain a' where a': "nxt maxUInt32 a = Some a'" "inv a'" "hits a' = {}"
      using next_law [OF a(2), of maxUInt32] next_max [OF a(2)] by blast
    have "distHits hits i = {}" using ended inv by (auto simp: distHits_def minHit_eq_max)
    then show ?thesis using ended a b a' less.prems
      by (simp add: step distWf_def distHits_def aligned_def)
  next
    case one
    then have "?p1 \<in> hits (i1 i)" using minHit_in max_not_hit inv by blast
    from skip1 [OF less.prems a(1) this b(2,3) one(3)] obtain a' where
      a': "nxt (?p2 - distance i - 1) a = Some a'" "distWf hits inv (i\<lparr>i1 := a', i2 := b\<rparr>)"
      "hits a' \<subset> hits (i1 i)" "distHits hits (i\<lparr>i1 := a', i2 := b\<rparr>) = distHits hits i" .
    have "card (hits a') < card (hits (i1 i))" using a'(3) by (intro psubset_card_mono) auto
    then show ?thesis using less.hyps [OF _ a'(2)] a' a b one by (auto simp: step)
  next
    case two
    then have p2: "?p2 \<in> hits (i2 i)" using minHit_in max_not_hit inv by blast
    have "hits (i1 i) \<noteq> {}" using two by auto
    from skip2 [OF less.prems b(1) p2 a(2,3) two(3) this] obtain b' where
      b': "nxt (?p1 + distance i - 1) b = Some b'" "distWf hits inv (i\<lparr>i1 := a, i2 := b'\<rparr>)"
      "hits b' \<subset> hits (i2 i)" "distHits hits (i\<lparr>i1 := a, i2 := b'\<rparr>) = distHits hits i" .
    have "card (hits b') < card (hits (i2 i))" using b'(3) by (intro psubset_card_mono) auto
    then show ?thesis using less.hyps [OF _ b'(2)] b' a b two by (auto simp: step)
  next
    case hit
    then have "?p1 \<in> hits (i1 i)" "?p2 \<in> hits (i2 i)" using minHit_in max_not_hit inv by blast+
    then show ?thesis using hit a b less.prems
      by (simp add: step distWf_def distHits_def aligned_def)
  qed
qed

lemma aligned_first: "aligned hits i \<Longrightarrow> minHit (hits (i1 i)) = minHit (distHits hits i)"
proof -
  assume al: "aligned hits i"
  have sub: "distHits hits i \<subseteq> hits (i1 i)" by (auto simp: distHits_def)
  show ?thesis
  proof (cases "hits (i1 i) = {}")
    case True
    then show ?thesis using sub by simp
  next
    case False
    then have in_hits: "Min (hits (i1 i)) \<in> distHits hits i" using al by (simp add: aligned_def minHit_def)
    then have "Min (distHits hits i) = Min (hits (i1 i))"
      using sub by (intro Min_eqI) auto
    then show ?thesis using in_hits False by (auto simp: minHit_def)
  qed
qed

lemma distFirst_law:
  assumes "distInv hits inv i"
  shows "\<exists>i' a. distFirst first nxt i = Some (minHit (distHits hits i), i'\<lparr>i1 := a\<rparr>) \<and>
    distInv hits inv (i'\<lparr>i1 := a\<rparr>) \<and> distHits hits (i'\<lparr>i1 := a\<rparr>) = distHits hits i \<and>
    inv (i1 i') \<and> first (i1 i') = Some (minHit (distHits hits i), a)"
proof -
  obtain i' where i': "(if started i then Some i
            else map_option (\<lambda>j. j\<lparr>started := True\<rparr>) (findNext first nxt i)) = Some i'"
    "distWf hits inv i'" "distHits hits i' = distHits hits i" "aligned hits i'"
    using assms findNext_law [of i] by (cases "started i") (auto simp: distInv_def)
  then obtain a where "first (i1 i') = Some (minHit (hits (i1 i')), a)" "inv a" "hits a = hits (i1 i')"
    using first_minHit [of "i1 i'"] by (auto simp: distWf_def)
  moreover have "minHit (hits (i1 i')) = minHit (distHits hits i)"
    using aligned_first [OF i'(4)] i'(3) by simp
  ultimately show ?thesis using i'
    by (intro exI [of _ i'] exI [of _ a])
       (auto simp: distFirst_def distInv_def distWf_def distHits_def aligned_def)
qed

lemma distNext_law:
  assumes "distWf hits inv i"
  shows "\<exists>i'. distNext first nxt l i = Some i' \<and> distInv hits inv i' \<and>
    distHits hits i' \<subseteq> distHits hits i \<and> {p \<in> distHits hits i. l < p} \<subseteq> distHits hits i' \<and>
    (\<forall>a'. nxt l (i1 i) = Some a' \<longrightarrow> distHits hits i' \<subseteq> hits a')"
proof -
  have nowrap: "\<And>p. p \<in> hits (i1 i) \<Longrightarrow> unat p + unat (distance i) < 4294967296"
    using assms by (auto simp: distWf_def)
  let ?l2 = "if l + distance i < l then maxUInt32 else l + distance i"
  obtain a where a: "nxt l (i1 i) = Some a" "inv a" "hits a \<subseteq> hits (i1 i)" "{p \<in> hits (i1 i). l < p} \<subseteq> hits a"
    using next_law [of "i1 i" l] assms by (auto simp: distWf_def)
  obtain b where b: "nxt ?l2 (i2 i) = Some b" "inv b" "hits b \<subseteq> hits (i2 i)"
    "{p \<in> hits (i2 i). ?l2 < p} \<subseteq> hits b"
    using next_law [of "i2 i" ?l2] assms by (auto simp: distWf_def)
  have far: "?l2 < p + distance i" if "p \<in> hits (i1 i)" "l < p" for p
    using that(2) nowrap [OF that(1)] by (auto simp: word_less_nat_alt unat_add_u32)
  let ?i = "i\<lparr>i1 := a, i2 := b\<rparr>"
  have "distWf hits inv ?i" using a b nowrap by (auto simp: distWf_def)
  from findNext_law [OF this] obtain i' where i': "findNext first nxt ?i = Some i'" "distWf hits inv i'"
    "distHits hits i' = distHits hits ?i" "aligned hits i'" by auto
  have "distNext first nxt l i = Some i'" using a b i' by (simp add: distNext_def Let_def)
  moreover have "{p \<in> distHits hits i. l < p} \<subseteq> distHits hits ?i"
    using a(4) b(4) far by (auto simp: distHits_def)
  ultimately show ?thesis using i' a b
    by (intro exI [of _ i']) (auto simp: distInv_def distHits_def)
qed

end

section \<open>The iterator of a query\<close>

datatype hitIterator = Trigram trigramIterator | Distance "trigramIterator distanceHitIterator"

fun hiFirst :: "hitIterator \<Rightarrow> (u32 \<times> hitIterator) option" where
  "hiFirst (Trigram i) = map_option (\<lambda>(f, i'). (f, Trigram i')) (tiFirst i)"
| "hiFirst (Distance i) = map_option (\<lambda>(f, i'). (f, Distance i')) (distFirst tiFirst tiNext i)"

fun hiNext :: "u32 \<Rightarrow> hitIterator \<Rightarrow> hitIterator option" where
  "hiNext l (Trigram i) = map_option Trigram (tiNext l i)"
| "hiNext l (Distance i) = map_option Distance (distNext tiFirst tiNext l i)"

fun hiHits :: "hitIterator \<Rightarrow> u32 set" where
  "hiHits (Trigram i) = tiHits i"
| "hiHits (Distance i) = distHits tiHits i"

fun hiInv :: "hitIterator \<Rightarrow> bool" where
  "hiInv (Trigram i) \<longleftrightarrow> tiInv i"
| "hiInv (Distance i) \<longleftrightarrow> distInv tiHits tiInv i"

interpretation hi: hit_iterator hiFirst hiNext hiHits hiInv
proof unfold_locales
  fix s l v s0 s' assume inv: "hiInv s"
  show "maxUInt32 \<notin> hiHits s"
    using inv ti.max_not_hit by (cases s) (auto simp: distInv_def distWf_def distHits_def)
  show "\<exists>s'. hiFirst s = Some (if hiHits s = {} then maxUInt32 else Min (hiHits s), s') \<and>
      hiInv s' \<and> hiHits s' = hiHits s"
    unfolding minHit_def [symmetric]
    using inv ti.first_minHit ti.distFirst_law by (cases s) fastforce+
  show "\<exists>s'. hiNext l s = Some s' \<and> hiInv s' \<and> hiHits s' \<subseteq> hiHits s \<and> {p \<in> hiHits s. l < p} \<subseteq> hiHits s'"
    using inv ti.next_law [of _ l] ti.distNext_law [of _ l] by (cases s) (fastforce simp: distInv_def)+
  show "hiNext maxUInt32 s = Some s' \<Longrightarrow> hiHits s' = {}"
  proof (cases s)
    case (Distance i)
    assume nx: "hiNext maxUInt32 s = Some s'"
    have wf: "distWf tiHits tiInv i" using inv Distance by (simp add: distInv_def)
    then obtain a where "tiNext maxUInt32 (i1 i) = Some a" "tiHits a = {}"
      using ti.next_law [of "i1 i" maxUInt32] ti.next_max [of "i1 i"] by (auto simp: distWf_def)
    then show ?thesis using nx Distance ti.distNext_law [OF wf, of maxUInt32] by fastforce
  qed (use inv ti.next_max in auto)
  show "v \<notin> hiHits s'" if f: "hiFirst s = Some (v, s0)" and l: "v \<le> l" and n: "hiNext l s0 = Some s'"
  proof (cases s)
    case (Distance i)
    obtain i' a where *: "distFirst tiFirst tiNext i = Some (minHit (distHits tiHits i), i'\<lparr>i1 := a\<rparr>)"
      "distInv tiHits tiInv (i'\<lparr>i1 := a\<rparr>)" "tiInv (i1 i')"
      "tiFirst (i1 i') = Some (minHit (distHits tiHits i), a)"
      using inv Distance ti.distFirst_law [of i] by auto
    then have v: "v = minHit (distHits tiHits i)" and s0: "s0 = Distance (i'\<lparr>i1 := a\<rparr>)"
      using f Distance by auto
    note i' = s0 *(2,3) *(4) [folded v]
    then obtain a' where "tiNext l a = Some a'" "v \<notin> tiHits a'"
      using ti.next_after_first [OF i'(3,4), of l] l by blast
    then show ?thesis using i' n ti.distNext_law [of "i'\<lparr>i1 := a\<rparr>" l] by (fastforce simp: distInv_def)
  qed (use inv ti.next_progress f l n in auto)
qed

lemma newCompressed_hits:
  assumes "ascending (p # ps)"
  shows "\<exists>i. newCompressedPostingIterator (deltasLoop 0 (p # ps)) w = Some i \<and>
    piInv (Compressed i) \<and> piHits (Compressed i) = set (p # ps)"
proof -
  let ?i = "\<lparr>blob = deltasLoop p ps, orig = deltasLoop 0 (p # ps), cpFirst = p, cpWhat = w\<rparr>"
  have "newCompressedPostingIterator (deltasLoop 0 (p # ps)) w = Some ?i"
    by (simp add: newCompressedPostingIterator_def uvarint_put ucast_ucast_u32)
  moreover have "piInv (Compressed ?i)" using assms by auto
  moreover have "piHits (Compressed ?i) = set (p # ps)" using piHits_deltas [of ?i ps] assms by simp
  ultimately show ?thesis by blast
qed

section \<open>Properties\<close>

text \<open>C1: every hit iterator the index builds, a posting list, a merge of case variants or a pair
  of trigrams at a distance, returns from its methods; \<^verbatim>\<open>first\<close> is its least hit, or
  \<^verbatim>\<open>maxUInt32\<close> when there is none; \<^verbatim>\<open>next(limit)\<close> keeps each hit beyond the limit, adds
  none, and drops the first hit when that is within the limit. For a distance iterator the hits are
  the offsets of the first trigram that the second one has at exactly the distance.\<close>

theorem hitIterator_contract:
  assumes "hiInv s"
  shows "\<exists>s0. hiFirst s = Some (if hiHits s = {} then maxUInt32 else Min (hiHits s), s0)
    \<and> hiInv s0 \<and> hiHits s0 = hiHits s
    \<and> (\<forall>l. \<exists>s'. hiNext l s0 = Some s' \<and> hiInv s' \<and> hiHits s' \<subseteq> hiHits s
        \<and> {p \<in> hiHits s. l < p} \<subseteq> hiHits s'
        \<and> (hiHits s \<noteq> {} \<and> Min (hiHits s) \<le> l \<longrightarrow> Min (hiHits s) \<notin> hiHits s')
        \<and> (l = maxUInt32 \<longrightarrow> hiHits s' = {}))"
proof -
  obtain s0 where s0: "hiFirst s = Some (if hiHits s = {} then maxUInt32 else Min (hiHits s), s0)"
    "hiInv s0" "hiHits s0 = hiHits s"
    using hi.first_law [OF assms] by blast
  have "\<exists>s'. hiNext l s0 = Some s' \<and> hiInv s' \<and> hiHits s' \<subseteq> hiHits s \<and> {p \<in> hiHits s. l < p} \<subseteq> hiHits s'
        \<and> (hiHits s \<noteq> {} \<and> Min (hiHits s) \<le> l \<longrightarrow> Min (hiHits s) \<notin> hiHits s')
        \<and> (l = maxUInt32 \<longrightarrow> hiHits s' = {})" for l
    using hi.next_after_first [OF assms s0(1), of l] hi.next_max [OF s0(2)] by (auto split: if_splits)
  then show ?thesis using s0 by blast
qed

theorem hitIterator_contract_witness:
  "let s = Distance \<lparr>started = False, distance = 4,
                     i1 = Single (InMemory \<lparr>postings = [1, 3, 9], memWhat = 0\<rparr>),
                     i2 = Single (InMemory \<lparr>postings = [2, 7, 13], memWhat = 1\<rparr>)\<rparr>
   in hiInv s \<and> hiHits s = {3, 9} \<and> (\<exists>s0. hiFirst s = Some (3, s0) \<and> hiHits s0 = {3, 9})"
proof -
  let ?s = "Distance \<lparr>started = False, distance = 4,
                     i1 = Single (InMemory \<lparr>postings = [1, 3, 9], memWhat = 0\<rparr>),
                     i2 = Single (InMemory \<lparr>postings = [2, 7, 13], memWhat = 1\<rparr>)\<rparr>"
  have inv: "hiInv ?s" by (simp add: distInv_def distWf_def ascending_def)
  have hits: "hiHits ?s = {3, 9}" by (auto simp: distHits_def)
  show ?thesis unfolding Let_def using hitIterator_contract [OF inv] inv unfolding hits
    by (auto simp del: hiFirst.simps hiNext.simps hiInv.simps)
qed

text \<open>C3: a compressed iterator over the varint deltas of increasing offsets is well formed and has
  exactly those offsets as its hits.\<close>

theorem compressed_postings_hits:
  assumes "ascending (p # ps)"
  shows "\<exists>i. newCompressedPostingIterator (deltasLoop 0 (p # ps)) w = Some i \<and>
    piInv (Compressed i) \<and> piHits (Compressed i) = set (p # ps)"
  by (rule newCompressed_hits [OF assms])

theorem compressed_postings_hits_witness:
  "\<exists>i. newCompressedPostingIterator (deltasLoop 0 [3, 300, 70000]) 7 = Some i \<and>
    piInv (Compressed i) \<and> piHits (Compressed i) = {3, 300, 70000}"
  using compressed_postings_hits [of 3 "[300, 70000]" 7] by (simp add: ascending_def)

end
