(* ===== verification/Zoekt_Matchiter.thy ===== *)
theory Zoekt_Matchiter
  imports Zoekt_Hititer
begin

text \<open>
  The model of \<^verbatim>\<open>matchiter.go\<close> and of the iterator wrapper of \<^verbatim>\<open>indexdata.go\<close>:
  candidate matches, and the iterators that produce the candidates of one document after the
  other.

  \<open>ngramDocIterator\<close> is parametric in the methods of the hit iterator it holds, as the Go type is
  in the interface value; its laws are proved in the locale \<open>hit_iterator\<close>. A call that panics
  or does not return is \<open>None\<close>.
\<close>

section \<open>Candidate matches\<close>

record candidateMatch =
  caseSensitive :: bool
  fileName :: bool
  substrBytes :: bytes
  substrLowered :: bytes
  docFile :: u32
  runeOffset :: u32
  byteOffset :: u32
  byteMatchSz :: u32

definition emptyCandidate :: candidateMatch where
  "emptyCandidate = \<lparr>caseSensitive = False, fileName = False, substrBytes = [], substrLowered = [],
     docFile = 0, runeOffset = 0, byteOffset = 0, byteMatchSz = 0\<rparr>"

definition matchContent ::
  "(rune \<Rightarrow> rune) \<Rightarrow> goslice \<Rightarrow> candidateMatch \<Rightarrow> (bool \<times> candidateMatch) option" where
  "matchContent lower content m =
     (if caseSensitive m then do {
        s \<leftarrow> goSlice content (byteOffset m) (byteOffset m + of_nat (length (substrBytes m)));
        Some (substrBytes m = s, m\<lparr>byteMatchSz := of_nat (length (substrBytes m))\<rparr>)
      } else do {
        s \<leftarrow> goSliceFrom content (byteOffset m);
        let (sz, ok) = caseFoldingEqualsRunes lower (substrLowered m) s;
        Some (ok, m\<lparr>byteMatchSz := of_nat sz\<rparr>)
      })"

text \<open>\<^verbatim>\<open>line\<close>: line number (from 1), start and end of the line of the match.\<close>

definition line :: "candidateMatch \<Rightarrow> u32 list \<Rightarrow> u32 \<Rightarrow> nat \<times> nat \<times> nat" where
  "line m newlines fileSize =
     (let idx = sortSearch (length newlines) (\<lambda>n. byteOffset m \<le> newlines ! n);
          lend = (if idx < length newlines then unat (newlines ! idx) else unat fileSize);
          start = (if 0 < idx then unat (newlines ! (idx - 1) + 1) else 0)
      in (idx + 1, start, lend))"

section \<open>The file of a corpus offset\<close>

partial_function (option) nextFileIndexLoop :: "u32 \<Rightarrow> u32 list \<Rightarrow> u32 \<Rightarrow> u32 \<Rightarrow> u32 option" where
  "nextFileIndexLoop offset ends f d =
     (if f < of_nat (length ends) \<and> ends ! unat f \<le> offset then
        if f + d < of_nat (length ends) \<and> ends ! unat (f + d) \<le> offset
        then nextFileIndexLoop offset ends (f + d) (d * 2)
        else if 1 < d then nextFileIndexLoop offset ends f (d div 4 + 1)
        else nextFileIndexLoop offset ends (f + 1) d
      else Some f)"

definition nextFileIndex :: "u32 \<Rightarrow> u32 \<Rightarrow> u32 list \<Rightarrow> u32 option" where
  "nextFileIndex offset f ends = nextFileIndexLoop offset ends f 1"

text \<open>With at most \<open>2\<^sup>3\<^sup>0\<close> files the step size never overflows; beyond \<open>2\<^sup>3\<^sup>1\<close> it could become
  0, and the loop would not end.\<close>

lemma nextFileIndexLoop_spec:
  assumes "sorted ends" and len: "length ends \<le> 1073741824"
    and "0 < d" and "unat d < 2147483648" and "unat f \<le> length ends"
  shows "\<exists>j. nextFileIndexLoop offset ends f d = Some j \<and> unat f \<le> unat j \<and> unat j \<le> length ends \<and>
    (\<forall>k. unat f \<le> k \<longrightarrow> k < unat j \<longrightarrow> ends ! k \<le> offset) \<and>
    (unat j < length ends \<longrightarrow> offset < ends ! unat j)"
  using assms(3-)
proof (induction "(length ends - unat f, unat d)" arbitrary: f d
    rule: wf_induct_rule [OF wf_lex_prod [OF wf_less_than wf_less_than]])
  case 1
  have lenw: "unat (of_nat (length ends) :: u32) = length ends"
    using len by (intro unat_of_nat_u32) simp
  then have f_less: "f < of_nat (length ends) \<longleftrightarrow> unat f < length ends" by (simp add: word_less_nat_alt)
  note step = nextFileIndexLoop.simps [of offset ends f d]
  show ?case
  proof (cases "unat f < length ends \<and> ends ! unat f \<le> offset")
    case False
    then show ?thesis using "1.prems" by (auto simp: step f_less not_le)
  next
    case here: True
    have fd: "unat (f + d) = unat f + unat d" using "1.prems" len by (intro unat_add_u32) simp
    have fd_less: "f + d < of_nat (length ends) \<longleftrightarrow> unat f + unat d < length ends"
      by (simp add: word_less_nat_alt lenw fd)
    have d0: "0 < unat d" using "1.prems" by (simp add: word_less_nat_alt)
    consider (jump) "unat f + unat d < length ends" "ends ! (unat f + unat d) \<le> offset"
      | (shrink) "\<not> (unat f + unat d < length ends \<and> ends ! (unat f + unat d) \<le> offset)" "1 < d"
      | (one) "\<not> (unat f + unat d < length ends \<and> ends ! (unat f + unat d) \<le> offset)" "\<not> 1 < d"
      by blast
    then show ?thesis
    proof cases
      case jump
      then have d2: "unat (d * 2) = unat d * 2"
        using len by (subst unat_mult_lem [THEN iffD1]) simp_all
      have run: "nextFileIndexLoop offset ends f d = nextFileIndexLoop offset ends (f + d) (d * 2)"
        using jump here by (subst step) (simp add: f_less fd_less fd)
      have less: "length ends - (unat f + unat d) < length ends - unat f" using jump d0 by arith
      obtain j where j: "nextFileIndexLoop offset ends (f + d) (d * 2) = Some j" "unat (f + d) \<le> unat j"
        "unat j \<le> length ends" "\<forall>k. unat (f + d) \<le> k \<longrightarrow> k < unat j \<longrightarrow> ends ! k \<le> offset"
        "unat j < length ends \<longrightarrow> offset < ends ! unat j"
        using "1.hyps" [of "f + d" "d * 2"] jump d0 d2 fd len here less by (auto simp: word_less_nat_alt)
      have "ends ! k \<le> offset" if "k < unat f + unat d" for k
        using jump that sorted_nth_mono [OF assms(1), of k "unat f + unat d"] by simp
      then have "\<forall>k. unat f \<le> k \<longrightarrow> k < unat j \<longrightarrow> ends ! k \<le> offset" using j(4) fd by (metis leI)
      then show ?thesis using j fd unfolding run by auto
    next
      case shrink
      have d4: "unat (d div 4 + 1) = unat d div 4 + 1"
        using unat_u32_less [of d] by (subst unat_add_u32) (simp_all add: unat_div)
      have run: "nextFileIndexLoop offset ends f d = nextFileIndexLoop offset ends f (d div 4 + 1)"
        using shrink here by (subst step) (auto simp: f_less fd_less fd)
      have "1 < unat d" using shrink by (simp add: word_less_nat_alt)
      then show ?thesis unfolding run using d4 "1.prems"
        by (intro "1.hyps") (simp_all add: word_less_nat_alt)
    next
      case one
      then have d1: "d = 1" using d0 by (simp add: word_less_nat_alt word_unat_eq_iff)
      have f1: "unat (f + 1) = unat f + 1" using here len by (subst unat_add_u32) simp_all
      have run: "nextFileIndexLoop offset ends f d = nextFileIndexLoop offset ends (f + 1) d"
        using one here by (subst step) (auto simp: f_less fd_less fd)
      obtain j where j: "nextFileIndexLoop offset ends (f + 1) d = Some j" "unat (f + 1) \<le> unat j"
        "unat j \<le> length ends" "\<forall>k. unat (f + 1) \<le> k \<longrightarrow> k < unat j \<longrightarrow> ends ! k \<le> offset"
        "unat j < length ends \<longrightarrow> offset < ends ! unat j"
        using "1.hyps" [of "f + 1" d] "1.prems" f1 here diff_less_mono2 [of "unat f" "Suc (unat f)"] by auto
      have "ends ! k \<le> offset" if "unat f \<le> k" "k < unat j" for k
        using here j(4) f1 that by (cases "k = unat f") simp_all
      then show ?thesis using j f1 unfolding run by auto
    qed
  qed
qed

lemma nextFileIndex_spec:
  assumes "sorted ends" "length ends \<le> 1073741824" "unat f \<le> length ends"
  obtains j where "nextFileIndex offset f ends = Some j" "unat f \<le> unat j" "unat j \<le> length ends"
    "\<And>k. unat f \<le> k \<Longrightarrow> k < unat j \<Longrightarrow> ends ! k \<le> offset"
    "unat j < length ends \<Longrightarrow> offset < ends ! unat j"
  using nextFileIndexLoop_spec [OF assms(1,2), of 1 f offset] assms(3)
  unfolding nextFileIndex_def by auto

section \<open>Candidates from trigram hits\<close>

record 's ngramDocIterator =
  leftPad :: u32
  rightPad :: u32
  iter :: 's
  ends :: "u32 list"
  fileIdx :: u32
  matchCount :: nat

definition ndNextDoc ::
  "('s \<Rightarrow> (u32 \<times> 's) option) \<Rightarrow> 's ngramDocIterator \<Rightarrow> (u32 \<times> 's ngramDocIterator) option" where
  "ndNextDoc first i = do {
     (p, it) \<leftarrow> first (iter i);
     j \<leftarrow> nextFileIndex p (fileIdx i) (ends i);
     let i' = i\<lparr>iter := it, fileIdx := j\<rparr>;
     Some (if of_nat (length (ends i)) \<le> j then maxUInt32 else j, i')
   }"

text \<open>The start of a document; \<^verbatim>\<open>ends[doc-1]\<close> panics out of range.\<close>

definition docStart :: "u32 list \<Rightarrow> u32 \<Rightarrow> u32 option" where
  "docStart es d = (if 0 < d then if unat (d - 1) < length es then Some (es ! unat (d - 1)) else None
     else Some 0)"

definition ndPrepare ::
  "(u32 \<Rightarrow> 's \<Rightarrow> 's option) \<Rightarrow> u32 \<Rightarrow> 's ngramDocIterator \<Rightarrow> 's ngramDocIterator option" where
  "ndPrepare nxt d i = do {
     start \<leftarrow> docStart (ends i) d;
     it \<leftarrow> (if 0 < start then nxt (start + leftPad i - 1) (iter i) else Some (iter i));
     Some (i\<lparr>iter := it, fileIdx := d\<rparr>)
   }"

partial_function (option) candLoop ::
  "('s \<Rightarrow> (u32 \<times> 's) option) \<Rightarrow> (u32 \<Rightarrow> 's \<Rightarrow> 's option) \<Rightarrow> u32 \<Rightarrow> u32 \<Rightarrow> u32 \<Rightarrow> u32 \<Rightarrow> u32
     \<Rightarrow> 's \<Rightarrow> candidateMatch list \<Rightarrow> (candidateMatch list \<times> 's) option" where
  "candLoop first nxt lpad rpad fileStart fileEnd idx it cs = do {
     (p1, it1) \<leftarrow> first it;
     if p1 = maxUInt32 \<or> fileEnd \<le> p1 then Some (cs, it1)
     else do {
       it2 \<leftarrow> nxt p1 it1;
       if p1 < lpad + fileStart \<or> fileEnd < p1 + rpad
       then candLoop first nxt lpad rpad fileStart fileEnd idx it2 cs
       else candLoop first nxt lpad rpad fileStart fileEnd idx it2
              (cs @ [emptyCandidate\<lparr>docFile := idx, runeOffset := p1 - fileStart - lpad\<rparr>])
     }
   }"

definition ndCandidates ::
  "('s \<Rightarrow> (u32 \<times> 's) option) \<Rightarrow> (u32 \<Rightarrow> 's \<Rightarrow> 's option) \<Rightarrow> 's ngramDocIterator
     \<Rightarrow> (candidateMatch list \<times> 's ngramDocIterator) option" where
  "ndCandidates first nxt i =
     (if of_nat (length (ends i)) \<le> fileIdx i then Some ([], i)
      else do {
        fileStart \<leftarrow> docStart (ends i) (fileIdx i);
        (cs, it) \<leftarrow> candLoop first nxt (leftPad i) (rightPad i) fileStart (ends i ! unat (fileIdx i))
                      (fileIdx i) (iter i) [];
        Some (cs, i\<lparr>iter := it, matchCount := matchCount i + length cs\<rparr>)
      })"

text \<open>The hits that stand for a candidate of document \<open>d\<close>: with \<open>leftPad\<close> runes before the
  trigram and \<open>rightPad\<close> from it on, the pattern lies within the document.\<close>

definition startOf :: "u32 list \<Rightarrow> nat \<Rightarrow> u32" where
  "startOf es d = (if d = 0 then 0 else es ! (d - 1))"

definition fits :: "u32 \<Rightarrow> u32 \<Rightarrow> u32 list \<Rightarrow> nat \<Rightarrow> u32 \<Rightarrow> bool" where
  "fits lpad rpad es d p \<longleftrightarrow> p < es ! d \<and> lpad + startOf es d \<le> p \<and> p + rpad \<le> es ! d"

definition candsOf :: "u32 \<Rightarrow> u32 \<Rightarrow> u32 list \<Rightarrow> u32 set \<Rightarrow> nat \<Rightarrow> candidateMatch list" where
  "candsOf lpad rpad es H d =
     map (\<lambda>p. emptyCandidate\<lparr>docFile := of_nat d, runeOffset := p - startOf es d - lpad\<rparr>)
       (sorted_list_of_set {p \<in> H. fits lpad rpad es d p})"

lemma docStart_startOf: "d < length es \<Longrightarrow> length es \<le> 1073741824 \<Longrightarrow> docStart es (of_nat d) = Some (startOf es d)"
proof -
  assume d: "d < length es" "length es \<le> 1073741824"
  then have u: "unat (of_nat d :: u32) = d" by (intro unat_of_nat_u32) simp
  show ?thesis
  proof (cases "d = 0")
    case True
    then show ?thesis by (simp add: docStart_def startOf_def)
  next
    case False
    then have "unat (of_nat d - 1 :: u32) = d - 1" 
      using u by (subst unat_sub_u32) (simp_all add: word_le_nat_alt)
    then show ?thesis using False d u by (simp add: docStart_def startOf_def word_less_nat_alt)
  qed
qed

context hit_iterator
begin

lemma next_first_hits:
  assumes "inv s" "hits s \<noteq> {}"
  obtains s0 s' where "first s = Some (Min (hits s), s0)" "nxt (Min (hits s)) s0 = Some s'" "inv s'"
    "hits s' = hits s - {Min (hits s)}"
proof -
  let ?m = "Min (hits s)"
  obtain s0 where s0: "first s = Some (?m, s0)" using first_law [OF assms(1)] assms(2) by auto
  obtain s' where s': "nxt ?m s0 = Some s'" "inv s'" "hits s' \<subseteq> hits s" "{p \<in> hits s. ?m < p} \<subseteq> hits s'"
    "?m \<notin> hits s'"
    using next_after_first [OF assms(1) s0, of ?m] by blast
  have "p \<in> hits s'" if "p \<in> hits s" "p \<noteq> ?m" for p
    using s'(4) that Min_le [of "hits s" p] by (auto simp: le_less)
  then have "hits s' = hits s - {?m}" using s' by auto
  then show ?thesis using s0 s' that by blast
qed

lemma candLoop_law:
  assumes "inv it"
  shows "\<exists>it'. candLoop first nxt lpad rpad fs fe idx it cs =
      Some (cs @ map (\<lambda>p. emptyCandidate\<lparr>docFile := idx, runeOffset := p - fs - lpad\<rparr>)
        (sorted_list_of_set {p \<in> hits it. p < fe \<and> lpad + fs \<le> p \<and> p + rpad \<le> fe}), it')
    \<and> inv it' \<and> hits it' = {p \<in> hits it. fe \<le> p}"
  using assms
proof (induction "card (hits it)" arbitrary: it cs rule: less_induct)
  case less
  let ?S = "\<lambda>it. {p \<in> hits it. p < fe \<and> lpad + fs \<le> p \<and> p + rpad \<le> fe}"
  define m where "m = Min (hits it)"
  show ?case
  proof (cases "hits it = {} \<or> fe \<le> m")
    case True
    have ge: "fe \<le> p" if "p \<in> hits it" for p
      using True that Min_le [of "hits it" p] by (auto simp: m_def [symmetric] intro: order.trans)
    then have S: "?S it = {}" "{p \<in> hits it. fe \<le> p} = hits it" by (auto simp: not_le [symmetric])
    obtain v it1 where it1: "first it = Some (v, it1)" "inv it1" "hits it1 = hits it"
      and v: "v = (if hits it = {} then maxUInt32 else m)"
      using first_law [OF less.prems] unfolding m_def by blast
    have "v = maxUInt32 \<or> fe \<le> v" using True unfolding v by (cases "hits it = {}") (simp_all del: Min_ge_iff)
    then show ?thesis using it1 unfolding S by (subst candLoop.simps) simp
  next
    case False
    then obtain it1 it2 where it: "first it = Some (m, it1)" "nxt m it1 = Some it2" "inv it2"
      "hits it2 = hits it - {m}"
      using next_first_hits [OF less.prems] unfolding m_def by blast
    have m: "m \<in> hits it" using False by (simp add: m_def)
    then have mmax: "m \<noteq> maxUInt32" using max_not_hit [OF less.prems] by metis
    have "card (hits it2) < card (hits it)" using m it(4) by (metis card_Diff1_less finite)
    note IH = less.hyps [OF this it(3)]
    have after: "{p \<in> hits it2. fe \<le> p} = {p \<in> hits it. fe \<le> p}" using it(4) False by auto
    show ?thesis
    proof (cases "m < lpad + fs \<or> fe < m + rpad")
      case True
      then have "?S it2 = ?S it" using it(4) by (auto simp: not_le [symmetric])
      then show ?thesis using IH [of cs] True False it mmax after
        by (subst candLoop.simps) auto
    next
      case keep: False
      then have S: "?S it = insert m (?S it2)" using it(4) m False by (auto simp: not_le not_less)
      have "sorted_list_of_set (?S it) = m # sorted_list_of_set (?S it2)"
        unfolding S using it(4) Min_le [of "hits it", folded m_def]
        by (intro sorted_list_of_set_Cons) (auto simp: le_less)
      then show ?thesis using IH [of "cs @ [emptyCandidate\<lparr>docFile := idx, runeOffset := m - fs - lpad\<rparr>]"]
          keep False it mmax after
        by (subst candLoop.simps) auto
    qed
  qed
qed

end

text \<open>The state between two documents: every hit of \<open>H\<close> that stands for a candidate of a
  document from \<open>k\<close> on is still to come, and \<open>fileIdx\<close> has not passed its document.\<close>

definition wfEnds :: "u32 \<Rightarrow> u32 list \<Rightarrow> bool" where
  "wfEnds lpad es \<longleftrightarrow> sorted es \<and> length es \<le> 1073741824 \<and>
     (\<forall>e \<in> set es. unat e + unat lpad < 4294967296)"

definition ndReady ::
  "('s \<Rightarrow> u32 set) \<Rightarrow> ('s \<Rightarrow> bool) \<Rightarrow> u32 set \<Rightarrow> nat \<Rightarrow> 's ngramDocIterator \<Rightarrow> bool" where
  "ndReady hits good H k i \<longleftrightarrow> good (iter i) \<and> hits (iter i) \<subseteq> H \<and> wfEnds (leftPad i) (ends i) \<and>
     unat (fileIdx i) \<le> length (ends i) \<and>
     (\<forall>e p. k \<le> e \<longrightarrow> e < length (ends i) \<longrightarrow> p \<in> H \<longrightarrow> fits (leftPad i) (rightPad i) (ends i) e p
        \<longrightarrow> p \<in> hits (iter i) \<and> unat (fileIdx i) \<le> e)"

abbreviation sameShape :: "'s ngramDocIterator \<Rightarrow> 's ngramDocIterator \<Rightarrow> bool" where
  "sameShape i j \<equiv> leftPad i = leftPad j \<and> rightPad i = rightPad j \<and> ends i = ends j"

lemma startOf_mono: "sorted es \<Longrightarrow> d \<le> e \<Longrightarrow> e < length es \<Longrightarrow> startOf es d \<le> startOf es e"
  by (auto simp: startOf_def intro: sorted_nth_mono)

lemma startOf_ge: "sorted es \<Longrightarrow> d < e \<Longrightarrow> e < length es \<Longrightarrow> es ! d \<le> startOf es e"
  by (auto simp: startOf_def intro: sorted_nth_mono)

lemma fits_later:
  assumes wf: "wfEnds lpad es" and "d < e" "e < length es" "fits lpad rpad es e p"
  shows "es ! d \<le> p" and "startOf es d + lpad \<le> p"
proof -
  have *: "startOf es e \<in> insert 0 (set es)" "startOf es d \<in> insert 0 (set es)"
    using assms(2,3) by (auto simp: startOf_def)
  then have w: "unat (lpad + startOf es e) = unat lpad + unat (startOf es e)"
    "unat (startOf es d + lpad) = unat (startOf es d) + unat lpad"
    using wf unat_u32_less [of lpad] by (auto simp: wfEnds_def add.commute intro!: unat_add_u32)
  have "unat (es ! d) \<le> unat (startOf es e)" "unat (startOf es d) \<le> unat (startOf es e)"
    using startOf_ge [of es d e] startOf_mono [of es d e] assms by (auto simp: wfEnds_def word_le_nat_alt)
  moreover have "unat (lpad + startOf es e) \<le> unat p" using assms(4) by (simp add: fits_def word_le_nat_alt)
  ultimately show "es ! d \<le> p" "startOf es d + lpad \<le> p" using w by (auto simp: word_le_nat_alt)
qed

lemma above_limit:
  assumes "wfEnds lpad es" "d < length es" "0 < startOf es d" "startOf es d + lpad \<le> p"
  shows "startOf es d + lpad - 1 < p"
proof -
  have "startOf es d \<in> set es" using assms(2,3) by (auto simp: startOf_def)
  then have "unat (startOf es d + lpad) = unat (startOf es d) + unat lpad"
    using assms(1) by (intro unat_add_u32) (auto simp: wfEnds_def)
  then have "0 < startOf es d + lpad" using assms(3) by (simp add: word_less_nat_alt)
  then show ?thesis using assms(4) pred_u32 [of 0 "startOf es d + lpad" p]
      pred_u32 [of 0 "startOf es d + lpad" "startOf es d + lpad - 1"] by simp
qed

context hit_iterator
begin

lemma ndNextDoc_law:
  assumes r: "ndReady hits inv H k i"
  obtains n i' where "ndNextDoc first i = Some (n, i')" "ndReady hits inv H k i'" "sameShape i' i"
    "\<And>e p. k \<le> e \<Longrightarrow> e < length (ends i) \<Longrightarrow> p \<in> H \<Longrightarrow> fits (leftPad i) (rightPad i) (ends i) e p \<Longrightarrow> unat n \<le> e"
proof -
  have inv: "inv (iter i)" and wf: "sorted (ends i)" "length (ends i) \<le> 1073741824"
    and idx: "unat (fileIdx i) \<le> length (ends i)"
    using r by (auto simp: ndReady_def wfEnds_def)
  obtain v it where it: "first (iter i) = Some (v, it)" "inv it" "hits it = hits (iter i)"
    and v: "v = minHit (hits (iter i))"
    using first_minHit [OF inv] by blast
  obtain j where j: "nextFileIndex v (fileIdx i) (ends i) = Some j" "unat j \<le> length (ends i)"
    "\<And>k. unat (fileIdx i) \<le> k \<Longrightarrow> k < unat j \<Longrightarrow> ends i ! k \<le> v"
    using nextFileIndex_spec [OF wf idx] by metis
  let ?i = "i\<lparr>iter := it, fileIdx := j\<rparr>"
  have le: "unat j \<le> e" if "k \<le> e" "e < length (ends i)" "p \<in> H" "fits (leftPad i) (rightPad i) (ends i) e p" for e p
  proof (rule ccontr)
    assume "\<not> unat j \<le> e"
    have "p \<in> hits (iter i)" "unat (fileIdx i) \<le> e" using r that unfolding ndReady_def by blast+
    then have "ends i ! e \<le> v" "v \<le> p" using j(3) \<open>\<not> unat j \<le> e\<close> minHit_le v by auto
    then show False using that(4) by (auto simp: fits_def)
  qed
  have "unat (if of_nat (length (ends i)) \<le> j then maxUInt32 else j) \<le> e"
    if "k \<le> e" "e < length (ends i)" "p \<in> H" "fits (leftPad i) (rightPad i) (ends i) e p" for e p
    using le [OF that] that(2) wf(2) by (simp add: word_le_nat_alt unat_of_nat_u32)
  then show ?thesis using it j r le
    by (intro that [of "if of_nat (length (ends i)) \<le> j then maxUInt32 else j" ?i])
       (auto simp: ndNextDoc_def ndReady_def)
qed

lemma ndPrepare_law:
  assumes r: "ndReady hits inv H k i" and d: "k \<le> d" "d < length (ends i)"
  obtains i' cs i'' where "ndPrepare nxt (of_nat d) i = Some i'" "ndCandidates first nxt i' = Some (cs, i'')"
    "cs = candsOf (leftPad i) (rightPad i) (ends i) H d" "ndReady hits inv H (Suc d) i''" "sameShape i'' i"
proof -
  have inv: "inv (iter i)" and wf: "wfEnds (leftPad i) (ends i)" "length (ends i) \<le> 1073741824"
    and sub: "hits (iter i) \<subseteq> H"
    using r by (auto simp: ndReady_def wfEnds_def)
  have ahead: "\<And>e p. k \<le> e \<Longrightarrow> e < length (ends i) \<Longrightarrow> p \<in> H \<Longrightarrow>
      fits (leftPad i) (rightPad i) (ends i) e p \<Longrightarrow> p \<in> hits (iter i)"
    using r by (simp add: ndReady_def)
  have start: "docStart (ends i) (of_nat d) = Some (startOf (ends i) d)"
    using docStart_startOf [OF d(2) wf(2)] .
  have ud: "unat (of_nat d :: u32) = d" using d wf by (intro unat_of_nat_u32) simp
  let ?s = "startOf (ends i) d"
  obtain it where it: "(if 0 < ?s then nxt (?s + leftPad i - 1) (iter i) else Some (iter i)) = Some it"
    "inv it" "hits it \<subseteq> hits (iter i)" "\<And>p. p \<in> hits (iter i) \<Longrightarrow> ?s + leftPad i \<le> p \<Longrightarrow> p \<in> hits it"
  proof (cases "0 < ?s")
    case True
    then show ?thesis using next_law [OF inv, of "?s + leftPad i - 1"] that above_limit [OF wf(1) d(2)] by auto
  qed (use inv in \<open>auto intro: that\<close>)
  have prep: "ndPrepare nxt (of_nat d) i = Some (i\<lparr>iter := it, fileIdx := of_nat d\<rparr>)"
    using start it(1) by (simp add: ndPrepare_def)
  obtain it' where it': "candLoop first nxt (leftPad i) (rightPad i) ?s (ends i ! d) (of_nat d) it [] =
      Some (map (\<lambda>p. emptyCandidate\<lparr>docFile := of_nat d, runeOffset := p - ?s - leftPad i\<rparr>)
        (sorted_list_of_set {p \<in> hits it. fits (leftPad i) (rightPad i) (ends i) d p}), it')"
    "inv it'" "hits it' = {p \<in> hits it. ends i ! d \<le> p}"
    using candLoop_law [OF it(2), of "leftPad i" "rightPad i" ?s "ends i ! d" "of_nat d" "[]"]
    by (auto simp: fits_def)
  have here: "{p \<in> hits it. fits (leftPad i) (rightPad i) (ends i) d p}
      = {p \<in> H. fits (leftPad i) (rightPad i) (ends i) d p}"
    using it(3,4) sub ahead [of d] d by (auto simp: fits_def add.commute)
  have later: "p \<in> hits it'" if "d < e" "e < length (ends i)" "p \<in> H" "fits (leftPad i) (rightPad i) (ends i) e p" for e p
  proof -
    have "p \<in> hits (iter i)" using ahead [of e p] that d by simp
    then show ?thesis using fits_later [OF wf(1) that(1,2,4)] it(4) it'(3) by simp
  qed
  let ?i = "i\<lparr>iter := it', fileIdx := of_nat d, matchCount :=
     matchCount i + length (candsOf (leftPad i) (rightPad i) (ends i) H d)\<rparr>"
  have "ndCandidates first nxt (i\<lparr>iter := it, fileIdx := of_nat d\<rparr>)
      = Some (candsOf (leftPad i) (rightPad i) (ends i) H d, ?i)"
    using start it'(1) d wf(2) ud by (simp add: ndCandidates_def candsOf_def here word_le_nat_alt unat_of_nat_u32)
  moreover have "ndReady hits inv H (Suc d) ?i"
    using wf(1) it'(2,3) it(3) sub later d ud unfolding ndReady_def by (auto simp: Suc_le_eq)
  ultimately show ?thesis by (intro that [OF prep, of _ ?i]) simp_all
qed

end

section \<open>Lines\<close>

lemma line_bounds:
  fixes newlines :: "u32 list"
  assumes sorted: "sorted_wrt (<) newlines" and size: "\<forall>p \<in> set newlines. p < fileSize"
    and off: "off \<le> fileSize" and le: "idx \<le> length newlines"
    and below: "\<And>k. k < idx \<Longrightarrow> \<not> off \<le> newlines ! k"
    and above: "\<And>k. idx \<le> k \<Longrightarrow> k < length newlines \<Longrightarrow> off \<le> newlines ! k"
  defines "start \<equiv> if 0 < idx then unat (newlines ! (idx - 1) + 1) else 0"
    and "lend \<equiv> if idx < length newlines then unat (newlines ! idx) else unat fileSize"
  shows "start \<le> unat off" and "unat off \<le> lend" and "lend \<le> unat fileSize"
    and "\<forall>p \<in> set newlines. \<not> (start \<le> unat p \<and> unat p < lend)"
    and "length (filter (\<lambda>p. p < off) newlines) = idx"
    and "start = 0 \<or> (\<exists>p \<in> set newlines. start = unat p + 1)"
    and "lend = unat fileSize \<or> (\<exists>p \<in> set newlines. lend = unat p)"
proof -
  have succ: "unat (newlines ! (idx - 1) + 1) = unat (newlines ! (idx - 1)) + 1" if "0 < idx"
  proof -
    have "newlines ! (idx - 1) < fileSize" using size nth_mem [of "idx - 1" newlines] that le by simp
    then show ?thesis using unat_u32_less [of fileSize]
      by (subst unat_add_u32) (simp_all add: word_less_nat_alt)
  qed
  show "start = 0 \<or> (\<exists>p \<in> set newlines. start = unat p + 1)"
    using succ le by (auto simp: start_def)
  show "lend = unat fileSize \<or> (\<exists>p \<in> set newlines. lend = unat p)" by (auto simp: lend_def)
  show "start \<le> unat off"
    using below [of "idx - 1"] succ by (auto simp: start_def word_le_nat_alt)
  show "unat off \<le> lend" using above [of idx] off by (auto simp: lend_def word_le_nat_alt)
  show "lend \<le> unat fileSize" using size by (auto simp: lend_def word_less_nat_alt less_imp_le)
  have mono: "newlines ! a \<le> newlines ! b" if "a \<le> b" "b < length newlines" for a b
    using that sorted_wrt_nth_less [OF sorted, of a b] by (cases "a = b") auto
  show "\<forall>p \<in> set newlines. \<not> (start \<le> unat p \<and> unat p < lend)"
  proof
    fix p assume "p \<in> set newlines"
    then obtain k where k: "k < length newlines" "p = newlines ! k" by (auto simp: in_set_conv_nth)
    show "\<not> (start \<le> unat p \<and> unat p < lend)"
    proof (cases "k < idx")
      case True
      then have "newlines ! k \<le> newlines ! (idx - 1)" using le by (intro mono) auto
      then have "unat p < start" using True succ k by (simp add: start_def word_le_nat_alt)
      then show ?thesis by simp
    next
      case False
      then show ?thesis using mono [of idx k] k by (simp add: lend_def word_le_nat_alt)
    qed
  qed
  have "filter (\<lambda>p. p < off) (take idx newlines) = take idx newlines"
    using below le by (intro filter_True) (auto simp: in_set_conv_nth not_le)
  moreover have "filter (\<lambda>p. p < off) (drop idx newlines) = []"
    using above by (intro filter_False) (auto simp: in_set_conv_nth not_less)
  ultimately show "length (filter (\<lambda>p. p < off) newlines) = idx"
    using le filter_append [of "\<lambda>p. p < off" "take idx newlines" "drop idx newlines"] by simp
qed

lemma line_correct:
  assumes "sorted_wrt (<) newlines" and "\<forall>p \<in> set newlines. p < fileSize" and "byteOffset m \<le> fileSize"
    and "line m newlines fileSize = (num, start, lend)"
  shows "start \<le> unat (byteOffset m) \<and> unat (byteOffset m) \<le> lend \<and> lend \<le> unat fileSize
    \<and> (start = 0 \<or> (\<exists>p \<in> set newlines. start = unat p + 1))
    \<and> (lend = unat fileSize \<or> (\<exists>p \<in> set newlines. lend = unat p))
    \<and> (\<forall>p \<in> set newlines. \<not> (start \<le> unat p \<and> unat p < lend))
    \<and> num = Suc (length (filter (\<lambda>p. p < byteOffset m) newlines))"
proof -
  let ?f = "\<lambda>n. byteOffset m \<le> newlines ! n" and ?n = "length newlines"
  have mono: "?f b" if "a \<le> b" "b < ?n" "?f a" for a b
    using that sorted_wrt_nth_less [OF assms(1), of a b] by (cases "a = b") auto
  define idx where "idx = sortSearch ?n ?f"
  note search = sortSearch_spec [of ?n ?f, OF mono, folded idx_def]
  show ?thesis using line_bounds [OF assms(1-3) search] assms(4)
    by (simp add: line_def Let_def idx_def [symmetric])
qed

section \<open>Properties\<close>

text \<open>C12: the galloping search of \<^verbatim>\<open>nextFileIndex\<close> ends and returns the smallest index from the
  given one on whose end lies beyond the offset, or the number of files, for sorted ends.\<close>

theorem nextFileIndex_least:
  assumes "sorted es" and "length es \<le> 1073741824" and "unat f \<le> length es"
  shows "\<exists>j. nextFileIndex offset f es = Some j \<and>
    unat j = unat f + length (takeWhile (\<lambda>e. e \<le> offset) (drop (unat f) es))"
proof -
  obtain j where j: "nextFileIndex offset f es = Some j" "unat f \<le> unat j" "unat j \<le> length es"
    "\<And>k. unat f \<le> k \<Longrightarrow> k < unat j \<Longrightarrow> es ! k \<le> offset" "unat j < length es \<Longrightarrow> offset < es ! unat j"
    using nextFileIndex_spec [OF assms] by metis
  have "length (takeWhile (\<lambda>e. e \<le> offset) (drop (unat f) es)) = unat j - unat f"
  proof (rule length_takeWhile_eqI)
    show "drop (unat f) es ! i \<le> offset" if "i < unat j - unat f" for i
      using that j(2,3) j(4) [of "unat f + i"] by simp
    show "\<not> drop (unat f) es ! (unat j - unat f) \<le> offset" if "unat j - unat f < length (drop (unat f) es)"
      using that j(2,5) by (simp add: not_le less_diff_iff)
  qed (use j(3) in simp)
  then show ?thesis using j by auto
qed

theorem nextFileIndex_least_witness:
  "\<exists>j. nextFileIndex 35 1 [10, 20, 30, 40, 50] = Some j \<and> unat j = 3"
  using nextFileIndex_least [of "[10, 20, 30, 40, 50]" 1 35] by (simp add: numeral_3_eq_3)

text \<open>C13: \<^verbatim>\<open>candidateMatch.line\<close> returns the line that holds the match: it starts at the start of the file
  or just after a newline, it ends at a newline or at the end of the file, the text between has no
  newline, the match offset lies in it (or on the newline that ends it), and the line number counts the
  newlines before.\<close>

theorem line_spec:
  assumes "sorted_wrt (<) newlines" and "\<forall>p \<in> set newlines. p < fileSize" and "byteOffset m \<le> fileSize"
    and "line m newlines fileSize = (num, start, lend)"
  shows "start \<le> unat (byteOffset m) \<and> unat (byteOffset m) \<le> lend \<and> lend \<le> unat fileSize
    \<and> (start = 0 \<or> (\<exists>p \<in> set newlines. start = unat p + 1))
    \<and> (lend = unat fileSize \<or> (\<exists>p \<in> set newlines. lend = unat p))
    \<and> (\<forall>p \<in> set newlines. \<not> (start \<le> unat p \<and> unat p < lend))
    \<and> num = Suc (length (filter (\<lambda>p. p < byteOffset m) newlines))"
  by (rule line_correct [OF assms])

theorem line_spec_witness:
  "let m = emptyCandidate\<lparr>byteOffset := 7\<rparr> in
   \<exists>num start lend. line m [3, 9, 12] 20 = (num, start, lend) \<and> num = 2 \<and> start = 4 \<and> lend = 9"
proof -
  obtain num start lend where l: "line (emptyCandidate\<lparr>byteOffset := 7\<rparr>) [3, 9, 12] 20 = (num, start, lend)"
    using prod_cases3 by blast
  from line_spec [OF _ _ _ l] show ?thesis unfolding Let_def l by auto
qed

end
