(* ===== verification/Zoekt_Sectioniter.thy ===== *)
theory Zoekt_Sectioniter
  imports Zoekt_Matchiter
begin

text \<open>
  The interface \<^verbatim>\<open>matchIterator\<close> of \<^verbatim>\<open>matchiter.go\<close> as the locale \<open>match_iterator\<close>, the two
  wrappers that implement it over another one (\<^verbatim>\<open>ngramIterationResults\<close> of
  \<^verbatim>\<open>indexdata.go\<close> and \<^verbatim>\<open>trimBySectionMatchIter\<close>), and the stack of iterators a substring
  query is evaluated with.
\<close>

section \<open>The interface\<close>

text \<open>
  \<open>spec m0 d\<close> are the candidates that an iterator constructed as \<open>m0\<close> has in document \<open>d\<close>;
  \<open>ready D m0 k m\<close> says that \<open>m\<close> came from \<open>m0\<close>, has processed only documents below
  \<open>k\<close>, and that there are \<open>D\<close> documents. \<open>nextDoc\<close> may not pass a document with
  candidates, and \<open>prepare\<close> followed by \<open>candidates\<close> yields exactly the candidates of the
  document, whatever documents were skipped before.
\<close>

locale match_iterator =
  fixes nextDoc :: "'m \<Rightarrow> (u32 \<times> 'm) option"
    and prepare :: "u32 \<Rightarrow> 'm \<Rightarrow> 'm option"
    and candidates :: "'m \<Rightarrow> (candidateMatch list \<times> 'm) option"
    and spec :: "'m \<Rightarrow> nat \<Rightarrow> candidateMatch list"
    and ready :: "nat \<Rightarrow> 'm \<Rightarrow> nat \<Rightarrow> 'm \<Rightarrow> bool"
  assumes nextDoc_law: "ready D m0 k m \<Longrightarrow> \<exists>n m'. nextDoc m = Some (n, m') \<and> ready D m0 k m' \<and>
      (\<forall>e. k \<le> e \<longrightarrow> e < D \<longrightarrow> spec m0 e \<noteq> [] \<longrightarrow> unat n \<le> e)"
    and prepare_law: "ready D m0 k m \<Longrightarrow> k \<le> d \<Longrightarrow> d < D \<Longrightarrow>
      \<exists>m' m''. prepare (of_nat d) m = Some m' \<and> candidates m' = Some (spec m0 d, m'') \<and>
        ready D m0 (Suc d) m''"

section \<open>The iterator below the wrappers\<close>

datatype baseIterator = NoMatchIter string | NgramDoc "hitIterator ngramDocIterator"

fun baseNextDoc :: "baseIterator \<Rightarrow> (u32 \<times> baseIterator) option" where
  "baseNextDoc (NoMatchIter why) = Some (maxUInt32, NoMatchIter why)"
| "baseNextDoc (NgramDoc i) = map_option (\<lambda>(n, i'). (n, NgramDoc i')) (ndNextDoc hiFirst i)"

fun basePrepare :: "u32 \<Rightarrow> baseIterator \<Rightarrow> baseIterator option" where
  "basePrepare d (NoMatchIter why) = Some (NoMatchIter why)"
| "basePrepare d (NgramDoc i) = map_option NgramDoc (ndPrepare hiNext d i)"

fun baseCandidates :: "baseIterator \<Rightarrow> (candidateMatch list \<times> baseIterator) option" where
  "baseCandidates (NoMatchIter why) = Some ([], NoMatchIter why)"
| "baseCandidates (NgramDoc i) = map_option (\<lambda>(cs, i'). (cs, NgramDoc i')) (ndCandidates hiFirst hiNext i)"

fun baseSpec :: "baseIterator \<Rightarrow> nat \<Rightarrow> candidateMatch list" where
  "baseSpec (NoMatchIter why) d = []"
| "baseSpec (NgramDoc i) d = candsOf (leftPad i) (rightPad i) (ends i) (hiHits (iter i)) d"

fun baseReady :: "nat \<Rightarrow> baseIterator \<Rightarrow> nat \<Rightarrow> baseIterator \<Rightarrow> bool" where
  "baseReady D (NoMatchIter why) k m \<longleftrightarrow> m = NoMatchIter why"
| "baseReady D (NgramDoc i0) k m \<longleftrightarrow> (case m of NoMatchIter _ \<Rightarrow> False
     | NgramDoc i \<Rightarrow> length (ends i0) = D \<and> sameShape i i0 \<and> ndReady hiHits hiInv (hiHits (iter i0)) k i)"

lemma candsOf_nonempty:
  "candsOf lpad rpad es H d \<noteq> [] \<longleftrightarrow> (\<exists>p \<in> H. fits lpad rpad es d p)"
  by (auto simp: candsOf_def sorted_list_of_set_eq_Nil_iff)

interpretation base: match_iterator baseNextDoc basePrepare baseCandidates baseSpec baseReady
proof unfold_locales
  fix D m0 k m d assume r: "baseReady D m0 k m"
  show "\<exists>n m'. baseNextDoc m = Some (n, m') \<and> baseReady D m0 k m' \<and>
      (\<forall>e. k \<le> e \<longrightarrow> e < D \<longrightarrow> baseSpec m0 e \<noteq> [] \<longrightarrow> unat n \<le> e)"
  proof (cases m0)
    case (NgramDoc i0)
    then obtain i where i: "m = NgramDoc i" "length (ends i) = D" "sameShape i i0"
      "ndReady hiHits hiInv (hiHits (iter i0)) k i"
      using r by (auto split: baseIterator.splits)
    obtain n i' where "ndNextDoc hiFirst i = Some (n, i')" "ndReady hiHits hiInv (hiHits (iter i0)) k i'"
      "sameShape i' i"
      "\<And>e p. k \<le> e \<Longrightarrow> e < length (ends i) \<Longrightarrow> p \<in> hiHits (iter i0) \<Longrightarrow>
         fits (leftPad i) (rightPad i) (ends i) e p \<Longrightarrow> unat n \<le> e"
      using hi.ndNextDoc_law [OF i(4)] by metis
    then show ?thesis using NgramDoc i by (auto simp: candsOf_nonempty)
  qed (use r in auto)
  show "\<exists>m' m''. basePrepare (of_nat d) m = Some m' \<and> baseCandidates m' = Some (baseSpec m0 d, m'') \<and>
        baseReady D m0 (Suc d) m''" if d: "k \<le> d" "d < D"
  proof (cases m0)
    case (NgramDoc i0)
    then obtain i where i: "m = NgramDoc i" "length (ends i) = D" "sameShape i i0"
      "ndReady hiHits hiInv (hiHits (iter i0)) k i"
      using r by (auto split: baseIterator.splits)
    obtain i' i'' where "ndPrepare hiNext (of_nat d) i = Some i'"
      "ndCandidates hiFirst hiNext i' = Some (candsOf (leftPad i) (rightPad i) (ends i) (hiHits (iter i0)) d, i'')"
      "ndReady hiHits hiInv (hiHits (iter i0)) (Suc d) i''" "sameShape i'' i"
      using hi.ndPrepare_law [OF i(4) d(1)] d(2) i(2) by metis
    then show ?thesis using NgramDoc i by auto
  qed (use r in auto)
qed

section \<open>The wrapper that fills in the pattern\<close>

record 'm ngramIterationResults =
  resIter :: 'm
  resCaseSensitive :: bool
  resFileName :: bool
  resSubstrBytes :: bytes
  resSubstrLowered :: bytes

definition fillPattern :: "'m ngramIterationResults \<Rightarrow> candidateMatch \<Rightarrow> candidateMatch" where
  "fillPattern r c = c\<lparr>caseSensitive := resCaseSensitive r, fileName := resFileName r,
     substrBytes := resSubstrBytes r, substrLowered := resSubstrLowered r\<rparr>"

definition resCandidates ::
  "('m \<Rightarrow> (candidateMatch list \<times> 'm) option) \<Rightarrow> 'm ngramIterationResults
     \<Rightarrow> (candidateMatch list \<times> 'm ngramIterationResults) option" where
  "resCandidates candidates r = do {
     (cs, m) \<leftarrow> candidates (resIter r);
     Some (map (fillPattern r) cs, r\<lparr>resIter := m\<rparr>)
   }"

text \<open>The two methods the Go struct inherits from the embedded iterator.\<close>

definition resNextDoc ::
  "('m \<Rightarrow> (u32 \<times> 'm) option) \<Rightarrow> 'm ngramIterationResults \<Rightarrow> (u32 \<times> 'm ngramIterationResults) option" where
  "resNextDoc nextDoc r = map_option (\<lambda>(n, m). (n, r\<lparr>resIter := m\<rparr>)) (nextDoc (resIter r))"

definition resPrepare ::
  "(u32 \<Rightarrow> 'm \<Rightarrow> 'm option) \<Rightarrow> u32 \<Rightarrow> 'm ngramIterationResults \<Rightarrow> 'm ngramIterationResults option" where
  "resPrepare prepare d r = map_option (\<lambda>m. r\<lparr>resIter := m\<rparr>) (prepare d (resIter r))"

definition resSpec :: "('m \<Rightarrow> nat \<Rightarrow> candidateMatch list) \<Rightarrow> 'm ngramIterationResults \<Rightarrow> nat \<Rightarrow> candidateMatch list" where
  "resSpec spec r d = map (fillPattern r) (spec (resIter r) d)"

definition resReady ::
  "(nat \<Rightarrow> 'm \<Rightarrow> nat \<Rightarrow> 'm \<Rightarrow> bool) \<Rightarrow> nat \<Rightarrow> 'm ngramIterationResults \<Rightarrow> nat \<Rightarrow> 'm ngramIterationResults \<Rightarrow> bool" where
  "resReady ready D r0 k r \<longleftrightarrow> ready D (resIter r0) k (resIter r) \<and> r = r0\<lparr>resIter := resIter r\<rparr>"

lemma fillPattern_resIter [simp]: "fillPattern (r\<lparr>resIter := m\<rparr>) = fillPattern r"
  by (simp add: fillPattern_def fun_eq_iff)

context match_iterator
begin

lemma results_match_iterator:
  "match_iterator (resNextDoc nextDoc) (resPrepare prepare) (resCandidates candidates)
     (resSpec spec) (resReady ready)"
proof
  fix D d k and r0 r :: "'m ngramIterationResults" assume r: "resReady ready D r0 k r"
  then have m: "ready D (resIter r0) k (resIter r)" and eq: "r = r0\<lparr>resIter := resIter r\<rparr>"
    by (auto simp: resReady_def)
  have fp: "fillPattern r = fillPattern r0" by (subst eq) simp
  have upd: "r\<lparr>resIter := m'\<rparr> = r0\<lparr>resIter := m'\<rparr>" for m' by (subst eq) simp
  show "\<exists>n r'. resNextDoc nextDoc r = Some (n, r') \<and> resReady ready D r0 k r' \<and>
      (\<forall>e. k \<le> e \<longrightarrow> e < D \<longrightarrow> resSpec spec r0 e \<noteq> [] \<longrightarrow> unat n \<le> e)"
    using nextDoc_law [OF m] upd by (auto simp: resNextDoc_def resReady_def resSpec_def) 
  show "\<exists>r' r''. resPrepare prepare (of_nat d) r = Some r' \<and>
      resCandidates candidates r' = Some (resSpec spec r0 d, r'') \<and> resReady ready D r0 (Suc d) r''"
    if "k \<le> d" "d < D"
    using prepare_law [OF m that] upd fp by (auto simp: resPrepare_def resCandidates_def resReady_def resSpec_def)
qed

end

section \<open>The wrapper that keeps matches inside document sections\<close>

record 'm trimBySectionMatchIter =
  trimIter :: 'm
  patternSize :: u32
  fileEndRunes :: "u32 list"
  trimDoc :: u32
  sections :: "DocumentSection list"

definition trimNextDoc ::
  "('m \<Rightarrow> (u32 \<times> 'm) option) \<Rightarrow> 'm trimBySectionMatchIter \<Rightarrow> (u32 \<times> 'm trimBySectionMatchIter) option" where
  "trimNextDoc nextDoc i = map_option (\<lambda>(n, m). (n, i\<lparr>trimIter := m\<rparr>)) (nextDoc (trimIter i))"

definition trimPrepare ::
  "(u32 \<Rightarrow> 'm \<Rightarrow> 'm option) \<Rightarrow> u32 \<Rightarrow> 'm trimBySectionMatchIter \<Rightarrow> 'm trimBySectionMatchIter option" where
  "trimPrepare prepare d i = do {
     m \<leftarrow> prepare d (trimIter i);
     fileStart \<leftarrow> docStart (fileEndRunes i) d;
     Some (i\<lparr>trimIter := m, trimDoc := d,
             sections := dropWhile (\<lambda>s. Start s < fileStart) (sections i)\<rparr>)
   }"

fun trimLoop :: "u32 \<Rightarrow> u32 \<Rightarrow> DocumentSection list \<Rightarrow> candidateMatch list
    \<Rightarrow> candidateMatch list \<times> DocumentSection list" where
  "trimLoop fileStart sz [] ms = ([], [])"
| "trimLoop fileStart sz (s # secs) [] = ([], s # secs)"
| "trimLoop fileStart sz (s # secs) (m # ms) =
     (let start = fileStart + runeOffset m; mend = start + sz in
        if End s \<le> start then trimLoop fileStart sz secs (m # ms)
        else if start < Start s then trimLoop fileStart sz (s # secs) ms
        else let (trimmed, rest) = trimLoop fileStart sz (s # secs) ms
             in (if mend \<le> End s then m # trimmed else trimmed, rest))"

definition trimCandidates ::
  "('m \<Rightarrow> (candidateMatch list \<times> 'm) option) \<Rightarrow> 'm trimBySectionMatchIter
     \<Rightarrow> (candidateMatch list \<times> 'm trimBySectionMatchIter) option" where
  "trimCandidates candidates i = do {
     fileStart \<leftarrow> docStart (fileEndRunes i) (trimDoc i);
     (ms, m) \<leftarrow> candidates (trimIter i);
     let (trimmed, secs) = trimLoop fileStart (patternSize i) (sections i) ms;
     Some (trimmed, i\<lparr>trimIter := m, sections := secs\<rparr>)
   }"

text \<open>Sections in the order of the corpus, disjoint.\<close>

definition wfSections :: "DocumentSection list \<Rightarrow> bool" where
  "wfSections secs \<longleftrightarrow> sorted_wrt (\<lambda>a b. End a \<le> Start b) secs \<and> (\<forall>s \<in> set secs. Start s \<le> End s)"

definition within :: "u32 \<Rightarrow> u32 \<Rightarrow> candidateMatch \<Rightarrow> DocumentSection \<Rightarrow> bool" where
  "within fileStart sz m s \<longleftrightarrow> (let start = fileStart + runeOffset m in
     Start s \<le> start \<and> start < End s \<and> start + sz \<le> End s)"

lemma wfSections_Cons:
  "wfSections (s # secs) \<longleftrightarrow> (\<forall>t \<in> set secs. End s \<le> Start t) \<and> Start s \<le> End s \<and> wfSections secs"
  by (auto simp: wfSections_def)

lemma trimLoop_filter:
  assumes "wfSections secs" "sorted_wrt (\<lambda>a b. fs + runeOffset a < fs + runeOffset b) ms"
  shows "fst (trimLoop fs sz secs ms) = filter (\<lambda>m. \<exists>s \<in> set secs. within fs sz m s) ms"
  using assms
proof (induction fs sz secs ms rule: trimLoop.induct)
  case (3 fs sz s secs m ms)
  let ?start = "\<lambda>m. fs + runeOffset m"
  consider (after) "End s \<le> ?start m" | (before) "\<not> End s \<le> ?start m" "?start m < Start s"
    | (inside) "\<not> End s \<le> ?start m" "\<not> ?start m < Start s" by blast
  then show ?case
  proof cases
    case after
    then have "\<not> within fs sz m' s" if "m' \<in> set (m # ms)" for m'
      using "3.prems"(2) that by (auto simp: within_def Let_def)
    then show ?thesis using after "3.IH"(1) "3.prems" by (auto simp: wfSections_Cons Let_def intro!: filter_cong)
  next
    case before
    then have "\<not> within fs sz m t" if "t \<in> set (s # secs)" for t
      using "3.prems"(1) that by (auto simp: within_def Let_def wfSections_Cons)
    then show ?thesis using before "3.IH"(2) "3.prems" by (auto simp: Let_def)
  next
    case inside
    then have "\<not> within fs sz m t" if "t \<in> set secs" for t
      using "3.prems"(1) that by (auto simp: within_def Let_def wfSections_Cons)
    then have "(\<exists>t \<in> set (s # secs). within fs sz m t) \<longleftrightarrow> fs + runeOffset m + sz \<le> End s"
      using inside by (auto simp: within_def Let_def)
    moreover have "fst (trimLoop fs sz (s # secs) ms) = filter (\<lambda>m. \<exists>t \<in> set (s # secs). within fs sz m t) ms"
      using "3.IH"(3) [OF refl refl inside] "3.prems" by simp
    ultimately show ?thesis using inside
      by (simp add: Let_def split_beta del: bex_simps)
  qed
qed simp_all

text \<open>The sections that are dropped end before the last candidate.\<close>

lemma trimLoop_rest:
  assumes "\<And>m. m \<in> set ms \<Longrightarrow> fs + runeOffset m < b"
  shows "\<exists>xs. secs = xs @ snd (trimLoop fs sz secs ms) \<and> (\<forall>s \<in> set xs. End s < b)"
  using assms
proof (induction fs sz secs ms rule: trimLoop.induct)
  case (3 fs sz s secs m ms)
  show ?case
  proof (cases "End s \<le> fs + runeOffset m")
    case True
    then obtain xs where "secs = xs @ snd (trimLoop fs sz secs (m # ms))" "\<forall>s \<in> set xs. End s < b"
      using "3.IH"(1) [OF refl refl True] "3.prems" by auto
    then show ?thesis using True "3.prems" [of m] by (intro exI [of _ "s # xs"]) auto
  next
    case False
    then have "snd (trimLoop fs sz (s # secs) (m # ms)) = snd (trimLoop fs sz (s # secs) ms)"
      by (simp add: Let_def split_beta)
    then show ?thesis using "3.IH"(2) [OF refl refl False] "3.IH"(3) [OF refl refl False] "3.prems"
      by (metis list.set_intros(2))
  qed
qed simp_all

definition trimSpec ::
  "('m \<Rightarrow> nat \<Rightarrow> candidateMatch list) \<Rightarrow> 'm trimBySectionMatchIter \<Rightarrow> nat \<Rightarrow> candidateMatch list" where
  "trimSpec spec i d = (let fs = startOf (fileEndRunes i) d in
     filter (\<lambda>m. \<exists>s \<in> set (sections i). fs \<le> Start s \<and> within fs (patternSize i) m s)
       (spec (trimIter i) d))"

text \<open>The candidates of a document lie in it, in increasing order.\<close>

definition inDoc :: "u32 list \<Rightarrow> nat \<Rightarrow> candidateMatch list \<Rightarrow> bool" where
  "inDoc es d ms \<longleftrightarrow> sorted_wrt (\<lambda>a b. runeOffset a < runeOffset b) ms \<and>
     (\<forall>m \<in> set ms. unat (startOf es d) + unat (runeOffset m) < unat (es ! d))"

definition trimReady ::
  "('m \<Rightarrow> nat \<Rightarrow> candidateMatch list) \<Rightarrow> (nat \<Rightarrow> 'm \<Rightarrow> nat \<Rightarrow> 'm \<Rightarrow> bool) \<Rightarrow> nat
     \<Rightarrow> 'm trimBySectionMatchIter \<Rightarrow> nat \<Rightarrow> 'm trimBySectionMatchIter \<Rightarrow> bool" where
  "trimReady spec ready D i0 k i \<longleftrightarrow> (let es = fileEndRunes i0 in
     ready D (trimIter i0) k (trimIter i) \<and> patternSize i = patternSize i0 \<and> fileEndRunes i = es \<and>
     length es = D \<and> D \<le> 1073741824 \<and> sorted es \<and> wfSections (sections i0) \<and>
     (\<forall>d < D. inDoc es d (spec (trimIter i0) d)) \<and>
     (\<exists>xs. sections i0 = xs @ sections i \<and> (\<forall>s \<in> set xs. Start s < startOf es k)))"

lemma wfSections_append: "wfSections (xs @ ys) \<Longrightarrow> wfSections ys"
  by (auto simp: wfSections_def sorted_wrt_append)

lemma wfSections_dropWhile:
  "wfSections secs \<Longrightarrow> s \<in> set (dropWhile (\<lambda>s. Start s < b) secs) \<Longrightarrow> b \<le> Start s"
proof (induction secs)
  case (Cons a secs)
  show ?case
  proof (cases "Start a < b \<or> s = a")
    case True
    then show ?thesis using Cons by (auto simp: wfSections_Cons split: if_splits)
  next
    case False
    then have "End a \<le> Start s" "Start a \<le> End a" using Cons.prems by (auto simp: wfSections_Cons)
    then show ?thesis using False by auto
  qed
qed simp

lemma trim_step:
  assumes wf: "wfSections secs0" and pre: "secs0 = xs @ secs" "\<forall>s \<in> set xs. Start s < startOf es k"
    and es: "sorted es" "k \<le> d" "d < length es" and ms: "inDoc es d ms"
    and run: "trimLoop (startOf es d) sz (dropWhile (\<lambda>s. Start s < startOf es d) secs) ms = (trimmed, rest)"
  shows "trimmed = filter (\<lambda>m. \<exists>s \<in> set secs0. startOf es d \<le> Start s \<and> within (startOf es d) sz m s) ms"
    and "\<exists>xs'. secs0 = xs' @ rest \<and> (\<forall>s \<in> set xs'. Start s < startOf es (Suc d))"
proof -
  let ?fs = "startOf es d" and ?secs = "dropWhile (\<lambda>s. Start s < startOf es d) secs"
  let ?ys = "takeWhile (\<lambda>s. Start s < startOf es d) secs"
  have wf': "wfSections secs" using wf pre(1) wfSections_append by metis
  moreover have "secs = ?ys @ ?secs" by simp
  ultimately have wf'': "wfSections ?secs" using wfSections_append by metis
  have add: "unat (?fs + runeOffset m) = unat ?fs + unat (runeOffset m)"
      "?fs + runeOffset m < es ! d" if "m \<in> set ms" for m
    using ms that unat_u32_less [of "es ! d"] unat_add_u32 [of ?fs "runeOffset m"]
    by (auto simp: inDoc_def word_less_nat_alt)
  have asc: "sorted_wrt (\<lambda>a b. ?fs + runeOffset a < ?fs + runeOffset b) ms"
    using ms add by (auto simp: inDoc_def word_less_nat_alt intro: sorted_wrt_mono_rel [rotated])
  have mono: "startOf es k \<le> ?fs" using startOf_mono es by blast
  have "?fs \<le> es ! d" using es by (auto simp: startOf_def intro: sorted_nth_mono)
  have early: "Start s < ?fs" if "s \<in> set xs \<union> set ?ys" for s
    using that pre(2) mono by (auto dest: set_takeWhileD)
  have "set secs0 = set xs \<union> set ?ys \<union> set ?secs"
    unfolding pre(1) by (subst \<open>secs = ?ys @ ?secs\<close>) (simp only: set_append Un_assoc)
  then have "s \<in> set ?secs \<longleftrightarrow> s \<in> set secs0 \<and> ?fs \<le> Start s" for s
    using early [of s] wfSections_dropWhile [OF wf', of s "startOf es d"] by (auto simp: not_less [symmetric])
  then have "(\<exists>s \<in> set secs0. ?fs \<le> Start s \<and> within ?fs sz m s) \<longleftrightarrow> (\<exists>s \<in> set ?secs. within ?fs sz m s)" for m
    by blast
  then show "trimmed = filter (\<lambda>m. \<exists>s \<in> set secs0. ?fs \<le> Start s \<and> within ?fs sz m s) ms"
    using trimLoop_filter [OF wf'' asc, of sz] run by simp
  obtain zs where zs: "?secs = zs @ rest" "\<forall>s \<in> set zs. End s < es ! d"
    using trimLoop_rest [of ms ?fs "es ! d" ?secs sz] add(2) run by auto
  have "Start s < es ! d" if "s \<in> set (xs @ ?ys @ zs)" for s
  proof (cases "s \<in> set zs")
    case True
    then have "Start s \<le> End s" using zs(1) wf'' by (simp add: wfSections_def)
    then show ?thesis using zs(2) True by auto
  next
    case False
    then have "Start s < ?fs" using that early by simp
    then show ?thesis using \<open>?fs \<le> es ! d\<close> by simp
  qed
  moreover have "secs0 = (xs @ ?ys @ zs) @ rest"
    unfolding pre(1) by (subst \<open>secs = ?ys @ ?secs\<close>, subst zs(1)) simp
  ultimately show "\<exists>xs'. secs0 = xs' @ rest \<and> (\<forall>s \<in> set xs'. Start s < startOf es (Suc d))"
    by (metis diff_Suc_1 nat.distinct(1) startOf_def)
qed

context match_iterator
begin

lemma trim_match_iterator:
  "match_iterator (trimNextDoc nextDoc) (trimPrepare prepare) (trimCandidates candidates)
     (trimSpec spec) (trimReady spec ready)"
proof
  fix D d k and i0 i :: "'m trimBySectionMatchIter" assume r: "trimReady spec ready D i0 k i"
  let ?es = "fileEndRunes i0"
  from r have m: "ready D (trimIter i0) k (trimIter i)" and len: "length ?es = D" "D \<le> 1073741824"
    and same: "patternSize i = patternSize i0" "fileEndRunes i = ?es"
    by (auto simp: trimReady_def Let_def)
  show "\<exists>n i'. trimNextDoc nextDoc i = Some (n, i') \<and> trimReady spec ready D i0 k i' \<and>
      (\<forall>e. k \<le> e \<longrightarrow> e < D \<longrightarrow> trimSpec spec i0 e \<noteq> [] \<longrightarrow> unat n \<le> e)"
  proof -
    obtain n m' where n: "nextDoc (trimIter i) = Some (n, m')" "ready D (trimIter i0) k m'"
      "\<forall>e. k \<le> e \<longrightarrow> e < D \<longrightarrow> spec (trimIter i0) e \<noteq> [] \<longrightarrow> unat n \<le> e"
      using nextDoc_law [OF m] by blast
    moreover have "spec (trimIter i0) e \<noteq> []" if "trimSpec spec i0 e \<noteq> []" for e
      using that by (auto simp: trimSpec_def Let_def)
    ultimately show ?thesis using r
      by (intro exI [of _ n] exI [of _ "i\<lparr>trimIter := m'\<rparr>"]) (auto simp: trimNextDoc_def trimReady_def Let_def)
  qed
  show "\<exists>i' i''. trimPrepare prepare (of_nat d) i = Some i' \<and>
      trimCandidates candidates i' = Some (trimSpec spec i0 d, i'') \<and> trimReady spec ready D i0 (Suc d) i''"
    if d: "k \<le> d" "d < D"
  proof -
    obtain m' m'' where p: "prepare (of_nat d) (trimIter i) = Some m'"
      "candidates m' = Some (spec (trimIter i0) d, m'')" "ready D (trimIter i0) (Suc d) m''"
      using prepare_law [OF m d] by blast
    have start: "docStart ?es (of_nat d) = Some (startOf ?es d)"
      using docStart_startOf d len by simp
    let ?secs = "dropWhile (\<lambda>s. Start s < startOf ?es d) (sections i)"
    let ?i' = "i\<lparr>trimIter := m', trimDoc := of_nat d, sections := ?secs\<rparr>"
    obtain trimmed rest where run: "trimLoop (startOf ?es d) (patternSize i0) ?secs (spec (trimIter i0) d) = (trimmed, rest)"
      by force
    obtain xs where "sections i0 = xs @ sections i" "\<forall>s \<in> set xs. Start s < startOf ?es k"
      and "wfSections (sections i0)" "sorted ?es" "inDoc ?es d (spec (trimIter i0) d)"
      using r d by (auto simp: trimReady_def Let_def)
    note step = trim_step [OF this(3) this(1,2,4) d(1) _ this(5) run, unfolded len(1), OF d(2)]
    let ?i'' = "?i'\<lparr>trimIter := m'', sections := rest\<rparr>"
    have "trimPrepare prepare (of_nat d) i = Some ?i'" using p(1) start same by (simp add: trimPrepare_def)
    moreover have "trimCandidates candidates ?i' = Some (trimSpec spec i0 d, ?i'')"
      using p(2) start same run step(1) by (simp add: trimCandidates_def trimSpec_def Let_def)
    moreover have "trimReady spec ready D i0 (Suc d) ?i''"
      using r p(3) step(2) unfolding trimReady_def Let_def by simp
    ultimately show ?thesis by blast
  qed
qed

end

section \<open>The iterator of a substring query\<close>

datatype matchIterator =
    Results "baseIterator ngramIterationResults"
  | TrimBySection "baseIterator ngramIterationResults trimBySectionMatchIter"

interpretation res: match_iterator "resNextDoc baseNextDoc" "resPrepare basePrepare"
    "resCandidates baseCandidates" "resSpec baseSpec" "resReady baseReady"
  by (rule base.results_match_iterator)

interpretation trim: match_iterator "trimNextDoc (resNextDoc baseNextDoc)" "trimPrepare (resPrepare basePrepare)"
    "trimCandidates (resCandidates baseCandidates)" "trimSpec (resSpec baseSpec)"
    "trimReady (resSpec baseSpec) (resReady baseReady)"
  by (rule res.trim_match_iterator)

fun miNextDoc :: "matchIterator \<Rightarrow> (u32 \<times> matchIterator) option" where
  "miNextDoc (Results r) = map_option (\<lambda>(n, r'). (n, Results r')) (resNextDoc baseNextDoc r)"
| "miNextDoc (TrimBySection i) = map_option (\<lambda>(n, i'). (n, TrimBySection i')) (trimNextDoc (resNextDoc baseNextDoc) i)"

fun miPrepare :: "u32 \<Rightarrow> matchIterator \<Rightarrow> matchIterator option" where
  "miPrepare d (Results r) = map_option Results (resPrepare basePrepare d r)"
| "miPrepare d (TrimBySection i) = map_option TrimBySection (trimPrepare (resPrepare basePrepare) d i)"

fun miCandidates :: "matchIterator \<Rightarrow> (candidateMatch list \<times> matchIterator) option" where
  "miCandidates (Results r) = map_option (\<lambda>(cs, r'). (cs, Results r')) (resCandidates baseCandidates r)"
| "miCandidates (TrimBySection i) =
     map_option (\<lambda>(cs, i'). (cs, TrimBySection i')) (trimCandidates (resCandidates baseCandidates) i)"

fun miSpec :: "matchIterator \<Rightarrow> nat \<Rightarrow> candidateMatch list" where
  "miSpec (Results r) d = resSpec baseSpec r d"
| "miSpec (TrimBySection i) d = trimSpec (resSpec baseSpec) i d"

fun miReady :: "nat \<Rightarrow> matchIterator \<Rightarrow> nat \<Rightarrow> matchIterator \<Rightarrow> bool" where
  "miReady D (Results r0) k (Results r) \<longleftrightarrow> resReady baseReady D r0 k r"
| "miReady D (TrimBySection i0) k (TrimBySection i) \<longleftrightarrow> trimReady (resSpec baseSpec) (resReady baseReady) D i0 k i"
| "miReady D _ k _ \<longleftrightarrow> False"

interpretation mi: match_iterator miNextDoc miPrepare miCandidates miSpec miReady
proof unfold_locales
  fix D m0 k m d assume r: "miReady D m0 k m"
  show "\<exists>n m'. miNextDoc m = Some (n, m') \<and> miReady D m0 k m' \<and>
      (\<forall>e. k \<le> e \<longrightarrow> e < D \<longrightarrow> miSpec m0 e \<noteq> [] \<longrightarrow> unat n \<le> e)"
    using r res.nextDoc_law trim.nextDoc_law by (cases "(D, m0, k, m)" rule: miReady.cases) fastforce+
  show "\<exists>m' m''. miPrepare (of_nat d) m = Some m' \<and> miCandidates m' = Some (miSpec m0 d, m'') \<and>
        miReady D m0 (Suc d) m''" if "k \<le> d" "d < D"
    using r res.prepare_law [OF _ that] trim.prepare_law [OF _ that]
    by (cases "(D, m0, k, m)" rule: miReady.cases) fastforce+
qed

section \<open>Initial states\<close>

lemma ndReady_init:
  "hiInv (iter i) \<Longrightarrow> wfEnds (leftPad i) (ends i) \<Longrightarrow> fileIdx i = 0 \<Longrightarrow>
    ndReady hiHits hiInv (hiHits (iter i)) 0 i"
  by (simp add: ndReady_def)

fun baseWf :: "nat \<Rightarrow> baseIterator \<Rightarrow> bool" where
  "baseWf D (NoMatchIter why) \<longleftrightarrow> True"
| "baseWf D (NgramDoc i) \<longleftrightarrow> hiInv (iter i) \<and> wfEnds (leftPad i) (ends i) \<and> fileIdx i = 0 \<and> length (ends i) = D"

lemma baseReady_init: "baseWf D m \<Longrightarrow> baseReady D m 0 m"
  by (cases m) (auto intro: ndReady_init)

lemma fits_sub:
  assumes wf: "wfEnds lpad es" and d: "d < length es" and f: "fits lpad rpad es d p"
  shows "unat (startOf es d) + unat (p - startOf es d - lpad) = unat p - unat lpad"
    and "unat lpad \<le> unat p"
proof -
  have "startOf es d \<in> insert 0 (set es)" using d by (auto simp: startOf_def)
  then have w: "unat (lpad + startOf es d) = unat lpad + unat (startOf es d)"
    using wf unat_u32_less [of lpad] by (auto simp: wfEnds_def add.commute intro!: unat_add_u32)
  then have le: "unat lpad + unat (startOf es d) \<le> unat p" using f by (simp add: fits_def word_le_nat_alt)
  then have "unat (p - startOf es d) = unat p - unat (startOf es d)"
    by (intro unat_sub_u32) (simp add: word_le_nat_alt)
  moreover from this have "unat (p - startOf es d - lpad) = unat (p - startOf es d) - unat lpad"
    using le by (intro unat_sub_u32) (simp add: word_le_nat_alt)
  ultimately show "unat (startOf es d) + unat (p - startOf es d - lpad) = unat p - unat lpad"
    "unat lpad \<le> unat p" using le by simp_all
qed

lemma inDoc_candsOf:
  assumes wf: "wfEnds lpad es" and d: "d < length es"
  shows "inDoc es d (candsOf lpad rpad es H d)"
proof -
  let ?ps = "sorted_list_of_set {p \<in> H. fits lpad rpad es d p}"
  have ps: "fits lpad rpad es d p" if "p \<in> set ?ps" for p using that by simp
  have "p - startOf es d - lpad < q - startOf es d - lpad" if "p \<in> set ?ps" "q \<in> set ?ps" "p < q" for p q
    using fits_sub [OF wf d ps [OF that(1)]] fits_sub [OF wf d ps [OF that(2)]] that(3)
    by (simp add: word_less_nat_alt)
  then have "sorted_wrt (\<lambda>p q. p - startOf es d - lpad < q - startOf es d - lpad) ?ps"
    by (intro sorted_wrt_mono_rel [OF _ strict_sorted_list_of_set]) blast
  moreover have "unat (startOf es d) + unat (p - startOf es d - lpad) < unat (es ! d)" if "p \<in> set ?ps" for p
    using fits_sub [OF wf d ps [OF that]] ps [OF that]
    by (simp add: fits_def word_less_nat_alt less_imp_diff_less)
  ultimately show ?thesis by (auto simp: inDoc_def candsOf_def sorted_wrt_map)
qed

fun miWf :: "nat \<Rightarrow> matchIterator \<Rightarrow> bool" where
  "miWf D (Results r) \<longleftrightarrow> baseWf D (resIter r)"
| "miWf D (TrimBySection i) \<longleftrightarrow> baseWf D (resIter (trimIter i)) \<and> wfSections (sections i) \<and>
     length (fileEndRunes i) = D \<and> D \<le> 1073741824 \<and> sorted (fileEndRunes i) \<and>
     (case resIter (trimIter i) of NgramDoc j \<Rightarrow> ends j = fileEndRunes i | NoMatchIter _ \<Rightarrow> True)"

lemma inDoc_fill: "inDoc es d (map (fillPattern r) ms) = inDoc es d ms"
  by (simp add: inDoc_def sorted_wrt_map fillPattern_def)

lemma miReady_init:
  assumes "miWf D m"
  shows "miReady D m 0 m"
proof (cases m)
  case (Results r)
  then show ?thesis using assms baseReady_init by (simp add: resReady_def)
next
  case (TrimBySection i)
  have "inDoc (fileEndRunes i) d (baseSpec (resIter (trimIter i)) d)" if "d < D" for d
  proof (cases "resIter (trimIter i)")
    case (NgramDoc j)
    have "wfEnds (leftPad j) (ends j)" "ends j = fileEndRunes i" "length (ends j) = D"
      using assms unfolding TrimBySection miWf.simps NgramDoc baseWf.simps baseIterator.case
      by blast+
    then show ?thesis using that NgramDoc inDoc_candsOf [of "leftPad j" "ends j" d] by simp
  qed (simp add: inDoc_def)
  then show ?thesis using assms TrimBySection baseReady_init
    by (simp add: trimReady_def resReady_def resSpec_def inDoc_fill Let_def)
qed

section \<open>Properties\<close>

text \<open>C8: the candidate iterator of a substring query, with or without the restriction to document
  sections, never skips a document that has a candidate, and after \<^verbatim>\<open>prepare(d)\<close> its
  \<^verbatim>\<open>candidates\<close> are exactly those of document \<open>d\<close>: the hits of the trigram (pair) for
  which the whole pattern lies in the document, in order, and inside a section of the document when
  sections are required. This holds after any number of skipped documents.\<close>

theorem matchIterator_contract:
  assumes "miReady D m0 k m" and "k \<le> d" and "d < D"
  shows "\<exists>n m1 m2 m3. miNextDoc m = Some (n, m1) \<and> miReady D m0 k m1 \<and>
      (\<forall>e. k \<le> e \<longrightarrow> e < D \<longrightarrow> miSpec m0 e \<noteq> [] \<longrightarrow> unat n \<le> e) \<and>
      miPrepare (of_nat d) m1 = Some m2 \<and> miCandidates m2 = Some (miSpec m0 d, m3) \<and>
      miReady D m0 (Suc d) m3"
  using mi.nextDoc_law [OF assms(1)] mi.prepare_law [OF _ assms(2,3)] by blast

definition sampleIter :: matchIterator where
  "sampleIter = Results \<lparr>resIter = NgramDoc \<lparr>leftPad = 1, rightPad = 4,
       iter = Trigram (Single (InMemory \<lparr>postings = [2, 12], memWhat = 5\<rparr>)),
       ends = [10, 30], fileIdx = 0, matchCount = 0\<rparr>,
     resCaseSensitive = True, resFileName = False, resSubstrBytes = [], resSubstrLowered = []\<rparr>"

lemma sampleIter_wf: "miWf 2 sampleIter"
  by (simp add: sampleIter_def ascending_def wfEnds_def)

lemma sampleIter_cands: "miSpec sampleIter (Suc 0) \<noteq> []"
  by (simp add: sampleIter_def resSpec_def candsOf_nonempty fits_def startOf_def)

theorem matchIterator_contract_witness:
  "miReady 2 sampleIter 0 sampleIter \<and> miSpec sampleIter (Suc 0) \<noteq> [] \<and>
   (\<exists>n m1 m2 m3. miNextDoc sampleIter = Some (n, m1) \<and> unat n \<le> Suc 0 \<and>
      miPrepare 1 m1 = Some m2 \<and> miCandidates m2 = Some (miSpec sampleIter (Suc 0), m3))"
proof -
  have r: "miReady 2 sampleIter 0 sampleIter" using miReady_init [OF sampleIter_wf] .
  from matchIterator_contract [OF r, of "Suc 0"] sampleIter_cands show ?thesis
    using r by fastforce
qed

end
