(* ===== verification/Zoekt_Section.thy ===== *)
theory Zoekt_Section
  imports Go_Std
begin

text \<open>
  The layers between the index and its file: file access (\<^verbatim>\<open>indexfile_linux.go\<close>,
  \<^verbatim>\<open>indexfile.go\<close>), the writer and the sections of \<^verbatim>\<open>section.go\<close>, the table of contents of
  \<^verbatim>\<open>toc.go\<close>, and their readers and writers in \<^verbatim>\<open>read.go\<close> and \<^verbatim>\<open>write.go\<close>.

  The interface \<^verbatim>\<open>IndexFile\<close> is the locale \<open>index_file\<close>; the readers are parametric in its
  methods and are proved correct in the locale. A reader returns the value and the new position.
\<close>

unbundle bit_operations_syntax

section \<open>Index files\<close>

text \<open>\<open>contents f\<close> are the bytes of the file. A read within the file returns them, with some
  spare capacity behind.\<close>

locale index_file =
  fixes read :: "'f \<Rightarrow> u32 \<Rightarrow> u32 \<Rightarrow> goslice res"
    and size :: "'f \<Rightarrow> u32 res"
    and contents :: "'f \<Rightarrow> bytes"
    and valid :: "'f \<Rightarrow> bool"
  assumes read_law: "valid f \<Longrightarrow> unat off + unat sz \<le> length (contents f) \<Longrightarrow>
      \<exists>spare. read f off sz = Inr (slice (unat off) (unat off + unat sz) (contents f), spare)"
    and size_law: "valid f \<Longrightarrow> size f = Inr (of_nat (length (contents f)))"
    and length_law: "valid f \<Longrightarrow> length (contents f) < 4294967295"

record mmapedIndexFile =
  mmName :: bytes
  mmSize :: u32
  mmData :: bytes

definition mmRead :: "mmapedIndexFile \<Rightarrow> u32 \<Rightarrow> u32 \<Rightarrow> goslice res" where
  "mmRead f off sz =
     (if of_nat (length (mmData f)) < off + sz then Inl (GoErr ''out of bounds'')
      else if off + sz < off then Inl (GoPanic ''slice bounds out of range'')
      else Inr (slice (unat off) (unat (off + sz)) (mmData f), drop (unat (off + sz)) (mmData f)))"

definition mmSizeOf :: "mmapedIndexFile \<Rightarrow> u32 res" where
  "mmSizeOf f = Inr (mmSize f)"

text \<open>\<^verbatim>\<open>NewIndexFile\<close> on Linux: the mapping is rounded up to pages, with zeros behind the end of
  the file. The rounding wraps for the last sizes below \<open>2\<^sup>3\<^sup>2\<close>, and mapping no bytes fails.\<close>

definition newMmapedIndexFile :: "bytes \<Rightarrow> bytes \<Rightarrow> mmapedIndexFile res" where
  "newMmapedIndexFile name F =
     (if 4294967295 \<le> length F then Inl (GoErr ''file too large'')
      else let size = of_nat (length F); rounded = (size + 4095) AND NOT 4095 in
        if rounded = 0 then Inl (GoErr ''invalid argument'')
        else Inr \<lparr>mmName = name, mmSize = size,
                  mmData = F @ replicate (unat rounded - length F) 0\<rparr>)"

text \<open>The portable implementation reads from the operating system's file.\<close>

record indexFileFromOS =
  osName :: bytes
  osBytes :: bytes

definition osRead :: "indexFileFromOS \<Rightarrow> u32 \<Rightarrow> u32 \<Rightarrow> goslice res" where
  "osRead f off sz =
     (if sz = 0 \<or> unat off + unat sz \<le> length (osBytes f)
      then Inr (slice (unat off) (unat off + unat sz) (osBytes f), [])
      else Inl (GoErr ''EOF''))"

definition osSize :: "indexFileFromOS \<Rightarrow> u32 res" where
  "osSize f = (if 4294967295 \<le> length (osBytes f) then Inl (GoErr ''overflow'')
     else Inr (of_nat (length (osBytes f))))"

text \<open>A mapping that holds the file and padding.\<close>

definition mmValid :: "mmapedIndexFile \<Rightarrow> bool" where
  "mmValid f \<longleftrightarrow> unat (mmSize f) \<le> length (mmData f) \<and> length (mmData f) < 4294967296 \<and>
     mmSize f \<noteq> maxUInt32"

definition mmContents :: "mmapedIndexFile \<Rightarrow> bytes" where
  "mmContents f = take (unat (mmSize f)) (mmData f)"

lemma and_not_sub: "(x::u32) AND NOT m = x - (x AND m)"
proof -
  have "(x AND NOT m) + (x AND m) = (x AND NOT m) OR (x AND m)"
    by (rule disjunctive_add) (auto simp: bit_simps)
  also have "\<dots> = x" by (rule bit_word_eqI) (auto simp: bit_simps)
  finally show ?thesis by (simp add: eq_diff_eq)
qed

lemma round_up:
  assumes "n + 4095 < 4294967296"
  shows "n \<le> unat ((of_nat n + 4095 :: u32) AND NOT 4095)"
    and "unat ((of_nat n + 4095 :: u32) AND NOT 4095) \<le> n + 4095"
proof -
  let ?w = "of_nat n + 4095 :: u32"
  have w: "unat ?w = n + 4095" using assms unat_add_u32 [of "of_nat n" 4095] by (simp add: unat_of_nat_u32)
  have "(?w AND 4095) \<le> 4095" "(?w AND 4095) \<le> ?w" by (simp_all add: word_and_le1 word_and_le2)
  then have "unat (?w AND NOT 4095) = unat ?w - unat (?w AND 4095)" "unat (?w AND 4095) \<le> 4095"
    unfolding and_not_sub by (simp_all add: unat_sub_u32 word_le_nat_alt)
  then show "n \<le> unat (?w AND NOT 4095)" "unat (?w AND NOT 4095) \<le> n + 4095" using w by simp_all
qed

lemma newMmapedIndexFile_valid:
  assumes "0 < length F" "length F + 4095 < 4294967296"
  shows "\<exists>f. newMmapedIndexFile name F = Inr f \<and> mmValid f \<and> mmContents f = F"
proof -
  let ?r = "(of_nat (length F) + 4095 :: u32) AND NOT 4095"
  note r = round_up [OF assms(2)]
  have len: "unat (of_nat (length F) :: u32) = length F" using assms by (intro unat_of_nat_u32) simp
  have "?r \<noteq> 0" using r(1) assms(1) by auto
  moreover have "(of_nat (length F) :: u32) \<noteq> maxUInt32"
  proof
    assume "(of_nat (length F) :: u32) = maxUInt32"
    then have "length F = unat maxUInt32" using len by simp
    then show False using assms(2) by simp
  qed
  ultimately show ?thesis using r assms len
    by (auto simp: newMmapedIndexFile_def Let_def mmValid_def mmContents_def)
qed

interpretation mm: index_file mmRead mmSizeOf mmContents mmValid
proof unfold_locales
  fix f and off sz :: u32 assume v: "mmValid f"
  have lend: "unat (of_nat (length (mmData f)) :: u32) = length (mmData f)"
    using v by (intro unat_of_nat_u32) (simp add: mmValid_def)
  have lenc: "length (mmContents f) = unat (mmSize f)" using v by (simp add: mmContents_def mmValid_def)
  show "mmSizeOf f = Inr (of_nat (length (mmContents f)))" by (simp add: lenc mmSizeOf_def)
  have "unat (mmSize f) \<noteq> 4294967295" using v by (simp add: mmValid_def word_unat_eq_iff)
  then show "length (mmContents f) < 4294967295" using lenc unat_u32_less [of "mmSize f"] by simp
  assume b: "unat off + unat sz \<le> length (mmContents f)"
  then have lt: "unat off + unat sz < 4294967296" using lenc unat_u32_less [of "mmSize f"] by simp
  note sum = unat_add_u32 [OF lt]
  have "unat off + unat sz \<le> length (mmData f)" using b lenc v by (simp add: mmValid_def)
  moreover have "slice (unat off) (unat off + unat sz) (mmContents f)
      = slice (unat off) (unat off + unat sz) (mmData f)"
    using b lenc by (simp add: slice_def mmContents_def drop_take min_def)
  ultimately show "\<exists>spare. mmRead f off sz = Inr (slice (unat off) (unat off + unat sz) (mmContents f), spare)"
    using lend sum by (simp add: mmRead_def word_less_nat_alt)
qed

interpretation os: index_file osRead osSize osBytes "\<lambda>f. length (osBytes f) < 4294967295"
  by unfold_locales (auto simp: osRead_def osSize_def)

section \<open>The writer\<close>

text \<open>The bytes that went to the underlying \<^verbatim>\<open>io.Writer\<close>, which takes \<open>room\<close> more bytes
  before it fails (\<open>None\<close>: it never does), the offset and the first error.\<close>

record writer =
  werr :: "go_error option"
  wbytes :: bytes
  woff :: u32
  room :: "nat option"

definition Write :: "bytes \<Rightarrow> writer \<Rightarrow> writer" where
  "Write b w =
     (case werr w of Some e \<Rightarrow> w
      | None \<Rightarrow>
          let n = (case room w of None \<Rightarrow> length b | Some k \<Rightarrow> min k (length b)) in
            w\<lparr>wbytes := wbytes w @ take n b, woff := woff w + of_nat n,
              room := map_option (\<lambda>k. k - n) (room w),
              werr := (if n < length b then Some (GoErr ''short write'') else None)\<rparr>)"

definition writeB :: "u8 \<Rightarrow> writer \<Rightarrow> writer" where
  "writeB b w = Write [b] w"

definition writeU32 :: "u32 \<Rightarrow> writer \<Rightarrow> writer" where
  "writeU32 n w = Write (putUint32 n) w"

definition writeU64 :: "u64 \<Rightarrow> writer \<Rightarrow> writer" where
  "writeU64 n w = Write (putUint64 n) w"

definition writeVarint :: "u32 \<Rightarrow> writer \<Rightarrow> writer" where
  "writeVarint n w = Write (putUvarint (ucast n)) w"

text \<open>A writer without errors, and what an operation appended to it.\<close>

definition wgood :: "writer \<Rightarrow> bool" where
  "wgood w \<longleftrightarrow> werr w = None \<and> room w = None \<and> woff w = of_nat (length (wbytes w))"

definition wrote :: "writer \<Rightarrow> bytes \<Rightarrow> writer \<Rightarrow> bool" where
  "wrote w bs w' \<longleftrightarrow> wgood w' \<and> wbytes w' = wbytes w @ bs"

lemma wrote_Write: "wgood w \<Longrightarrow> wrote w b (Write b w)"
  by (simp add: wgood_def wrote_def Write_def)

lemma wrote_refl: "wgood w \<Longrightarrow> wrote w [] w"
  by (simp add: wrote_def)

lemma wrote_trans: "wrote w a w1 \<Longrightarrow> wrote w1 b w2 \<Longrightarrow> wrote w (a @ b) w2"
  by (simp add: wrote_def)

lemma wrote_good: "wrote w a w' \<Longrightarrow> wgood w'"
  by (simp add: wrote_def)

lemma Write_error_sticky: "werr w = Some e \<Longrightarrow> Write b w = w"
  by (simp add: Write_def)

section \<open>Sections\<close>

record simpleSection =
  secOff :: u32
  secSz :: u32

definition zeroSection :: simpleSection where
  "zeroSection = \<lparr>secOff = 0, secSz = 0\<rparr>"

definition sectionStart :: "writer \<Rightarrow> simpleSection \<Rightarrow> simpleSection" where
  "sectionStart w s = s\<lparr>secOff := woff w\<rparr>"

definition sectionEnd :: "writer \<Rightarrow> simpleSection \<Rightarrow> simpleSection" where
  "sectionEnd w s = s\<lparr>secSz := woff w - secOff s\<rparr>"

definition simpleWrite :: "simpleSection \<Rightarrow> writer \<Rightarrow> writer" where
  "simpleWrite s w = writeU32 (secSz s) (writeU32 (secOff s) w)"

record compoundSection =
  csData :: simpleSection
  csOffsets :: "u32 list"
  csIndex :: simpleSection

definition zeroCompound :: compoundSection where
  "zeroCompound = \<lparr>csData = zeroSection, csOffsets = [], csIndex = zeroSection\<rparr>"

definition compoundStart :: "writer \<Rightarrow> compoundSection \<Rightarrow> compoundSection" where
  "compoundStart w s = s\<lparr>csData := sectionStart w (csData s)\<rparr>"

definition addItem :: "bytes \<Rightarrow> compoundSection \<times> writer \<Rightarrow> compoundSection \<times> writer" where
  "addItem item = (\<lambda>(s, w). (s\<lparr>csOffsets := csOffsets s @ [woff w]\<rparr>, Write item w))"

definition compoundEnd :: "compoundSection \<times> writer \<Rightarrow> compoundSection \<times> writer" where
  "compoundEnd = (\<lambda>(s, w).
     let s1 = s\<lparr>csData := sectionEnd w (csData s)\<rparr>;
         s2 = s1\<lparr>csIndex := sectionStart w (csIndex s1)\<rparr>;
         w2 = fold writeU32 (csOffsets s2) w
     in (s2\<lparr>csIndex := sectionEnd w2 (csIndex s2)\<rparr>, w2))"

definition compoundWrite :: "compoundSection \<Rightarrow> writer \<Rightarrow> writer" where
  "compoundWrite s w = simpleWrite (csIndex s) (simpleWrite (csData s) w)"

definition relativeIndex :: "compoundSection \<Rightarrow> u32 list" where
  "relativeIndex s =
     (case csOffsets s of [] \<Rightarrow> []
      | o0 # _ \<Rightarrow> map (\<lambda>p. p - o0) (csOffsets s) @ [secSz (csData s)])"

text \<open>The patterns of \<^verbatim>\<open>write.go\<close>: a section around one write, and a compound section around a
  list of items.\<close>

definition writeSection :: "bytes \<Rightarrow> writer \<Rightarrow> simpleSection \<times> writer" where
  "writeSection b w = (let s = sectionStart w zeroSection; w' = Write b w in (sectionEnd w' s, w'))"

definition writeStrings :: "bytes list \<Rightarrow> writer \<Rightarrow> compoundSection \<times> writer" where
  "writeStrings strs w = compoundEnd (fold addItem strs (compoundStart w zeroCompound, w))"

section \<open>Readers\<close>

definition readerU32 :: "('f \<Rightarrow> u32 \<Rightarrow> u32 \<Rightarrow> goslice res) \<Rightarrow> 'f \<Rightarrow> u32 \<Rightarrow> (u32 \<times> u32) res" where
  "readerU32 read f off = rbind (read f off 4) (\<lambda>b. Inr (uint32 (fst b), off + 4))"

definition readerU64 :: "('f \<Rightarrow> u32 \<Rightarrow> u32 \<Rightarrow> goslice res) \<Rightarrow> 'f \<Rightarrow> u32 \<Rightarrow> (u64 \<times> u32) res" where
  "readerU64 read f off = rbind (read f off 8) (\<lambda>b. Inr (uint64 (fst b), off + 8))"

definition simpleRead ::
  "('f \<Rightarrow> u32 \<Rightarrow> u32 \<Rightarrow> goslice res) \<Rightarrow> 'f \<Rightarrow> u32 \<Rightarrow> (simpleSection \<times> u32) res" where
  "simpleRead read f off =
     rbind (readerU32 read f off) (\<lambda>(o1, off1).
     rbind (readerU32 read f off1) (\<lambda>(s1, off2). Inr (\<lparr>secOff = o1, secSz = s1\<rparr>, off2)))"

text \<open>The loops of \<^verbatim>\<open>readSectionU32\<close> and \<^verbatim>\<open>readSectionU64\<close>; \<^verbatim>\<open>binary.BigEndian.Uint32\<close> panics
  on a short blob, which the test of the size rules out.\<close>

fun decodeU32s :: "bytes \<Rightarrow> u32 list" where
  "decodeU32s (b0 # b1 # b2 # b3 # bs) = uint32 [b0, b1, b2, b3] # decodeU32s bs"
| "decodeU32s _ = []"

fun decodeU64s :: "bytes \<Rightarrow> u64 list" where
  "decodeU64s (b0 # b1 # b2 # b3 # b4 # b5 # b6 # b7 # bs) =
     uint64 [b0, b1, b2, b3, b4, b5, b6, b7] # decodeU64s bs"
| "decodeU64s _ = []"

definition readSectionU32 ::
  "('f \<Rightarrow> u32 \<Rightarrow> u32 \<Rightarrow> goslice res) \<Rightarrow> 'f \<Rightarrow> simpleSection \<Rightarrow> u32 list res" where
  "readSectionU32 read f sec =
     (if secSz sec mod 4 \<noteq> 0 then Inl (GoErr ''barf: section size % 4 != 0'')
      else rbind (read f (secOff sec) (secSz sec)) (\<lambda>b. Inr (decodeU32s (fst b))))"

definition readSectionU64 ::
  "('f \<Rightarrow> u32 \<Rightarrow> u32 \<Rightarrow> goslice res) \<Rightarrow> 'f \<Rightarrow> simpleSection \<Rightarrow> u64 list res" where
  "readSectionU64 read f sec =
     (if secSz sec mod 8 \<noteq> 0 then Inl (GoErr ''barf: section size % 8 != 0'')
      else rbind (read f (secOff sec) (secSz sec)) (\<lambda>b. Inr (decodeU64s (fst b))))"

definition compoundRead ::
  "('f \<Rightarrow> u32 \<Rightarrow> u32 \<Rightarrow> goslice res) \<Rightarrow> 'f \<Rightarrow> u32 \<Rightarrow> (compoundSection \<times> u32) res" where
  "compoundRead read f off =
     rbind (simpleRead read f off) (\<lambda>(d, off1).
     rbind (simpleRead read f off1) (\<lambda>(i, off2).
     rbind (readSectionU32 read f i) (\<lambda>offs.
       Inr (\<lparr>csData = d, csOffsets = offs, csIndex = i\<rparr>, off2))))"

section \<open>The table of contents\<close>

record indexTOC =
  tocFileContents :: compoundSection
  tocFileNames :: compoundSection
  tocFileSections :: compoundSection
  tocPostings :: compoundSection
  tocNewlines :: compoundSection
  tocNgramText :: simpleSection
  tocRuneOffsets :: simpleSection
  tocFileEndRunes :: simpleSection
  tocLanguages :: simpleSection
  tocBranchMasks :: simpleSection
  tocSubRepos :: simpleSection
  tocNameNgramText :: simpleSection
  tocNamePostings :: compoundSection
  tocNameRuneOffsets :: simpleSection
  tocMetaData :: simpleSection
  tocRepoMetaData :: simpleSection
  tocNameEndRunes :: simpleSection
  tocContentChecksums :: simpleSection
  tocRuneDocSections :: simpleSection

text \<open>The writers of \<^verbatim>\<open>sections()\<close>, in its order.\<close>

definition sectionWriters :: "indexTOC \<Rightarrow> (writer \<Rightarrow> writer) list" where
  "sectionWriters t = [simpleWrite (tocMetaData t),
     simpleWrite (tocRepoMetaData t),
     compoundWrite (tocFileContents t),
     compoundWrite (tocFileNames t),
     compoundWrite (tocFileSections t),
     compoundWrite (tocNewlines t),
     simpleWrite (tocNgramText t),
     compoundWrite (tocPostings t),
     simpleWrite (tocNameNgramText t),
     compoundWrite (tocNamePostings t),
     simpleWrite (tocBranchMasks t),
     simpleWrite (tocSubRepos t),
     simpleWrite (tocRuneOffsets t),
     simpleWrite (tocNameRuneOffsets t),
     simpleWrite (tocFileEndRunes t),
     simpleWrite (tocNameEndRunes t),
     simpleWrite (tocContentChecksums t),
     simpleWrite (tocLanguages t),
     simpleWrite (tocRuneDocSections t)]"

definition writeTOC :: "indexTOC \<Rightarrow> writer \<Rightarrow> writer" where
  "writeTOC t w = fold (\<lambda>s. s) (sectionWriters t) (writeU32 (of_nat (length (sectionWriters t))) w)"

text \<open>\<^verbatim>\<open>readTOC\<close>: the last eight bytes of the file locate the table.\<close>

definition readTOC ::
  "('f \<Rightarrow> u32 \<Rightarrow> u32 \<Rightarrow> goslice res) \<Rightarrow> ('f \<Rightarrow> u32 res) \<Rightarrow> 'f \<Rightarrow> indexTOC res" where
  "readTOC read sizeOf f =
     rbind (sizeOf f) (\<lambda>sz.
     rbind (simpleRead read f (sz - 8)) (\<lambda>(tocSection, _).
     rbind (readerU32 read f (secOff tocSection)) (\<lambda>(sectionCount, p0).
     if sectionCount \<noteq> 19 then Inl (GoErr ''section count mismatch'') else
     rbind (simpleRead read f p0) (\<lambda>(metaData', p1).
     rbind (simpleRead read f p1) (\<lambda>(repoMetaData', p2).
     rbind (compoundRead read f p2) (\<lambda>(fileContents', p3).
     rbind (compoundRead read f p3) (\<lambda>(fileNames', p4).
     rbind (compoundRead read f p4) (\<lambda>(fileSections', p5).
     rbind (compoundRead read f p5) (\<lambda>(newlines', p6).
     rbind (simpleRead read f p6) (\<lambda>(ngramText', p7).
     rbind (compoundRead read f p7) (\<lambda>(postings', p8).
     rbind (simpleRead read f p8) (\<lambda>(nameNgramText', p9).
     rbind (compoundRead read f p9) (\<lambda>(namePostings', p10).
     rbind (simpleRead read f p10) (\<lambda>(branchMasks', p11).
     rbind (simpleRead read f p11) (\<lambda>(subRepos', p12).
     rbind (simpleRead read f p12) (\<lambda>(runeOffsets', p13).
     rbind (simpleRead read f p13) (\<lambda>(nameRuneOffsets', p14).
     rbind (simpleRead read f p14) (\<lambda>(fileEndRunes', p15).
     rbind (simpleRead read f p15) (\<lambda>(nameEndRunes', p16).
     rbind (simpleRead read f p16) (\<lambda>(contentChecksums', p17).
     rbind (simpleRead read f p17) (\<lambda>(languages', p18).
     rbind (simpleRead read f p18) (\<lambda>(runeDocSections', p19).
     Inr \<lparr>tocFileContents = fileContents', tocFileNames = fileNames',
       tocFileSections = fileSections', tocPostings = postings', tocNewlines = newlines',
       tocNgramText = ngramText', tocRuneOffsets = runeOffsets', tocFileEndRunes = fileEndRunes',
       tocLanguages = languages', tocBranchMasks = branchMasks', tocSubRepos = subRepos',
       tocNameNgramText = nameNgramText', tocNamePostings = namePostings',
       tocNameRuneOffsets = nameRuneOffsets', tocMetaData = metaData',
       tocRepoMetaData = repoMetaData', tocNameEndRunes = nameEndRunes',
       tocContentChecksums = contentChecksums',
       tocRuneDocSections = runeDocSections'\<rparr>))))))))))))))))))))))"

section \<open>What a section holds\<close>

definition holds :: "bytes \<Rightarrow> simpleSection \<Rightarrow> bytes \<Rightarrow> bool" where
  "holds F s bs \<longleftrightarrow> bytesAt F (unat (secOff s)) bs \<and> unat (secSz s) = length bs"

text \<open>The offsets of the items of a list laid out from position \<open>p\<close>.\<close>

fun offsetsFrom :: "nat \<Rightarrow> bytes list \<Rightarrow> nat list" where
  "offsetsFrom p [] = []"
| "offsetsFrom p (x # xs) = p # offsetsFrom (p + length x) xs"

definition encU32s :: "u32 list \<Rightarrow> bytes" where
  "encU32s ns = concat (map putUint32 ns)"

definition encU64s :: "u64 list \<Rightarrow> bytes" where
  "encU64s ns = concat (map putUint64 ns)"

definition holdsItems :: "bytes \<Rightarrow> compoundSection \<Rightarrow> bytes list \<Rightarrow> bool" where
  "holdsItems F c items \<longleftrightarrow> holds F (csData c) (concat items) \<and>
     csOffsets c = map of_nat (offsetsFrom (unat (secOff (csData c))) items) \<and>
     holds F (csIndex c) (encU32s (csOffsets c))"

lemma holds_extend: "holds F s bs \<Longrightarrow> holds (F @ G) s bs"
  by (simp add: holds_def bytesAt_extend)

lemma holdsItems_extend: "holdsItems F c items \<Longrightarrow> holdsItems (F @ G) c items"
  unfolding holdsItems_def by (blast intro: holds_extend)

lemma length_offsetsFrom [simp]: "length (offsetsFrom p items) = length items"
  by (induction p items rule: offsetsFrom.induct) auto

lemma offsetsFrom_nth: "i < length items \<Longrightarrow> offsetsFrom p items ! i = p + length (concat (take i items))"
proof (induction p items arbitrary: i rule: offsetsFrom.induct)
  case (2 p x xs)
  then show ?case by (cases i) auto
qed simp

lemma offsetsFrom_shift: "offsetsFrom p items = map ((+) p) (offsetsFrom 0 items)"
  by (rule nth_equalityI) (simp_all add: offsetsFrom_nth)

lemma decodeU32s_enc [simp]: "decodeU32s (encU32s ns) = ns"
proof (induction ns)
  case (Cons n ns)
  have "uint32 (putUint32 n) = n" using uint32_put [of n "[]"] by simp
  then show ?case using Cons by (simp add: encU32s_def putUint32_def)
qed (simp add: encU32s_def)

lemma decodeU64s_enc [simp]: "decodeU64s (encU64s ns) = ns"
proof (induction ns)
  case (Cons n ns)
  have "uint64 (putUint64 n) = n" using uint64_put [of n "[]"] by simp
  then show ?case using Cons by (simp add: encU64s_def putUint64_def)
qed (simp add: encU64s_def)

lemma length_encU32s [simp]: "length (encU32s ns) = 4 * length ns"
  by (induction ns) (simp_all add: encU32s_def)

lemma length_encU64s [simp]: "length (encU64s ns) = 8 * length ns"
  by (induction ns) (simp_all add: encU64s_def)

section \<open>Writing\<close>

lemma u32_of_unat: "unat (x::u32) = n \<Longrightarrow> x = of_nat n"
  by auto

lemma woff_good: "wgood w \<Longrightarrow> length (wbytes w) < 4294967296 \<Longrightarrow> unat (woff w) = length (wbytes w)"
  by (simp add: wgood_def unat_of_nat_u32)

lemma section_between:
  assumes "wgood w" "wrote w bs w'" "length (wbytes w') < 4294967296"
  shows "holds (wbytes w') \<lparr>secOff = woff w, secSz = woff w' - woff w\<rparr> bs"
proof -
  have len: "length (wbytes w') = length (wbytes w) + length bs" and app: "wbytes w' = wbytes w @ bs"
    using assms(2) by (auto simp: wrote_def)
  have off: "unat (woff w) = length (wbytes w)" "unat (woff w') = length (wbytes w')"
    using assms len woff_good wrote_good by auto
  then have "unat (woff w' - woff w) = length bs" using len by (subst unat_sub_u32) (simp_all add: word_le_nat_alt)
  then show ?thesis using off app by (simp add: holds_def bytesAt_end)
qed

lemma writeSection_holds:
  assumes "wgood w" "writeSection b w = (s, w')" "length (wbytes w') < 4294967296"
  shows "wrote w b w'" and "holds (wbytes w') s b"
proof -
  show w: "wrote w b w'" using assms(1,2) wrote_Write by (auto simp: writeSection_def Let_def)
  have "s = \<lparr>secOff = woff w, secSz = woff w' - woff w\<rparr>"
    using assms(2) by (auto simp: writeSection_def Let_def sectionStart_def sectionEnd_def zeroSection_def)
  then show "holds (wbytes w') s b" using section_between [OF assms(1) w assms(3)] by simp
qed

lemma fold_writeU32: "wgood w \<Longrightarrow> wrote w (encU32s ns) (fold writeU32 ns w)"
proof (induction ns arbitrary: w)
  case (Cons n ns)
  have "wrote w (putUint32 n) (writeU32 n w)" using Cons.prems wrote_Write by (simp add: writeU32_def)
  then show ?case using Cons.IH [of "writeU32 n w"] wrote_trans wrote_good by (fastforce simp: encU32s_def)
qed (simp add: encU32s_def wrote_refl)

lemma fold_addItem:
  "wgood w \<Longrightarrow> \<exists>w'. fold addItem items (s, w)
      = (s\<lparr>csOffsets := csOffsets s @ map of_nat (offsetsFrom (length (wbytes w)) items)\<rparr>, w')
    \<and> wrote w (concat items) w'"
proof (induction items arbitrary: s w)
  case (Cons x items)
  have wx: "wrote w x (Write x w)" using Cons.prems wrote_Write by blast
  have "woff w = of_nat (length (wbytes w))" using Cons.prems by (simp add: wgood_def)
  moreover have "length (wbytes (Write x w)) = length (wbytes w) + length x" using wx by (simp add: wrote_def)
  ultimately show ?case
    using Cons.IH [of "Write x w" "s\<lparr>csOffsets := csOffsets s @ [woff w]\<rparr>"] wx wrote_trans [OF wx] wrote_good [OF wx]
    by (auto simp: addItem_def)
qed (simp add: wrote_refl)

lemma writeStrings_holds:
  assumes good: "wgood w" and run: "writeStrings items w = (c, w')" and len: "length (wbytes w') < 4294967296"
  shows "wrote w (concat items @ encU32s (csOffsets c)) w'" and "holdsItems (wbytes w') c items"
proof -
  obtain w1 where w1: "wrote w (concat items) w1"
    "fold addItem items (compoundStart w zeroCompound, w)
      = ((compoundStart w zeroCompound)\<lparr>csOffsets := map of_nat (offsetsFrom (length (wbytes w)) items)\<rparr>, w1)"
    using fold_addItem [OF good, of items "compoundStart w zeroCompound"]
    by (auto simp: compoundStart_def zeroCompound_def)
  let ?offs = "map of_nat (offsetsFrom (length (wbytes w)) items) :: u32 list"
  have w': "w' = fold writeU32 ?offs w1" and c: "c = \<lparr>csData = \<lparr>secOff = woff w, secSz = woff w1 - woff w\<rparr>,
      csOffsets = ?offs, csIndex = \<lparr>secOff = woff w1, secSz = woff w' - woff w1\<rparr>\<rparr>"
    using run w1(2) by (auto simp: writeStrings_def compoundEnd_def compoundStart_def zeroCompound_def
        sectionStart_def sectionEnd_def zeroSection_def Let_def)
  have w2: "wrote w1 (encU32s ?offs) w'" unfolding w' using w1(1) by (intro fold_writeU32) (rule wrote_good)
  then have app: "wbytes w' = wbytes w1 @ encU32s ?offs" by (simp add: wrote_def)
  then have len1: "length (wbytes w1) < 4294967296" using len by simp
  show "wrote w (concat items @ encU32s (csOffsets c)) w'" using wrote_trans [OF w1(1) w2] c by simp
  have "holds (wbytes w') (csData c) (concat items)"
    unfolding app using section_between [OF good w1(1) len1] c by (simp add: holds_extend)
  moreover have "holds (wbytes w') (csIndex c) (encU32s (csOffsets c))"
    using section_between [OF wrote_good [OF w1(1)] w2 len] c by simp
  moreover have "unat (woff w) = length (wbytes w)"
    using good len1 w1(1) woff_good by (simp add: wrote_def)
  ultimately show "holdsItems (wbytes w') c items" using c by (simp add: holdsItems_def)
qed

text \<open>The relative index of a compound section: where the items start, and the end.\<close>

definition itemBounds :: "bytes list \<Rightarrow> nat list" where
  "itemBounds items = (if items = [] then [] else offsetsFrom 0 items @ [length (concat items)])"

lemma itemBounds_nth:
  "i \<le> length items \<Longrightarrow> items \<noteq> [] \<Longrightarrow> itemBounds items ! i = length (concat (take i items))"
  by (auto simp: itemBounds_def nth_append offsetsFrom_nth)

lemma length_itemBounds: "length (itemBounds items) = (if items = [] then 0 else Suc (length items))"
  by (simp add: itemBounds_def)

lemma relativeIndex_items:
  assumes "holdsItems F c items"
  shows "relativeIndex c = map of_nat (itemBounds items)"
proof (cases items)
  case Nil
  then show ?thesis using assms by (simp add: relativeIndex_def holdsItems_def itemBounds_def)
next
  case (Cons x xs)
  let ?p = "unat (secOff (csData c))"
  have offs: "csOffsets c = map of_nat (offsetsFrom ?p items)" using assms by (simp add: holdsItems_def)
  have sz: "secSz (csData c) = of_nat (length (concat items))"
    using assms by (intro u32_of_unat) (simp add: holdsItems_def holds_def)
  have "csOffsets c = of_nat ?p # map of_nat (offsetsFrom (?p + length x) xs)" using offs Cons by simp
  then have "relativeIndex c = map (\<lambda>q. q - of_nat ?p) (csOffsets c) @ [secSz (csData c)]"
    by (simp add: relativeIndex_def)
  also have "map (\<lambda>q. q - of_nat ?p) (csOffsets c) = map of_nat (offsetsFrom 0 items)"
    unfolding offs by (subst offsetsFrom_shift) simp
  finally show ?thesis using Cons sz by (simp add: itemBounds_def)
qed

section \<open>Reading\<close>

definition encSimple :: "simpleSection \<Rightarrow> bytes" where
  "encSimple s = putUint32 (secOff s) @ putUint32 (secSz s)"

definition encCompound :: "compoundSection \<Rightarrow> bytes" where
  "encCompound c = encSimple (csData c) @ encSimple (csIndex c)"

lemma length_encSimple [simp]: "length (encSimple s) = 8"
  by (simp add: encSimple_def)

lemma length_encCompound [simp]: "length (encCompound s) = 16"
  by (simp add: encCompound_def)

lemma wrote_simpleWrite: "wgood w \<Longrightarrow> wrote w (encSimple s) (simpleWrite s w)"
  unfolding simpleWrite_def writeU32_def encSimple_def
  by (intro wrote_trans [OF wrote_Write wrote_Write]) (simp_all add: wrote_good [OF wrote_Write])

lemma wrote_compoundWrite: "wgood w \<Longrightarrow> wrote w (encCompound s) (compoundWrite s w)"
  unfolding compoundWrite_def encCompound_def
  by (intro wrote_trans [OF wrote_simpleWrite wrote_simpleWrite]) (simp_all add: wrote_good [OF wrote_simpleWrite])

context index_file
begin

lemma read_at:
  assumes "valid f" "bytesAt (contents f) (unat off) bs" "unat sz = length bs"
  shows "\<exists>spare. read f off sz = Inr (bs, spare)"
  using read_law [OF assms(1), of off sz] bytesAt_length [OF assms(2)] bytesAt_slice [OF assms(2)] assms(3)
  by auto

lemma read_holds: "valid f \<Longrightarrow> holds (contents f) s bs \<Longrightarrow> \<exists>spare. read f (secOff s) (secSz s) = Inr (bs, spare)"
  using read_at by (simp add: holds_def)

lemma bytesAt_next:
  fixes p n :: u32
  assumes "valid f" "bytesAt (contents f) (unat p) bs" "length bs = unat n"
  shows "unat (p + n) = unat p + length bs"
  using bytesAt_length [OF assms(2)] length_law [OF assms(1)] assms(3) by (subst unat_add_u32) simp_all

lemma readerU32_at:
  assumes "valid f" "bytesAt (contents f) (unat p) (putUint32 n)"
  shows "readerU32 read f p = Inr (n, p + 4)"
  using read_at [OF assms, of 4] uint32_put [of n "[]"] by (auto simp: readerU32_def)

lemma simpleRead_at:
  assumes "valid f" "bytesAt (contents f) (unat p) (encSimple s)"
  shows "simpleRead read f p = Inr (s, p + 8)"
proof -
  have a: "bytesAt (contents f) (unat p) (putUint32 (secOff s))"
    and "bytesAt (contents f) (unat p + 4) (putUint32 (secSz s))"
    using assms(2) by (simp_all add: encSimple_def bytesAt_append)
  then have b: "bytesAt (contents f) (unat (p + 4)) (putUint32 (secSz s))"
    using bytesAt_next [OF assms(1) a, of 4] by simp
  show ?thesis using readerU32_at [OF assms(1) a] readerU32_at [OF assms(1) b]
    by (simp add: simpleRead_def add.assoc)
qed

lemma readSectionU32_holds:
  assumes "valid f" "holds (contents f) s (encU32s ns)"
  shows "readSectionU32 read f s = Inr ns"
proof -
  have "secSz s mod 4 = 0"
    using assms(2) by (simp add: holds_def word_unat_eq_iff unat_mod_distrib)
  then show ?thesis using read_holds [OF assms] by (auto simp: readSectionU32_def)
qed

lemma readSectionU64_holds:
  assumes "valid f" "holds (contents f) s (encU64s ns)"
  shows "readSectionU64 read f s = Inr ns"
proof -
  have "secSz s mod 8 = 0"
    using assms(2) by (simp add: holds_def word_unat_eq_iff unat_mod_distrib)
  then show ?thesis using read_holds [OF assms] by (auto simp: readSectionU64_def)
qed

lemma compoundRead_at:
  assumes "valid f" "bytesAt (contents f) (unat p) (encCompound c)" "holdsItems (contents f) c items"
  shows "compoundRead read f p = Inr (c, p + 16)"
proof -
  have a: "bytesAt (contents f) (unat p) (encSimple (csData c))"
    and "bytesAt (contents f) (unat p + 8) (encSimple (csIndex c))"
    using assms(2) by (simp_all add: encCompound_def bytesAt_append)
  then have b: "bytesAt (contents f) (unat (p + 8)) (encSimple (csIndex c))"
    using bytesAt_next [OF assms(1) a, of 8] by simp
  have "holds (contents f) (csIndex c) (encU32s (csOffsets c))"
    using assms(3) unfolding holdsItems_def by blast
  from readSectionU32_holds [OF assms(1) this] show ?thesis
    using simpleRead_at [OF assms(1) a] simpleRead_at [OF assms(1) b]
    by (simp add: compoundRead_def add.assoc)
qed

end

section \<open>The table of contents survives the file\<close>

definition encSections :: "indexTOC \<Rightarrow> bytes list" where
  "encSections t = [encSimple (tocMetaData t),
     encSimple (tocRepoMetaData t),
     encCompound (tocFileContents t),
     encCompound (tocFileNames t),
     encCompound (tocFileSections t),
     encCompound (tocNewlines t),
     encSimple (tocNgramText t),
     encCompound (tocPostings t),
     encSimple (tocNameNgramText t),
     encCompound (tocNamePostings t),
     encSimple (tocBranchMasks t),
     encSimple (tocSubRepos t),
     encSimple (tocRuneOffsets t),
     encSimple (tocNameRuneOffsets t),
     encSimple (tocFileEndRunes t),
     encSimple (tocNameEndRunes t),
     encSimple (tocContentChecksums t),
     encSimple (tocLanguages t),
     encSimple (tocRuneDocSections t)]"

definition encTOC :: "indexTOC \<Rightarrow> bytes" where
  "encTOC t = putUint32 19 @ concat (encSections t)"

definition tocItems :: "bytes \<Rightarrow> indexTOC \<Rightarrow> bool" where
  "tocItems F t \<longleftrightarrow> (\<forall>c \<in> {tocFileContents t, tocFileNames t, tocFileSections t, tocNewlines t, tocPostings t, tocNamePostings t}.
     \<exists>items. holdsItems F c items)"

lemma wrote_fold:
  assumes "list_all2 (\<lambda>f bs. \<forall>w. wgood w \<longrightarrow> wrote w bs (f w)) fs bss" and "wgood w"
  shows "wrote w (concat bss) (fold (\<lambda>s. s) fs w)"
  using assms
proof (induction fs bss arbitrary: w rule: list_all2_induct)
  case Nil
  then show ?case by (simp add: wrote_refl)
next
  case (Cons f fs bs bss)
  then have "wrote w bs (f w)" by blast
  moreover from this have "wrote (f w) (concat bss) (fold (\<lambda>s. s) fs (f w))"
    using Cons.IH wrote_good by blast
  ultimately show ?case using wrote_trans by fastforce
qed

lemma wrote_writeTOC: "wgood w \<Longrightarrow> wrote w (encTOC t) (writeTOC t w)"
proof -
  assume w: "wgood w"
  have n: "length (sectionWriters t) = 19" by (simp add: sectionWriters_def)
  have first: "wrote w (putUint32 19) (writeU32 (of_nat (length (sectionWriters t))) w)"
    unfolding n writeU32_def using w wrote_Write by simp
  have "list_all2 (\<lambda>f bs. \<forall>w. wgood w \<longrightarrow> wrote w bs (f w)) (sectionWriters t) (encSections t)"
    by (simp add: sectionWriters_def encSections_def wrote_simpleWrite wrote_compoundWrite)
  from wrote_fold [OF this wrote_good [OF first]] show ?thesis
    unfolding writeTOC_def encTOC_def using wrote_trans [OF first] by blast
qed

context index_file
begin

lemma off_step:
  fixes p :: u32
  assumes "valid f" "unat p + k \<le> length (contents f)"
  shows "unat (p + of_nat k) = unat p + k"
  using assms length_law [OF assms(1)] by (subst unat_add_u32) (simp_all add: unat_of_nat_u32)

lemma simpleRead_off:
  assumes "valid f" "bytesAt (contents f) (unat p + k) (encSimple s)"
  shows "simpleRead read f (p + of_nat k) = Inr (s, p + of_nat (k + 8))"
  using simpleRead_at [OF assms(1), of "p + of_nat k" s] off_step [OF assms(1), of p k] assms(2)
    bytesAt_length [OF assms(2)] by (simp add: add.assoc)

lemma compoundRead_off:
  assumes "valid f" "bytesAt (contents f) (unat p + k) (encCompound c)" "\<exists>items. holdsItems (contents f) c items"
  shows "compoundRead read f (p + of_nat k) = Inr (c, p + of_nat (k + 16))"
  using compoundRead_at [OF assms(1), of "p + of_nat k" c] off_step [OF assms(1), of p k] assms(2,3)
    bytesAt_length [OF assms(2)] by (auto simp: add.assoc)

lemma readTOC_at:
  assumes v: "valid f" and tail: "8 \<le> length (contents f)"
    "bytesAt (contents f) (length (contents f) - 8) (encSimple ts)"
    and toc: "bytesAt (contents f) (unat (secOff ts)) (encTOC t)" and items: "tocItems (contents f) t"
  shows "readTOC read size f = Inr t"
proof -
  let ?p = "secOff ts"
  have u: "unat (of_nat (length (contents f)) - 8 :: u32) = length (contents f) - 8"
    using length_law [OF v] tail(1) by (subst unat_sub_u32) (simp_all add: word_le_nat_alt unat_of_nat_u32)
  have t0: "simpleRead read f (of_nat (length (contents f)) - 8) = Inr (ts, of_nat (length (contents f)))"
    using simpleRead_at [OF v, of "of_nat (length (contents f)) - 8" ts] tail(2) u by simp
  have t1: "readerU32 read f ?p = Inr (19, ?p + 4)"
    using readerU32_at [OF v, of ?p 19] toc by (simp add: encTOC_def bytesAt_append)
  note at = toc [unfolded encTOC_def encSections_def concat.simps append_Nil2 bytesAt_append length_putUint32 length_encSimple length_encCompound,
      simplified add.assoc, simplified]
  note it = items [unfolded tocItems_def, simplified]
  have "simpleRead read f (?p + 4) = Inr (tocMetaData t, ?p + 12)"
    using simpleRead_off [OF v, of ?p 4 "tocMetaData t"] at by simp
  note rd4 = this
  have "simpleRead read f (?p + 12) = Inr (tocRepoMetaData t, ?p + 20)"
    using simpleRead_off [OF v, of ?p 12 "tocRepoMetaData t"] at by simp
  note rd12 = this
  have "compoundRead read f (?p + 20) = Inr (tocFileContents t, ?p + 36)"
    using compoundRead_off [OF v, of ?p 20 "tocFileContents t"] at it by simp
  note rd20 = this
  have "compoundRead read f (?p + 36) = Inr (tocFileNames t, ?p + 52)"
    using compoundRead_off [OF v, of ?p 36 "tocFileNames t"] at it by simp
  note rd36 = this
  have "compoundRead read f (?p + 52) = Inr (tocFileSections t, ?p + 68)"
    using compoundRead_off [OF v, of ?p 52 "tocFileSections t"] at it by simp
  note rd52 = this
  have "compoundRead read f (?p + 68) = Inr (tocNewlines t, ?p + 84)"
    using compoundRead_off [OF v, of ?p 68 "tocNewlines t"] at it by simp
  note rd68 = this
  have "simpleRead read f (?p + 84) = Inr (tocNgramText t, ?p + 92)"
    using simpleRead_off [OF v, of ?p 84 "tocNgramText t"] at by simp
  note rd84 = this
  have "compoundRead read f (?p + 92) = Inr (tocPostings t, ?p + 108)"
    using compoundRead_off [OF v, of ?p 92 "tocPostings t"] at it by simp
  note rd92 = this
  have "simpleRead read f (?p + 108) = Inr (tocNameNgramText t, ?p + 116)"
    using simpleRead_off [OF v, of ?p 108 "tocNameNgramText t"] at by simp
  note rd108 = this
  have "compoundRead read f (?p + 116) = Inr (tocNamePostings t, ?p + 132)"
    using compoundRead_off [OF v, of ?p 116 "tocNamePostings t"] at it by simp
  note rd116 = this
  have "simpleRead read f (?p + 132) = Inr (tocBranchMasks t, ?p + 140)"
    using simpleRead_off [OF v, of ?p 132 "tocBranchMasks t"] at by simp
  note rd132 = this
  have "simpleRead read f (?p + 140) = Inr (tocSubRepos t, ?p + 148)"
    using simpleRead_off [OF v, of ?p 140 "tocSubRepos t"] at by simp
  note rd140 = this
  have "simpleRead read f (?p + 148) = Inr (tocRuneOffsets t, ?p + 156)"
    using simpleRead_off [OF v, of ?p 148 "tocRuneOffsets t"] at by simp
  note rd148 = this
  have "simpleRead read f (?p + 156) = Inr (tocNameRuneOffsets t, ?p + 164)"
    using simpleRead_off [OF v, of ?p 156 "tocNameRuneOffsets t"] at by simp
  note rd156 = this
  have "simpleRead read f (?p + 164) = Inr (tocFileEndRunes t, ?p + 172)"
    using simpleRead_off [OF v, of ?p 164 "tocFileEndRunes t"] at by simp
  note rd164 = this
  have "simpleRead read f (?p + 172) = Inr (tocNameEndRunes t, ?p + 180)"
    using simpleRead_off [OF v, of ?p 172 "tocNameEndRunes t"] at by simp
  note rd172 = this
  have "simpleRead read f (?p + 180) = Inr (tocContentChecksums t, ?p + 188)"
    using simpleRead_off [OF v, of ?p 180 "tocContentChecksums t"] at by simp
  note rd180 = this
  have "simpleRead read f (?p + 188) = Inr (tocLanguages t, ?p + 196)"
    using simpleRead_off [OF v, of ?p 188 "tocLanguages t"] at by simp
  note rd188 = this
  have "simpleRead read f (?p + 196) = Inr (tocRuneDocSections t, ?p + 204)"
    using simpleRead_off [OF v, of ?p 196 "tocRuneDocSections t"] at by simp
  note rd196 = this
  show ?thesis unfolding readTOC_def size_law [OF v] rbind_simps t0 t1 prod.case
    by (simp add: rd4 rd12 rd20 rd36 rd52 rd68 rd84 rd92 rd108 rd116 rd132 rd140 rd148 rd156 rd164 rd172 rd180 rd188 rd196)
qed

end

end
