(* ===== verification/Go_Regexp.thy ===== *)
theory Go_Regexp
  imports Go_Std
begin

text \<open>
  Regular expressions of the Go standard library: the syntax trees of \<^verbatim>\<open>regexp/syntax\<close> that the
  query package takes apart, and what it means for one to match a text. The matching engine
  and the printer of the package are parameters of the definitions that use them.
\<close>

section \<open>Syntax trees\<close>

text \<open>One constructor per \<^verbatim>\<open>Op\<close>, with the fields of the node that the operation uses. The
  Boolean of a literal is the flag \<^verbatim>\<open>FoldCase\<close>; a character class is its list of range
  bounds; a maximum of \<open>-1\<close> is no maximum.\<close>

datatype regexp =
    OpNoMatch
  | OpEmptyMatch
  | OpLiteral bool "rune list"
  | OpCharClass "rune list"
  | OpAnyCharNotNL
  | OpAnyChar
  | OpBeginLine
  | OpEndLine
  | OpBeginText
  | OpEndText
  | OpWordBoundary
  | OpNoWordBoundary
  | OpCapture bytes regexp
  | OpStar regexp
  | OpPlus regexp
  | OpQuest regexp
  | OpRepeat int int regexp
  | OpConcat "regexp list"
  | OpAlternate "regexp list"

section \<open>Matching\<close>

text \<open>\<open>reMatch eq t r i j\<close>: the expression matches the runes of \<open>t\<close> from \<open>i\<close> up to \<open>j\<close>.
  \<open>eq ci a b\<close> compares runes, up to case when \<open>ci\<close>; \<open>ci\<close> is the flag \<^verbatim>\<open>(?i)\<close> of the
  whole expression.\<close>

definition isWordRune :: "rune \<Rightarrow> bool" where
  "isWordRune c \<longleftrightarrow> (0x30 \<le> c \<and> c \<le> 0x39) \<or> (0x41 \<le> c \<and> c \<le> 0x5A) \<or> (0x61 \<le> c \<and> c \<le> 0x7A) \<or> c = 0x5F"

definition atWordBoundary :: "rune list \<Rightarrow> nat \<Rightarrow> bool" where
  "atWordBoundary t i \<longleftrightarrow>
     (0 < i \<and> isWordRune (t ! (i - 1))) \<noteq> (i < length t \<and> isWordRune (t ! i))"

fun inRanges :: "(rune \<Rightarrow> rune \<Rightarrow> bool) \<Rightarrow> rune list \<Rightarrow> rune \<Rightarrow> bool" where
  "inRanges same (lo # hi # rs) c \<longleftrightarrow> (\<exists>b \<in> {lo..hi}. same b c) \<or> inRanges same rs c"
| "inRanges same _ c \<longleftrightarrow> False"

definition oneRune :: "(rune \<Rightarrow> bool) \<Rightarrow> rune list \<Rightarrow> nat \<Rightarrow> nat \<Rightarrow> bool" where
  "oneRune P t i j \<longleftrightarrow> i < length t \<and> j = Suc i \<and> P (t ! i)"

fun reMatch :: "(bool \<Rightarrow> rune \<Rightarrow> rune \<Rightarrow> bool) \<Rightarrow> bool \<Rightarrow> rune list \<Rightarrow> regexp \<Rightarrow> nat \<Rightarrow> nat \<Rightarrow> bool" where
  "reMatch eq ci t OpNoMatch i j \<longleftrightarrow> False"
| "reMatch eq ci t OpEmptyMatch i j \<longleftrightarrow> i = j"
| "reMatch eq ci t (OpLiteral fc rs) i j \<longleftrightarrow>
     j = i + length rs \<and> j \<le> length t \<and> list_all2 (eq (ci \<or> fc)) rs (slice i j t)"
| "reMatch eq ci t (OpCharClass rs) i j \<longleftrightarrow> oneRune (inRanges (eq ci) rs) t i j"
| "reMatch eq ci t OpAnyCharNotNL i j \<longleftrightarrow> oneRune (\<lambda>c. c \<noteq> 0x0A) t i j"
| "reMatch eq ci t OpAnyChar i j \<longleftrightarrow> oneRune (\<lambda>c. True) t i j"
| "reMatch eq ci t OpBeginLine i j \<longleftrightarrow> i = j \<and> (i = 0 \<or> t ! (i - 1) = 0x0A)"
| "reMatch eq ci t OpEndLine i j \<longleftrightarrow> i = j \<and> (i = length t \<or> t ! i = 0x0A)"
| "reMatch eq ci t OpBeginText i j \<longleftrightarrow> i = j \<and> i = 0"
| "reMatch eq ci t OpEndText i j \<longleftrightarrow> i = j \<and> i = length t"
| "reMatch eq ci t OpWordBoundary i j \<longleftrightarrow> i = j \<and> atWordBoundary t i"
| "reMatch eq ci t OpNoWordBoundary i j \<longleftrightarrow> i = j \<and> \<not> atWordBoundary t i"
| "reMatch eq ci t (OpCapture nm r) i j \<longleftrightarrow> reMatch eq ci t r i j"
| "reMatch eq ci t (OpStar r) i j \<longleftrightarrow> (reMatch eq ci t r)\<^sup>*\<^sup>* i j"
| "reMatch eq ci t (OpPlus r) i j \<longleftrightarrow> (reMatch eq ci t r)\<^sup>+\<^sup>+ i j"
| "reMatch eq ci t (OpQuest r) i j \<longleftrightarrow> i = j \<or> reMatch eq ci t r i j"
| "reMatch eq ci t (OpRepeat mn mx r) i j \<longleftrightarrow>
     (\<exists>n. mn \<le> int n \<and> (mx = -1 \<or> int n \<le> mx) \<and> ((reMatch eq ci t r) ^^ n) i j)"
| "reMatch eq ci t (OpConcat rs) i j \<longleftrightarrow> foldr (\<lambda>r R. reMatch eq ci t r OO R) rs (=) i j"
| "reMatch eq ci t (OpAlternate rs) i j \<longleftrightarrow> (\<exists>r \<in> set rs. reMatch eq ci t r i j)"

definition reFinds :: "(bool \<Rightarrow> rune \<Rightarrow> rune \<Rightarrow> bool) \<Rightarrow> bool \<Rightarrow> rune list \<Rightarrow> regexp \<Rightarrow> bool" where
  "reFinds eq ci t r \<longleftrightarrow> (\<exists>i j. i \<le> length t \<and> reMatch eq ci t r i j)"

lemma reMatch_forward:
  "reMatch eq ci t r i j \<Longrightarrow> i \<le> j"
proof (induction r arbitrary: i j)
  case (OpStar r)
  then have "(reMatch eq ci t r)\<^sup>*\<^sup>* i j" by simp
  then show ?case by (induction rule: rtranclp_induct) (auto dest: OpStar.IH)
next
  case (OpPlus r)
  then have "(reMatch eq ci t r)\<^sup>+\<^sup>+ i j" by simp
  then show ?case by (induction rule: tranclp_induct) (auto dest: OpPlus.IH)
next
  case (OpRepeat mn mx r)
  then obtain n where "((reMatch eq ci t r) ^^ n) i j" by auto
  then show ?case
  proof (induction n arbitrary: j)
    case (Suc n)
    then obtain k where "((reMatch eq ci t r) ^^ n) i k" "reMatch eq ci t r k j" by (auto elim: relcomppE)
    then show ?case using Suc.IH OpRepeat.IH by fastforce
  qed simp
next
  case (OpConcat rs)
  have "foldr (\<lambda>r R. reMatch eq ci t r OO R) rs (=) i j \<Longrightarrow> i \<le> j"
    using OpConcat.IH
  proof (induction rs arbitrary: i)
    case (Cons r rs)
    then obtain k where "reMatch eq ci t r i k" "foldr (\<lambda>r R. reMatch eq ci t r OO R) rs (=) k j" by auto
    then show ?case using Cons by (meson list.set_intros order_trans)
  qed simp
  then show ?case using OpConcat.prems by simp
qed (auto simp: oneRune_def)

section \<open>The engine\<close>

text \<open>\<^verbatim>\<open>regexp.QuoteMeta\<close>: a backslash before each of the special bytes.\<close>

definition specialBytes :: bytes where
  "specialBytes = [0x5C, 0x2E, 0x2B, 0x2A, 0x3F, 0x28, 0x29, 0x7C, 0x5B, 0x5D, 0x7B, 0x7D, 0x5E, 0x24]"

definition quoteMeta :: "bytes \<Rightarrow> bytes" where
  "quoteMeta s = concat (map (\<lambda>b. if b \<in> set specialBytes then [0x5C, b] else [b]) s)"

end
