(* ===== verification/Zoekt_Query.thy ===== *)
theory Zoekt_Query
  imports Go_Regexp
begin

text \<open>
  The model of \<^verbatim>\<open>query/query.go\<close> and \<^verbatim>\<open>query/bits.go\<close>: the query language, its simplification
  and its traversals.

  A query value is a value of the datatype \<open>Q\<close>, one constructor per Go type that implements the
  interface, and \<open>NilQ\<close> for a nil interface. The meaning of a query is given over a valuation of
  its atoms; the simplifier and the expansion of file and content matches keep it.
\<close>

section \<open>Queries\<close>

record Substring =
  Pattern :: bytes
  CaseSensitive :: bool
  FileName :: bool
  Content :: bool

record RegexpQ =
  Regexp :: regexp
  ReFileName :: bool
  ReContent :: bool
  ReCaseSensitive :: bool

datatype Q =
    QRegexp RegexpQ
  | Symbol Substring
  | CaseQ bytes
  | Language bytes
  | Const bool
  | Repo bytes
  | RepoSet "(bytes \<times> bool) list"
  | QSubstring Substring
  | Or "Q list"
  | Not Q
  | And "Q list"
  | Branch bytes
  | NilQ

definition NewAnd :: "Q list \<Rightarrow> Q" where
  "NewAnd qs = And qs"

definition NewOr :: "Q list \<Rightarrow> Q" where
  "NewOr qs = Or qs"

text \<open>A set with each name mapped to \<open>true\<close>; later entries replace earlier ones of the same name.\<close>

definition NewRepoSet :: "bytes list \<Rightarrow> Q" where
  "NewRepoSet repos = RepoSet (map (\<lambda>r. (r, True)) (remdups repos))"

definition setLookup :: "(bytes \<times> bool) list \<Rightarrow> bytes \<Rightarrow> bool" where
  "setLookup s name = (case map_of s name of Some b \<Rightarrow> b | None \<Rightarrow> False)"

section \<open>Traversals\<close>

text \<open>\<^verbatim>\<open>Map\<close> and \<^verbatim>\<open>mapQueryList\<close>: the function is applied to the children before the node.\<close>

fun Map :: "Q \<Rightarrow> (Q \<Rightarrow> Q) \<Rightarrow> Q" where
  "Map (And qs) f = f (And (map (\<lambda>q. Map q f) qs))"
| "Map (Or qs) f = f (Or (map (\<lambda>q. Map q f) qs))"
| "Map (Not q) f = f (Not (Map q f))"
| "Map q f = f q"

definition ExpandFileContent :: "Q \<Rightarrow> Q" where
  "ExpandFileContent q = (case q of
     QSubstring s \<Rightarrow> if \<not> FileName s \<and> \<not> Content s
       then NewOr [QSubstring (s\<lparr>FileName := True\<rparr>), QSubstring (s\<lparr>Content := True\<rparr>)] else q
   | QRegexp r \<Rightarrow> if \<not> ReFileName r \<and> \<not> ReContent r
       then NewOr [QRegexp (r\<lparr>ReFileName := True\<rparr>), QRegexp (r\<lparr>ReContent := True\<rparr>)] else q
   | _ \<Rightarrow> q)"

text \<open>\<^verbatim>\<open>VisitAtoms\<close>: the atoms in the order the visitor sees them.\<close>

fun VisitAtoms :: "Q \<Rightarrow> Q list" where
  "VisitAtoms (And qs) = concat (map VisitAtoms qs)"
| "VisitAtoms (Or qs) = concat (map VisitAtoms qs)"
| "VisitAtoms (Not q) = VisitAtoms q"
| "VisitAtoms q = [q]"

section \<open>Case of patterns\<close>

definition toLowerBytes :: "bytes \<Rightarrow> bytes" where
  "toLowerBytes inp = map (\<lambda>c. if 0x41 \<le> c \<and> c \<le> 0x5A then c - 0x41 + 0x61 else c) inp"

definition LowerRune :: "rune \<Rightarrow> rune" where
  "LowerRune c = (if 0x41 \<le> c \<and> c \<le> 0x5A then c + 0x61 - 0x41 else c)"

text \<open>\<^verbatim>\<open>LowerRegexp\<close> of query/regexp.go.\<close>

fun LowerRegexp :: "regexp \<Rightarrow> regexp" where
  "LowerRegexp (OpLiteral fc rs) = OpLiteral fc (map LowerRune rs)"
| "LowerRegexp (OpCharClass rs) = OpCharClass (map LowerRune rs)"
| "LowerRegexp (OpCapture nm r) = OpCapture nm (LowerRegexp r)"
| "LowerRegexp (OpStar r) = OpStar (LowerRegexp r)"
| "LowerRegexp (OpPlus r) = OpPlus (LowerRegexp r)"
| "LowerRegexp (OpQuest r) = OpQuest (LowerRegexp r)"
| "LowerRegexp (OpRepeat mn mx r) = OpRepeat mn mx (LowerRegexp r)"
| "LowerRegexp (OpConcat rs) = OpConcat (map LowerRegexp rs)"
| "LowerRegexp (OpAlternate rs) = OpAlternate (map LowerRegexp rs)"
| "LowerRegexp r = r"

text \<open>The flavors of \<^verbatim>\<open>case:\<close>, as byte strings.\<close>

definition yesB :: bytes where "yesB = [0x79, 0x65, 0x73]"
definition noB :: bytes where "noB = [0x6E, 0x6F]"
definition autoB :: bytes where "autoB = [0x61, 0x75, 0x74, 0x6F]"

definition setCaseSubstring :: "bytes \<Rightarrow> Substring \<Rightarrow> Substring" where
  "setCaseSubstring k s =
     (if k = yesB then s\<lparr>CaseSensitive := True\<rparr>
      else if k = noB then s\<lparr>CaseSensitive := False\<rparr>
      else if k = autoB then s\<lparr>CaseSensitive := (Pattern s \<noteq> toLowerBytes (Pattern s))\<rparr>
      else s)"

text \<open>\<open>print\<close> stands for \<^verbatim>\<open>syntax.Regexp.String\<close>.\<close>

definition setCaseRegexp :: "(regexp \<Rightarrow> bytes) \<Rightarrow> bytes \<Rightarrow> RegexpQ \<Rightarrow> RegexpQ" where
  "setCaseRegexp print k r =
     (if k = yesB then r\<lparr>ReCaseSensitive := True\<rparr>
      else if k = noB then r\<lparr>ReCaseSensitive := False\<rparr>
      else if k = autoB then r\<lparr>ReCaseSensitive := (print (Regexp r) \<noteq> print (LowerRegexp (Regexp r)))\<rparr>
      else r)"

text \<open>\<^verbatim>\<open>setCase\<close> of the types that implement \<^verbatim>\<open>setCaser\<close>; the other queries stay.\<close>

fun setCase :: "(regexp \<Rightarrow> bytes) \<Rightarrow> bytes \<Rightarrow> Q \<Rightarrow> Q" where
  "setCase print k (QSubstring s) = QSubstring (setCaseSubstring k s)"
| "setCase print k (Symbol s) = Symbol (setCaseSubstring k s)"
| "setCase print k (QRegexp r) = QRegexp (setCaseRegexp print k r)"
| "setCase print k q = q"

section \<open>Constant folding\<close>

definition invertConst :: "Q \<Rightarrow> Q" where
  "invertConst q = (case q of Const b \<Rightarrow> Const (\<not> b) | _ \<Rightarrow> q)"

text \<open>The loop of \<^verbatim>\<open>evalAndOrConstants\<close>: a constant that decides the result is returned,
  the neutral one is dropped.\<close>

fun dropConsts :: "bool \<Rightarrow> Q list \<Rightarrow> Q list \<Rightarrow> Q" where
  "dropConsts isAnd [] newCH =
     (if newCH = [] then Const isAnd else if isAnd then And newCH else Or newCH)"
| "dropConsts isAnd (Const b # chs) newCH = (if b = isAnd then dropConsts isAnd chs newCH else Const b)"
| "dropConsts isAnd (ch # chs) newCH = dropConsts isAnd chs (newCH @ [ch])"

text \<open>The size of a query, which folding never increases.\<close>

fun qsize :: "Q \<Rightarrow> nat" where
  "qsize (And qs) = Suc (sum_list (map qsize qs))"
| "qsize (Or qs) = Suc (sum_list (map qsize qs))"
| "qsize (Not q) = Suc (qsize q)"
| "qsize q = 1"

lemma qsize_pos [simp]: "0 < qsize q"
  by (cases q) auto

text \<open>The guards of \<^verbatim>\<open>evalConstants\<close> on the other types.\<close>

definition evalAtom :: "Q \<Rightarrow> Q" where
  "evalAtom q = (case q of
     QSubstring s \<Rightarrow> if Pattern s = [] then Const True else q
   | QRegexp r \<Rightarrow> if Regexp r = OpEmptyMatch then Const True else q
   | Branch p \<Rightarrow> if p = [] then Const True else q
   | RepoSet s \<Rightarrow> if s = [] then Const True else q
   | _ \<Rightarrow> q)"

text \<open>\<^verbatim>\<open>evalConstants\<close> folds the children with \<^verbatim>\<open>Map\<close> and itself; \<open>mapEval\<close> is that instance
  of \<^verbatim>\<open>Map\<close> (lemma \<open>mapEval_Map\<close>).\<close>

function evalConstants :: "Q \<Rightarrow> Q" and mapEval :: "Q \<Rightarrow> Q" where
  "evalConstants (And qs) = dropConsts True (map mapEval qs) []"
| "evalConstants (Or qs) = dropConsts False (map mapEval qs) []"
| "evalConstants (Not q) = (case evalConstants q of Const b \<Rightarrow> invertConst (Const b) | ch \<Rightarrow> Not ch)"
| "evalConstants (QRegexp r) = evalAtom (QRegexp r)"
| "evalConstants (Symbol s) = evalAtom (Symbol s)"
| "evalConstants (CaseQ s) = evalAtom (CaseQ s)"
| "evalConstants (Language l) = evalAtom (Language l)"
| "evalConstants (Const b) = evalAtom (Const b)"
| "evalConstants (Repo p) = evalAtom (Repo p)"
| "evalConstants (RepoSet s) = evalAtom (RepoSet s)"
| "evalConstants (QSubstring s) = evalAtom (QSubstring s)"
| "evalConstants (Branch p) = evalAtom (Branch p)"
| "evalConstants NilQ = evalAtom NilQ"
| "mapEval (And qs) = evalConstants (And (map mapEval qs))"
| "mapEval (Or qs) = evalConstants (Or (map mapEval qs))"
| "mapEval (Not q) = evalConstants (Not (mapEval q))"
| "mapEval (QRegexp r) = evalConstants (QRegexp r)"
| "mapEval (Symbol s) = evalConstants (Symbol s)"
| "mapEval (CaseQ s) = evalConstants (CaseQ s)"
| "mapEval (Language l) = evalConstants (Language l)"
| "mapEval (Const b) = evalConstants (Const b)"
| "mapEval (Repo p) = evalConstants (Repo p)"
| "mapEval (RepoSet s) = evalConstants (RepoSet s)"
| "mapEval (QSubstring s) = evalConstants (QSubstring s)"
| "mapEval (Branch p) = evalConstants (Branch p)"
| "mapEval NilQ = evalConstants NilQ"
  by pat_completeness auto

lemma qsize_dropConsts:
  "qsize (dropConsts isAnd qs acc) \<le> Suc (sum_list (map qsize acc) + sum_list (map qsize qs))"
  by (induction isAnd qs acc rule: dropConsts.induct) auto

lemma qsize_evalAtom: "qsize (evalAtom q) \<le> qsize q"
  by (cases q) (auto simp: evalAtom_def)

lemma sum_list_map_le: "(\<And>x. x \<in> set xs \<Longrightarrow> f x \<le> g x) \<Longrightarrow> sum_list (map f xs) \<le> sum_list (map (g :: _ \<Rightarrow> nat) xs)"
  by (induction xs) (auto simp: add_mono)

lemma qsize_Not_eval:
  "qsize (case c of Const b \<Rightarrow> invertConst (Const b) | ch \<Rightarrow> Not ch) \<le> Suc (qsize c)"
  by (cases c) (auto simp: invertConst_def)

lemma sum_qsize_le:
  "(\<And>q. q \<in> set qs \<Longrightarrow> qsize (f q) \<le> qsize q) \<Longrightarrow> sum_list (map qsize (map f qs)) \<le> sum_list (map qsize qs)"
  unfolding map_map comp_def by (rule sum_list_map_le)

lemma eval_size_partial:
  shows "evalConstants_mapEval_dom (Inl q) \<Longrightarrow> qsize (evalConstants q) \<le> qsize q"
    and "evalConstants_mapEval_dom (Inr q) \<Longrightarrow> qsize (mapEval q) \<le> qsize q"
proof (induction q and q rule: evalConstants_mapEval.pinduct)
  case (1 qs)
  then show ?case
    using qsize_dropConsts [of True "map mapEval qs" "[]"] sum_qsize_le [of qs mapEval]
    by (simp add: evalConstants.psimps)
next
  case (2 qs)
  then show ?case
    using qsize_dropConsts [of False "map mapEval qs" "[]"] sum_qsize_le [of qs mapEval]
    by (simp add: evalConstants.psimps)
next
  case (3 q)
  then show ?case
    using qsize_Not_eval [of "evalConstants q"] by (simp add: evalConstants.psimps)
next
  case (14 qs)
  then show ?case using sum_qsize_le [of qs mapEval] by (simp add: mapEval.psimps)
next
  case (15 qs)
  then show ?case using sum_qsize_le [of qs mapEval] by (simp add: mapEval.psimps)
next
  case (16 q)
  then show ?case by (simp add: mapEval.psimps)
qed (auto simp: evalConstants.psimps mapEval.psimps evalAtom_def)

lemma qsize_member: "q \<in> set qs \<Longrightarrow> qsize q \<le> sum_list (map qsize qs)"
  by (simp add: member_le_sum_list)

lemma sum_mapEval_le:
  "(\<And>q. q \<in> set qs \<Longrightarrow> evalConstants_mapEval_dom (Inr q)) \<Longrightarrow>
    sum_list (map (qsize \<circ> mapEval) qs) \<le> sum_list (map qsize qs)"
  using sum_qsize_le [of qs mapEval] eval_size_partial(2) by simp

termination evalConstants
  by (relation "inv_image (less_than <*lex*> less_than)
    (\<lambda>x. case x of Inl q \<Rightarrow> (qsize q, 0::nat) | Inr q \<Rightarrow> (qsize q, Suc 0))")
    (simp_all add: le_imp_less_Suc qsize_member sum_mapEval_le le_less [symmetric] eval_size_partial(2)
      wf_inv_image wf_lex_prod)

lemma mapEval_Map: "mapEval q = Map q evalConstants"
  by (induction q) (auto cong: map_cong)

lemma evalConstants_children:
  "evalConstants (And qs) = dropConsts True (map (\<lambda>q. Map q evalConstants) qs) []"
  "evalConstants (Or qs) = dropConsts False (map (\<lambda>q. Map q evalConstants) qs) []"
  by (simp_all add: mapEval_Map [abs_def])

section \<open>Flattening\<close>

fun isAnd :: "Q \<Rightarrow> bool" where
  "isAnd (And _) = True"
| "isAnd _ = False"

fun isOr :: "Q \<Rightarrow> bool" where
  "isOr (Or _) = True"
| "isOr _ = False"

fun queryChildren :: "Q \<Rightarrow> Q list" where
  "queryChildren (And qs) = qs"
| "queryChildren (Or qs) = qs"
| "queryChildren _ = []"

text \<open>The loop of \<^verbatim>\<open>flattenAndOr\<close> over the flattened children; \<open>same\<close> tests for the type of
  the parent.\<close>

fun flattenLoop :: "(Q \<Rightarrow> bool) \<Rightarrow> (Q \<times> bool) list \<Rightarrow> Q list \<times> bool" where
  "flattenLoop same [] = ([], False)"
| "flattenLoop same ((ch, subChanged) # rs) =
     (let (flat, changed) = flattenLoop same rs in
        if same ch then (queryChildren ch @ flat, True)
        else (ch # flat, subChanged \<or> changed))"

fun flatten :: "Q \<Rightarrow> Q \<times> bool" where
  "flatten (And qs) = (case qs of [q] \<Rightarrow> (q, True)
     | _ \<Rightarrow> (let (flat, changed) = flattenLoop isAnd (map flatten qs) in (And flat, changed)))"
| "flatten (Or qs) = (case qs of [q] \<Rightarrow> (q, True)
     | _ \<Rightarrow> (let (flat, changed) = flattenLoop isOr (map flatten qs) in (Or flat, changed)))"
| "flatten (Not q) = (let (ch, changed) = flatten q in (Not ch, changed))"
| "flatten q = (q, False)"

lemma flatten_list:
  "flatten (And qs) = (if length qs = 1 then (hd qs, True)
     else (And (fst (flattenLoop isAnd (map flatten qs))), snd (flattenLoop isAnd (map flatten qs))))"
  "flatten (Or qs) = (if length qs = 1 then (hd qs, True)
     else (Or (fst (flattenLoop isOr (map flatten qs))), snd (flattenLoop isOr (map flatten qs))))"
  by (auto simp: split_beta split: list.splits)

lemma qsize_children: "isAnd q \<or> isOr q \<Longrightarrow> Suc (sum_list (map qsize (queryChildren q))) = qsize q"
  by (cases q) auto

lemma flattenLoop_size:
  assumes "\<And>q. same q \<Longrightarrow> isAnd q \<or> isOr q"
    and "\<And>q. q \<in> set qs \<Longrightarrow> if snd (f q) then qsize (fst (f q)) < qsize q else fst (f q) = q"
    and "flattenLoop same (map f qs) = (flat, changed)"
  shows "if changed then sum_list (map qsize flat) < sum_list (map qsize qs) else flat = qs"
  using assms(2,3)
proof (induction qs arbitrary: flat changed)
  case (Cons q qs)
  obtain c s where fq: "f q = (c, s)" by force
  obtain flat' changed' where r: "flattenLoop same (map f qs) = (flat', changed')" by force
  have IH: "if changed' then sum_list (map qsize flat') < sum_list (map qsize qs) else flat' = qs"
    using Cons.IH [OF _ r] Cons.prems(1) by simp
  have q: "if s then qsize c < qsize q else c = q" using Cons.prems(1) [of q] fq by (auto split: if_splits)
  show ?case
  proof (cases "same c")
    case True
    then show ?thesis using Cons.prems(2) IH q fq r qsize_children [of c] assms(1) [of c]
      by (auto split: if_splits)
  next
    case False
    then show ?thesis using Cons.prems(2) IH q fq r by (auto split: if_splits)
  qed
qed simp

lemma flatten_size:
  "if snd (flatten q) then qsize (fst (flatten q)) < qsize q else fst (flatten q) = q"
proof (induction q rule: flatten.induct)
  case (1 qs)
  show ?case
  proof (cases "\<exists>q. qs = [q]")
    case False
    obtain flat changed where r: "flattenLoop isAnd (map flatten qs) = (flat, changed)" by force
    have "flatten (And qs) = (And flat, changed)" using False r by (auto split: list.splits)
    then show ?thesis using flattenLoop_size [OF _ _ r] "1.IH" False by (auto split: list.splits if_splits)
  qed auto
next
  case (2 qs)
  show ?case
  proof (cases "\<exists>q. qs = [q]")
    case False
    obtain flat changed where r: "flattenLoop isOr (map flatten qs) = (flat, changed)" by force
    have "flatten (Or qs) = (Or flat, changed)" using False r by (auto split: list.splits)
    then show ?thesis using flattenLoop_size [OF _ _ r] "2.IH" False by (auto split: list.splits if_splits)
  qed auto
qed (auto split: prod.splits)

section \<open>Simplification\<close>

function simplifyLoop :: "Q \<Rightarrow> Q" where
  "simplifyLoop q = (let (q', changed) = flatten q in if changed then simplifyLoop q' else q')"
  by pat_completeness auto
termination
  by (relation "measure qsize") (simp, metis flatten_size fst_conv snd_conv in_measure)

declare simplifyLoop.simps [simp del]

lemma simplifyLoop_step:
  "snd (flatten q) \<Longrightarrow> simplifyLoop q = simplifyLoop (fst (flatten q))"
  "\<not> snd (flatten q) \<Longrightarrow> simplifyLoop q = q"
  using flatten_size [of q] by (subst simplifyLoop.simps, simp add: split_beta)+

lemma simplifyLoop_induct [case_names step]:
  assumes "\<And>q. (snd (flatten q) \<Longrightarrow> P (fst (flatten q))) \<Longrightarrow> P q"
  shows "P q"
proof (induction q rule: measure_induct_rule [of qsize])
  case (less q)
  then show ?case using assms [of q] flatten_size [of q] by simp
qed

definition Simplify :: "Q \<Rightarrow> Q" where
  "Simplify q = simplifyLoop (evalConstants q)"

section \<open>Meaning\<close>

fun qsem :: "(Q \<Rightarrow> bool) \<Rightarrow> Q \<Rightarrow> bool" where
  "qsem v (And qs) \<longleftrightarrow> (\<forall>q \<in> set qs. qsem v q)"
| "qsem v (Or qs) \<longleftrightarrow> (\<exists>q \<in> set qs. qsem v q)"
| "qsem v (Not q) \<longleftrightarrow> \<not> qsem v q"
| "qsem v (Const b) \<longleftrightarrow> b"
| "qsem v q \<longleftrightarrow> v q"

text \<open>Valuations for which the empty pattern matches everything.\<close>

definition coherent :: "(Q \<Rightarrow> bool) \<Rightarrow> bool" where
  "coherent v \<longleftrightarrow> (\<forall>s. Pattern s = [] \<longrightarrow> v (QSubstring s)) \<and>
     (\<forall>r. Regexp r = OpEmptyMatch \<longrightarrow> v (QRegexp r)) \<and> v (Branch []) \<and> v (RepoSet [])"

lemma evalAtom_sem: "coherent v \<Longrightarrow> qsem v (evalAtom q) = qsem v q"
  by (cases q) (auto simp: evalAtom_def coherent_def)

lemma dropConsts_And: "qsem v (dropConsts True qs acc) \<longleftrightarrow> (\<forall>q \<in> set acc \<union> set qs. qsem v q)"
  by (induction True qs acc rule: dropConsts.induct) auto

lemma dropConsts_Or: "qsem v (dropConsts False qs acc) \<longleftrightarrow> (\<exists>q \<in> set acc \<union> set qs. qsem v q)"
  by (induction False qs acc rule: dropConsts.induct) auto

lemma Not_eval_sem:
  "qsem v (case c of Const b \<Rightarrow> invertConst (Const b) | ch \<Rightarrow> Not ch) \<longleftrightarrow> \<not> qsem v c"
  by (cases c) (auto simp: invertConst_def)

lemma evalConstants_sem:
  assumes "coherent v"
  shows "qsem v (evalConstants q) = qsem v q" and "qsem v (mapEval q) = qsem v q"
proof (induction q and q rule: evalConstants_mapEval.induct)
  case (1 qs)
  then show ?case by (simp add: dropConsts_And)
next
  case (2 qs)
  then show ?case by (simp add: dropConsts_Or)
next
  case (3 q)
  then show ?case unfolding evalConstants.simps Not_eval_sem by simp
next
  case (14 qs)
  then show ?case by (simp del: evalConstants.simps)
next
  case (15 qs)
  then show ?case by (simp del: evalConstants.simps)
next
  case (16 q)
  then show ?case by (simp del: evalConstants.simps)
qed (simp_all only: evalConstants.simps mapEval.simps evalAtom_sem [OF assms])

text \<open>The atoms that the folding replaces by true: a substring with an empty pattern, the empty regular
  expression, an empty branch pattern and an empty set of repositories.\<close>

fun trivialAtom :: "Q \<Rightarrow> bool" where
  "trivialAtom (QSubstring s) \<longleftrightarrow> Pattern s = []"
| "trivialAtom (QRegexp r) \<longleftrightarrow> Regexp r = OpEmptyMatch"
| "trivialAtom (Branch p) \<longleftrightarrow> p = []"
| "trivialAtom (RepoSet s) \<longleftrightarrow> s = []"
| "trivialAtom q \<longleftrightarrow> False"

lemma trivialAtom_coherent: "coherent (\<lambda>a. trivialAtom a \<or> v a)"
  by (simp add: coherent_def)

lemma evalAtom_trivial: "qsem v (evalAtom q) = qsem (\<lambda>a. trivialAtom a \<or> v a) q"
  if "\<And>qs. q \<noteq> And qs" "\<And>qs. q \<noteq> Or qs" "\<And>p. q \<noteq> Not p"
  using that by (cases q) (auto simp: evalAtom_def)

lemma evalConstants_trivial:
  shows "qsem v (evalConstants q) = qsem (\<lambda>a. trivialAtom a \<or> v a) q"
    and "qsem v (mapEval q) = qsem (\<lambda>a. trivialAtom a \<or> v a) q"
proof (induction q and q rule: evalConstants_mapEval.induct)
  case (1 qs)
  then show ?case by (simp add: dropConsts_And)
next
  case (2 qs)
  then show ?case by (simp add: dropConsts_Or)
next
  case (3 q)
  then show ?case unfolding evalConstants.simps Not_eval_sem by simp
next
  case (14 qs)
  then show ?case by (simp del: evalConstants.simps add: evalConstants_sem(2) [OF trivialAtom_coherent])
next
  case (15 qs)
  then show ?case by (simp del: evalConstants.simps add: evalConstants_sem(2) [OF trivialAtom_coherent])
next
  case (16 q)
  then show ?case by (simp del: evalConstants.simps add: evalConstants_sem(2) [OF trivialAtom_coherent])
qed (simp_all only: evalConstants.simps mapEval.simps evalAtom_trivial Q.distinct not_False_eq_True)

lemma flattenLoop_And:
  assumes "\<And>q. q \<in> set qs \<Longrightarrow> qsem v (fst (f q)) = qsem v q"
  shows "(\<forall>q \<in> set (fst (flattenLoop isAnd (map f qs))). qsem v q) \<longleftrightarrow> (\<forall>q \<in> set qs. qsem v q)"
  using assms
proof (induction qs)
  case (Cons q qs)
  obtain c b where fq: "f q = (c, b)" by force
  then have c: "qsem v c = qsem v q" using Cons.prems [of q] by simp
  have "isAnd c \<Longrightarrow> (\<forall>q \<in> set (queryChildren c). qsem v q) = qsem v q" using c by (cases c) auto
  then show ?case using Cons fq c by (cases "isAnd c") (simp_all add: split_beta ball_Un bex_Un)
qed simp

lemma flattenLoop_Or:
  assumes "\<And>q. q \<in> set qs \<Longrightarrow> qsem v (fst (f q)) = qsem v q"
  shows "(\<exists>q \<in> set (fst (flattenLoop isOr (map f qs))). qsem v q) \<longleftrightarrow> (\<exists>q \<in> set qs. qsem v q)"
  using assms
proof (induction qs)
  case (Cons q qs)
  obtain c b where fq: "f q = (c, b)" by force
  then have c: "qsem v c = qsem v q" using Cons.prems [of q] by simp
  have "isOr c \<Longrightarrow> (\<exists>q \<in> set (queryChildren c). qsem v q) = qsem v q" using c by (cases c) auto
  then show ?case using Cons fq c by (cases "isOr c") (simp_all add: split_beta ball_Un bex_Un)
qed simp

lemma flatten_sem: "qsem v (fst (flatten q)) = qsem v q"
proof (induction q rule: flatten.induct)
  case (1 qs)
  then show ?case using flattenLoop_And [of qs v flatten] by (auto simp: split_beta split: list.splits)
next
  case (2 qs)
  then show ?case using flattenLoop_Or [of qs v flatten] by (auto simp: split_beta split: list.splits)
qed (auto simp: split_beta)

lemma simplifyLoop_sem: "qsem v (simplifyLoop q) = qsem v q"
proof (induction q rule: simplifyLoop_induct)
  case (step q)
  then show ?case using flatten_sem [of v q] by (cases "snd (flatten q)") (simp_all add: simplifyLoop_step)
qed

section \<open>Normal forms\<close>

text \<open>No constant below the top.\<close>

fun constFree :: "Q \<Rightarrow> bool" where
  "constFree (And qs) \<longleftrightarrow> (\<forall>q \<in> set qs. constFree q)"
| "constFree (Or qs) \<longleftrightarrow> (\<forall>q \<in> set qs. constFree q)"
| "constFree (Not q) \<longleftrightarrow> constFree q"
| "constFree (Const b) \<longleftrightarrow> False"
| "constFree q \<longleftrightarrow> True"

definition folded :: "Q \<Rightarrow> bool" where
  "folded q \<longleftrightarrow> (\<exists>b. q = Const b) \<or> constFree q"

lemma dropConsts_folded:
  "(\<forall>q \<in> set qs. folded q) \<Longrightarrow> (\<forall>q \<in> set acc. constFree q) \<Longrightarrow> folded (dropConsts c qs acc)"
  by (induction c qs acc rule: dropConsts.induct) (auto simp: folded_def)

lemma evalConstants_folded: "folded (evalConstants q)" and mapEval_folded: "folded (mapEval q)"
proof (induction q and q rule: evalConstants_mapEval.induct)
  case (1 qs)
  then show ?case by (auto intro!: dropConsts_folded)
next
  case (2 qs)
  then show ?case by (auto intro!: dropConsts_folded)
next
  case (3 q)
  then show ?case by (auto simp: folded_def invertConst_def split: Q.splits)
qed (auto simp: folded_def evalAtom_def)

lemma flattenLoop_constFree:
  "(\<forall>q \<in> set qs. constFree (fst (f q))) \<Longrightarrow> \<forall>q \<in> set (fst (flattenLoop same (map f qs))). constFree q"
proof (induction qs)
  case (Cons q qs)
  have "constFree c \<Longrightarrow> \<forall>q \<in> set (queryChildren c). constFree q" for c by (cases c) auto
  then show ?case using Cons by (cases "f q") (auto simp: split_beta)
qed simp

lemma flatten_constFree: "constFree q \<Longrightarrow> constFree (fst (flatten q))"
proof (induction q)
  case (And qs)
  then have "\<forall>q \<in> set (fst (flattenLoop isAnd (map flatten qs))). constFree q"
    by (intro flattenLoop_constFree) simp
  then show ?case using And.prems by (cases qs) (simp_all add: flatten_list del: flatten.simps)
next
  case (Or qs)
  then have "\<forall>q \<in> set (fst (flattenLoop isOr (map flatten qs))). constFree q"
    by (intro flattenLoop_constFree) simp
  then show ?case using Or.prems by (cases qs) (simp_all add: flatten_list del: flatten.simps)
qed (auto simp: split_beta)

lemma simplifyLoop_folded: "folded q \<Longrightarrow> folded (simplifyLoop q)"
proof (induction q rule: simplifyLoop_induct)
  case (step q)
  have "folded (fst (flatten q))" using step.prems flatten_constFree by (auto simp: folded_def)
  then show ?case using step by (cases "snd (flatten q)") (simp_all add: simplifyLoop_step)
qed

lemma simplifyLoop_flat: "\<not> snd (flatten (simplifyLoop q))"
proof (induction q rule: simplifyLoop_induct)
  case (step q)
  then show ?case by (cases "snd (flatten q)") (simp_all add: simplifyLoop_step)
qed

lemmas Simplify_sem = evalConstants_sem(1) [THEN trans [OF simplifyLoop_sem], folded Simplify_def]

lemmas Simplify_trivial = evalConstants_trivial(1) [THEN trans [OF simplifyLoop_sem], folded Simplify_def]

lemma Simplify_folded: "folded (Simplify q)"
  unfolding Simplify_def by (intro simplifyLoop_folded evalConstants_folded)

text \<open>After the expansion every text atom looks at the file name or at the content.\<close>

fun targeted :: "Q \<Rightarrow> bool" where
  "targeted (QSubstring s) \<longleftrightarrow> FileName s \<or> Content s"
| "targeted (QRegexp r) \<longleftrightarrow> ReFileName r \<or> ReContent r"
| "targeted q \<longleftrightarrow> True"

lemma Expand_targeted: "\<forall>a \<in> set (VisitAtoms (Map q ExpandFileContent)). targeted a"
  by (induction q) (auto simp: ExpandFileContent_def NewOr_def)

text \<open>What a text atom looks for, apart from its target.\<close>

datatype textPattern = SubstringPattern bytes bool | RegexpPattern regexp bool

text \<open>The meaning of the atoms for one document, from the patterns found in its name and in its content.
  The evaluation knows two targets: \<^verbatim>\<open>newMatchTree\<close> and \<^verbatim>\<open>newSubstringMatchTree\<close> of matchtree.go look at the
  name if \<^verbatim>\<open>FileName\<close> is set and at the content in every other case.  The query language has a third:
  an atom with neither flag asks for a match in the name or in the content.\<close>

fun evaluated :: "(textPattern \<Rightarrow> bool) \<Rightarrow> (textPattern \<Rightarrow> bool) \<Rightarrow> (Q \<Rightarrow> bool) \<Rightarrow> Q \<Rightarrow> bool" where
  "evaluated inName inContent v (QSubstring s) =
     (if FileName s then inName else inContent) (SubstringPattern (Pattern s) (CaseSensitive s))"
| "evaluated inName inContent v (QRegexp r) =
     (if ReFileName r then inName else inContent) (RegexpPattern (Regexp r) (ReCaseSensitive r))"
| "evaluated inName inContent v q = v q"

fun asked :: "(textPattern \<Rightarrow> bool) \<Rightarrow> (textPattern \<Rightarrow> bool) \<Rightarrow> (Q \<Rightarrow> bool) \<Rightarrow> Q \<Rightarrow> bool" where
  "asked inName inContent v (QSubstring s) =
     (let p = SubstringPattern (Pattern s) (CaseSensitive s) in
      if FileName s then inName p else if Content s then inContent p else inName p \<or> inContent p)"
| "asked inName inContent v (QRegexp r) =
     (let p = RegexpPattern (Regexp r) (ReCaseSensitive r) in
      if ReFileName r then inName p else if ReContent r then inContent p else inName p \<or> inContent p)"
| "asked inName inContent v q = v q"

lemma Expand_sem: "qsem (evaluated n c v) (Map q ExpandFileContent) = qsem (asked n c v) q"
  by (induction q) (auto simp: ExpandFileContent_def NewOr_def Let_def)

section \<open>Properties\<close>

text \<open>C9: \<^verbatim>\<open>Simplify\<close> terminates and keeps the meaning of a query for every valuation of the atoms, where
  the empty substring, the empty regular expression, the empty branch pattern and the empty set of
  repositories count as true whatever the valuation says of them; its result is a constant or has no
  constant in it, and a further flattening changes nothing.\<close>

theorem Simplify_correct:
  "qsem v (Simplify q) = qsem (\<lambda>a. trivialAtom a \<or> v a) q
    \<and> ((\<exists>b. Simplify q = Const b) \<or> constFree (Simplify q)) \<and> \<not> snd (flatten (Simplify q))"
  using Simplify_trivial [of v q] Simplify_folded [of q] simplifyLoop_flat
  by (simp add: folded_def Simplify_def)

text \<open>C11: mapping \<^verbatim>\<open>ExpandFileContent\<close> over a query makes the evaluation, which looks either at the name
  or at the content for an atom, give what the query asks for, where an atom without a target asks for a
  match in the name or in the content; no atom without a target is left.\<close>

theorem ExpandFileContent_correct:
  "qsem (evaluated inName inContent v) (Map q ExpandFileContent) = qsem (asked inName inContent v) q
    \<and> list_all targeted (VisitAtoms (Map q ExpandFileContent))"
  using Expand_sem Expand_targeted by (simp add: list_all_iff)

end
