(* ===== verification/Zoekt_Api.thy ===== *)
theory Zoekt_Api
  imports Zoekt_Prelude Complex_Main
begin

text \<open>
  The types of \<^verbatim>\<open>api.go\<close>: what a search takes and returns, the metadata of a repository and of
  an index, and the statistics. Go \<^verbatim>\<open>int\<close> counters are integers; a score is a rational number,
  the rounding of \<^verbatim>\<open>float64\<close> is left out. Field names that several Go structs share carry a
  prefix.
\<close>

section \<open>Matches\<close>

record LineFragmentMatch =
  LineOffset :: int
  Offset :: u32
  MatchLength :: int

record LineMatch =
  lmLine :: bytes
  lmLineStart :: int
  lmLineEnd :: int
  lmLineNumber :: int
  lmFileName :: bool
  lmScore :: rat
  lmLineFragments :: "LineFragmentMatch list"

record FileMatch =
  fmScore :: rat
  fmFileName :: bytes
  fmRepository :: bytes
  fmBranches :: "bytes list"
  fmLineMatches :: "LineMatch list"
  fmContent :: bytes
  fmChecksum :: bytes
  fmLanguage :: bytes
  fmSubRepositoryName :: bytes
  fmSubRepositoryPath :: bytes
  fmVersion :: bytes

section \<open>Statistics\<close>

record Stats =
  ContentBytesLoaded :: int
  IndexBytesLoaded :: int
  Crashes :: int
  FileCount :: int
  ShardFilesConsidered :: int
  FilesConsidered :: int
  FilesLoaded :: int
  FilesSkipped :: int
  ShardsSkipped :: int
  MatchCount :: int
  NgramMatches :: int

definition zeroStats :: Stats where
  "zeroStats = \<lparr>ContentBytesLoaded = 0, IndexBytesLoaded = 0, Crashes = 0, FileCount = 0,
     ShardFilesConsidered = 0, FilesConsidered = 0, FilesLoaded = 0, FilesSkipped = 0,
     ShardsSkipped = 0, MatchCount = 0, NgramMatches = 0\<rparr>"

text \<open>\<^verbatim>\<open>Stats.Add\<close>; the two durations are not part of the record, and the Go code does not add
  them up either.\<close>

definition addStats :: "Stats \<Rightarrow> Stats \<Rightarrow> Stats" where
  "addStats s t = \<lparr>ContentBytesLoaded = ContentBytesLoaded s + ContentBytesLoaded t,
     IndexBytesLoaded = IndexBytesLoaded s + IndexBytesLoaded t,
     Crashes = Crashes s + Crashes t,
     FileCount = FileCount s + FileCount t,
     ShardFilesConsidered = ShardFilesConsidered s + ShardFilesConsidered t,
     FilesConsidered = FilesConsidered s + FilesConsidered t,
     FilesLoaded = FilesLoaded s + FilesLoaded t,
     FilesSkipped = FilesSkipped s + FilesSkipped t,
     ShardsSkipped = ShardsSkipped s + ShardsSkipped t,
     MatchCount = MatchCount s + MatchCount t,
     NgramMatches = NgramMatches s + NgramMatches t\<rparr>"

lemma addStats_zero [simp]: "addStats zeroStats s = s" "addStats s zeroStats = s"
  by (simp_all add: addStats_def zeroStats_def)

lemma addStats_assoc: "addStats (addStats a b) c = addStats a (addStats b c)"
  by (simp add: addStats_def)

lemma addStats_commute: "addStats a b = addStats b a"
  by (simp add: addStats_def)

record RepoStats =
  Repos :: int
  Shards :: int
  Documents :: int
  IndexBytes :: int
  ContentBytes :: int

text \<open>\<^verbatim>\<open>RepoStats.Add\<close>: the number of repositories stays.\<close>

definition addRepoStats :: "RepoStats \<Rightarrow> RepoStats \<Rightarrow> RepoStats" where
  "addRepoStats s t = s\<lparr>Shards := Shards s + Shards t, IndexBytes := IndexBytes s + IndexBytes t,
     Documents := Documents s + Documents t, ContentBytes := ContentBytes s + ContentBytes t\<rparr>"

section \<open>Repositories\<close>

record RepositoryBranch =
  brName :: bytes
  brVersion :: bytes

text \<open>A repository holds its subrepositories by path, so it is a datatype. A nil map of
  subrepositories is \<open>None\<close>.\<close>

datatype Repository = Repository
  (repoName: bytes)
  (repoURL: bytes)
  (repoBranches: "RepositoryBranch list")
  (SubRepoMap: "(bytes \<times> Repository) list option")
  (CommitURLTemplate: bytes)
  (FileURLTemplate: bytes)
  (LineFragmentTemplate: bytes)
  (RawConfig: "(bytes \<times> bytes) list")
  (Rank: "16 word")

definition emptyRepository :: Repository where
  "emptyRepository = Repository [] [] [] None [] [] [] [] 0"

record IndexMetadata =
  IndexFormatVersion :: int
  IndexFeatureVersion :: int
  IndexTime :: int
  PlainASCII :: bool
  LanguageMap :: "(bytes \<times> u8) list"
  ZoektVersion :: bytes

record RepoListEntry =
  rleRepository :: Repository
  rleIndexMetadata :: IndexMetadata
  rleStats :: RepoStats

record RepoList =
  rlRepos :: "RepoListEntry list"
  rlCrashes :: int

section \<open>Results and options\<close>

record SearchResult =
  srStats :: Stats
  srFiles :: "FileMatch list"
  RepoURLs :: "(bytes \<times> bytes) list"
  srLineFragments :: "(bytes \<times> bytes) list"

definition emptyResult :: SearchResult where
  "emptyResult = \<lparr>srStats = zeroStats, srFiles = [], RepoURLs = [], srLineFragments = []\<rparr>"

record SearchOptions =
  EstimateDocCount :: bool
  Whole :: bool
  ShardMaxMatchCount :: int
  TotalMaxMatchCount :: int
  ShardMaxImportantMatch :: int
  TotalMaxImportantMatch :: int
  MaxWallTime :: int
  MaxDocDisplayCount :: int

text \<open>\<^verbatim>\<open>SearchOptions.SetDefaults\<close> of eval.go.\<close>

definition SetDefaults :: "SearchOptions \<Rightarrow> SearchOptions" where
  "SetDefaults o0 =
     (let o1 = (if ShardMaxMatchCount o0 = 0 then o0\<lparr>ShardMaxMatchCount := 100000\<rparr> else o0);
          o2 = (if TotalMaxMatchCount o1 = 0 then o1\<lparr>TotalMaxMatchCount := 10 * ShardMaxMatchCount o1\<rparr> else o1);
          o3 = (if ShardMaxImportantMatch o2 = 0 then o2\<lparr>ShardMaxImportantMatch := 10\<rparr> else o2)
      in if TotalMaxImportantMatch o3 = 0
         then o3\<lparr>TotalMaxImportantMatch := 10 * ShardMaxImportantMatch o3\<rparr> else o3)"

end
