(* ===== verification/Zoekt_Indexdata.thy ===== *)
theory Zoekt_Indexdata
  imports Zoekt_Sectioniter Zoekt_Section Zoekt_Query Zoekt_Api
begin

text \<open>
  The model of \<^verbatim>\<open>indexdata.go\<close>, of the constructors of hit iterators in \<^verbatim>\<open>hititer.go\<close>,
  and of the readers of document data in \<^verbatim>\<open>read.go\<close>. The file of a shard is an interface value
  in Go; the record holds its \<^verbatim>\<open>Read\<close> method. A Go map is an association list with distinct
  keys, read with \<open>map_of\<close>; a missing key gives the zero value.

  \<open>iterateNgrams\<close> is the heart of the index: it reduces a substring query to the two rarest
  trigrams of its pattern. The lemmas show that the candidates it produces are exactly the positions
  where both trigrams stand at the right distance, so no occurrence of the pattern is lost.
\<close>

section \<open>The Go library\<close>

text \<open>What the searcher uses of the Go library beyond \<open>Go_Std\<close>: the Unicode tables, and
  regular expressions. \<open>reString\<close> prints a parsed expression, \<open>reCompile\<close> compiles the text
  into the function \<^verbatim>\<open>FindAllIndex(_, -1)\<close>, or fails. They are parameters of the model.\<close>

type_synonym matcher = "bytes \<Rightarrow> (nat \<times> nat) list"

record golib =
  simpleFold :: "rune \<Rightarrow> rune"
  lowerRune :: "rune \<Rightarrow> rune"
  reString :: "regexp \<Rightarrow> bytes"
  reCompile :: "bytes \<Rightarrow> matcher option"

section \<open>Index data\<close>

record indexData =
  ixFile :: "u32 \<Rightarrow> u32 \<Rightarrow> goslice res"
  ixNgrams :: "(ngram \<times> simpleSection) list"
  newlinesStart :: u32
  newlinesIndex :: "u32 list"
  docSectionsStart :: u32
  docSectionsIndex :: "u32 list"
  ixRuneDocSections :: "DocumentSection list"
  ixRuneOffsets :: "u32 list"
  boundariesStart :: u32
  boundaries :: "u32 list"
  ixFileEndRunes :: "u32 list"
  fileNameContent :: goslice
  fileNameIndex :: "u32 list"
  fileNameNgrams :: "(ngram \<times> u32 list) list"
  fileNameRuneOffsets :: "u32 list"
  fileNameEndRunes :: "u32 list"
  fileBranchMasks :: "u64 list"
  branchNames :: "(u64 \<times> bytes) list"
  branchIDs :: "(bytes \<times> u64) list"
  metaData :: IndexMetadata
  repoMetaData :: Repository
  ixSubRepos :: "u32 list"
  subRepoPaths :: "bytes list"
  ixChecksums :: goslice
  ixLanguages :: bytes
  languageMap :: "(u8 \<times> bytes) list"
  repoListEntry :: RepoListEntry

text \<open>Reading a slice or a map by key: out of range panics, a missing key gives the zero value.\<close>

definition nthO :: "'a list \<Rightarrow> u32 \<Rightarrow> 'a option" where
  "nthO xs i = (if unat i < length xs then Some (xs ! unat i) else None)"

definition lookupOr :: "'b \<Rightarrow> ('a \<times> 'b) list \<Rightarrow> 'a \<Rightarrow> 'b" where
  "lookupOr z m k = (case map_of m k of Some v \<Rightarrow> v | None \<Rightarrow> z)"

definition orPanic :: "'a option \<Rightarrow> 'a res" where
  "orPanic x = (case x of Some v \<Rightarrow> Inr v | None \<Rightarrow> Inl (GoPanic ''runtime error''))"

lemma orPanic_simps [simp]: "orPanic (Some v) = Inr v" "orPanic None = Inl (GoPanic ''runtime error'')"
  by (simp_all add: orPanic_def)

text \<open>\<^verbatim>\<open>content[a:b]\<close> as a slice that keeps the capacity behind it.\<close>

definition goReslice :: "goslice \<Rightarrow> u32 \<Rightarrow> u32 \<Rightarrow> goslice option" where
  "goReslice c a b = map_option (\<lambda>s. (s, drop (unat b) (fst c @ snd c))) (goSlice c a b)"

text \<open>The entry of a compound section between two consecutive offsets.\<close>

definition itemSection :: "u32 \<Rightarrow> u32 list \<Rightarrow> u32 \<Rightarrow> simpleSection option" where
  "itemSection start index i = do {
     a \<leftarrow> nthO index i;
     b \<leftarrow> nthO index (i + 1);
     Some \<lparr>secOff = start + a, secSz = b - a\<rparr>
   }"

definition getChecksum :: "indexData \<Rightarrow> u32 \<Rightarrow> bytes option" where
  "getChecksum d idx = (let start = 8 * idx in goSlice (ixChecksums d) start (start + 8))"

definition ixFileName :: "indexData \<Rightarrow> u32 \<Rightarrow> goslice option" where
  "ixFileName d i = do {
     a \<leftarrow> nthO (fileNameIndex d) i;
     b \<leftarrow> nthO (fileNameIndex d) (i + 1);
     goReslice (fileNameContent d) a b
   }"

definition memoryUse :: "indexData \<Rightarrow> int" where
  "memoryUse d =
     sum_list (map (\<lambda>a. 4 * int (length a))
       [newlinesIndex d, docSectionsIndex d, boundaries d, fileNameIndex d, ixRuneOffsets d,
        fileNameRuneOffsets d, ixFileEndRunes d, fileNameEndRunes d])
     + 8 * int (length (ixRuneDocSections d)) + 8 * int (length (fileBranchMasks d))
     + 12 * int (length (ixNgrams d))
     + sum_list (map (\<lambda>(k, v). 4 * int (length v) + 4) (fileNameNgrams d))"

definition calculateStats :: "indexData \<Rightarrow> indexData" where
  "calculateStats d =
     (let lst = (if boundaries d = [] then 0 else last (boundaries d));
          lastFN = (if fileNameIndex d = [] then lst else last (fileNameIndex d))
      in d\<lparr>repoListEntry := \<lparr>rleRepository = repoMetaData d, rleIndexMetadata = metaData d,
             rleStats = \<lparr>Repos = 0, Shards = 0, Documents = int (length (newlinesIndex d)) - 1,
                         IndexBytes = memoryUse d,
                         ContentBytes = int (unat lst) + int (unat lastFN)\<rparr>\<rparr>\<rparr>)"

section \<open>Reading the data of a document\<close>

definition readSectionBlob :: "indexData \<Rightarrow> simpleSection \<Rightarrow> goslice res" where
  "readSectionBlob d sec = ixFile d (secOff sec) (secSz sec)"

text \<open>\<^verbatim>\<open>compoundSection.readBlob\<close>; the offsets hold no end of the last item, for which it panics.\<close>

definition readBlob :: "compoundSection \<Rightarrow> indexData \<Rightarrow> u32 \<Rightarrow> goslice res" where
  "readBlob c d i = rbind (orPanic (itemSection 0 (csOffsets c) i)) (readSectionBlob d)"

definition readContents :: "indexData \<Rightarrow> u32 \<Rightarrow> goslice res" where
  "readContents d i = rbind (orPanic (itemSection (boundariesStart d) (boundaries d) i)) (readSectionBlob d)"

definition readContentSlice :: "indexData \<Rightarrow> u32 \<Rightarrow> u32 \<Rightarrow> goslice res" where
  "readContentSlice d off sz = readSectionBlob d \<lparr>secOff = boundariesStart d + off, secSz = sz\<rparr>"

definition readNewlines :: "indexData \<Rightarrow> u32 \<Rightarrow> (u32 list \<times> u32) res" where
  "readNewlines d i =
     rbind (orPanic (itemSection (newlinesStart d) (newlinesIndex d) i)) (\<lambda>sec.
     rbind (readSectionBlob d sec) (\<lambda>b.
     rbind (orPanic (fromSizedDeltas (fst b))) (\<lambda>nl. Inr (nl, secSz sec))))"

definition readDocSections :: "indexData \<Rightarrow> u32 \<Rightarrow> (DocumentSection list \<times> u32) res" where
  "readDocSections d i =
     rbind (orPanic (itemSection (docSectionsStart d) (docSectionsIndex d) i)) (\<lambda>sec.
     rbind (readSectionBlob d sec) (\<lambda>b.
     rbind (orPanic (unmarshalDocSections (fst b))) (\<lambda>secs. Inr (secs, secSz sec))))"

section \<open>The rarest trigrams\<close>

fun firstMinargLoop :: "u32 list \<Rightarrow> nat \<Rightarrow> u32 \<Rightarrow> nat \<Rightarrow> nat" where
  "firstMinargLoop [] i m j = j"
| "firstMinargLoop (x # xs) i m j =
     (if x < m then firstMinargLoop xs (Suc i) x i else firstMinargLoop xs (Suc i) m j)"

definition firstMinarg :: "u32 list \<Rightarrow> u32" where
  "firstMinarg xs = of_nat (firstMinargLoop xs 0 maxUInt32 (length xs))"

fun lastMinargLoop :: "u32 list \<Rightarrow> nat \<Rightarrow> u32 \<Rightarrow> nat \<Rightarrow> nat" where
  "lastMinargLoop [] i m j = j"
| "lastMinargLoop (x # xs) i m j =
     (if x \<le> m then lastMinargLoop xs (Suc i) x i else lastMinargLoop xs (Suc i) m j)"

definition lastMinarg :: "u32 list \<Rightarrow> u32" where
  "lastMinarg xs = of_nat (lastMinargLoop xs 0 maxUInt32 (length xs))"

definition ngramFrequency :: "indexData \<Rightarrow> ngram \<Rightarrow> bool \<Rightarrow> u32" where
  "ngramFrequency d ng filename =
     (if filename then of_nat (length (lookupOr [] (fileNameNgrams d) ng))
      else secSz (lookupOr zeroSection (ixNgrams d) ng))"

section \<open>Constructors of hit iterators\<close>

definition caseVariants :: "(rune \<Rightarrow> rune) \<Rightarrow> bool \<Rightarrow> ngram \<Rightarrow> ngram list option" where
  "caseVariants sfold cs ng = (if cs then Some [ng] else generateCaseNgrams sfold ng)"

fun variantIters :: "indexData \<Rightarrow> bool \<Rightarrow> ngram list \<Rightarrow> postingIterator list res" where
  "variantIters d fn [] = Inr []"
| "variantIters d fn (v # vs) =
     (if fn then
        let b = lookupOr [] (fileNameNgrams d) v in
        rbind (variantIters d fn vs) (\<lambda>its.
          Inr (if b \<noteq> [] then InMemory \<lparr>postings = b, memWhat = v\<rparr> # its else its))
      else
        rbind (readSectionBlob d (lookupOr zeroSection (ixNgrams d) v)) (\<lambda>b.
          if fst b = [] then variantIters d fn vs
          else rbind (orPanic (newCompressedPostingIterator (fst b) v)) (\<lambda>it.
            rbind (variantIters d fn vs) (\<lambda>its. Inr (Compressed it # its)))))"

definition trigramHitIterator ::
  "(rune \<Rightarrow> rune) \<Rightarrow> indexData \<Rightarrow> ngram \<Rightarrow> bool \<Rightarrow> bool \<Rightarrow> trigramIterator res" where
  "trigramHitIterator sfold d ng caseSens fn =
     rbind (orPanic (caseVariants sfold caseSens ng)) (\<lambda>variants.
     rbind (variantIters d fn variants) (\<lambda>iters.
       Inr (if length iters = 1 then Single (hd iters) else Merging iters)))"

definition newDistanceTrigramIter ::
  "(rune \<Rightarrow> rune) \<Rightarrow> indexData \<Rightarrow> ngram \<Rightarrow> ngram \<Rightarrow> u32 \<Rightarrow> bool \<Rightarrow> bool \<Rightarrow> hitIterator res" where
  "newDistanceTrigramIter sfold d ng1 ng2 gap caseSens fn =
     (if gap = 0 then Inl (GoErr ''d == 0'')
      else rbind (trigramHitIterator sfold d ng1 caseSens fn) (\<lambda>a.
           rbind (trigramHitIterator sfold d ng2 caseSens fn) (\<lambda>b.
             Inr (Distance \<lparr>started = False, distance = gap, i1 = a, i2 = b\<rparr>))))"

section \<open>The iterator of a substring query\<close>

text \<open>The frequency of a trigram, summed over its case variants without a check for overflow.\<close>

definition variantFrequency ::
  "(rune \<Rightarrow> rune) \<Rightarrow> indexData \<Rightarrow> Substring \<Rightarrow> ngram \<Rightarrow> u32 option" where
  "variantFrequency sfold d q ng =
     (if CaseSensitive q then Some (ngramFrequency d ng (FileName q))
      else map_option (\<lambda>vs. sum_list (map (\<lambda>v. ngramFrequency d v (FileName q)) vs))
             (generateCaseNgrams sfold ng))"

text \<open>The loop over the trigrams: \<open>None\<close> inside when one of them has frequency 0.\<close>

fun frequencyLoop ::
  "(rune \<Rightarrow> rune) \<Rightarrow> indexData \<Rightarrow> Substring \<Rightarrow> runeNgramOff list \<Rightarrow> u32 list option res" where
  "frequencyLoop sfold d q [] = Inr (Some [])"
| "frequencyLoop sfold d q (o1 # os) =
     rbind (orPanic (variantFrequency sfold d q (ngramOf o1))) (\<lambda>freq.
       if freq = 0 then Inr None
       else rbind (frequencyLoop sfold d q os) (\<lambda>r. Inr (map_option (Cons freq) r)))"

definition noMatchResults :: "baseIterator ngramIterationResults" where
  "noMatchResults = \<lparr>resIter = NoMatchIter ''freq=0'', resCaseSensitive = False, resFileName = False,
     resSubstrBytes = [], resSubstrLowered = []\<rparr>"

text \<open>The two rarest trigrams, in the order of the pattern; \<^verbatim>\<open>frequencies[firstI]\<close> panics when
  no frequency is below \<^verbatim>\<open>maxUInt32\<close>.\<close>

definition pickTrigrams :: "u32 list \<Rightarrow> (u32 \<times> u32) option" where
  "pickTrigrams freqs =
     (let firstI = firstMinarg freqs in
      if unat firstI < length freqs then
        let lastI = lastMinarg (freqs[unat firstI := maxUInt32])
        in Some (if lastI < firstI then (lastI, firstI) else (firstI, lastI))
      else None)"

definition queryEnds :: "indexData \<Rightarrow> Substring \<Rightarrow> u32 list" where
  "queryEnds d q = (if FileName q then fileNameEndRunes d else ixFileEndRunes d)"

definition iterateNgrams ::
  "golib \<Rightarrow> indexData \<Rightarrow> Substring \<Rightarrow> baseIterator ngramIterationResults res" where
  "iterateNgrams L d q =
     (let sfold = simpleFold L; ngramOffs = splitNGrams (Pattern q) in
      rbind (frequencyLoop sfold d q ngramOffs) (\<lambda>r. case r of
        None \<Rightarrow> Inr noMatchResults
      | Some freqs \<Rightarrow>
          rbind (orPanic (pickTrigrams freqs)) (\<lambda>(firstI, lastI).
          rbind (orPanic (nthO ngramOffs firstI)) (\<lambda>o1.
          rbind (orPanic (nthO ngramOffs lastI)) (\<lambda>o2.
          rbind (if firstI \<noteq> lastI
                 then newDistanceTrigramIter sfold d (ngramOf o1) (ngramOf o2) (lastI - firstI)
                        (CaseSensitive q) (FileName q)
                 else rbind (trigramHitIterator sfold d (ngramOf o2) (CaseSensitive q) (FileName q))
                        (\<lambda>it. Inr (Trigram it))) (\<lambda>it.
            Inr \<lparr>resIter = NgramDoc \<lparr>leftPad = firstI,
                    rightPad = of_nat (runeCount (Pattern q)) - firstI, iter = it,
                    ends = queryEnds d q,
                    fileIdx = 0, matchCount = 0\<rparr>,
                 resCaseSensitive = CaseSensitive q, resFileName = FileName q,
                 resSubstrBytes = Pattern q, resSubstrLowered = toLower (lowerRune L) (Pattern q)\<rparr>))))))"

text \<open>\<^verbatim>\<open>newTrimByDocSectionIter\<close> of matchiter.go.\<close>

definition newTrimByDocSectionIter ::
  "indexData \<Rightarrow> Substring \<Rightarrow> baseIterator ngramIterationResults \<Rightarrow> matchIterator" where
  "newTrimByDocSectionIter d q it =
     TrimBySection \<lparr>trimIter = it, patternSize = of_nat (runeCount (Pattern q)),
       fileEndRunes = ixFileEndRunes d, trimDoc = 0, sections = ixRuneDocSections d\<rparr>"

section \<open>The positions of the rarest trigrams\<close>

text \<open>\<open>firstMin xs k\<close>: the least element of \<open>xs\<close> stands at \<open>k\<close> first; \<open>lastMin xs k\<close>: it stands
  at \<open>k\<close> last.\<close>

definition firstMin :: "u32 list \<Rightarrow> nat \<Rightarrow> bool" where
  "firstMin xs k \<longleftrightarrow> k < length xs \<and> (\<forall>l < k. xs ! k < xs ! l) \<and> (\<forall>x \<in> set xs. xs ! k \<le> x)"

definition lastMin :: "u32 list \<Rightarrow> nat \<Rightarrow> bool" where
  "lastMin xs k \<longleftrightarrow> k < length xs \<and> (\<forall>l < length xs. k < l \<longrightarrow> xs ! k < xs ! l) \<and> (\<forall>x \<in> set xs. xs ! k \<le> x)"

lemma firstMin_here: "\<forall>y \<in> set xs. x \<le> y \<Longrightarrow> firstMin (x # xs) 0"
  by (simp add: firstMin_def)

lemma firstMin_there: "firstMin xs k \<Longrightarrow> xs ! k < x \<Longrightarrow> firstMin (x # xs) (Suc k)"
  by (auto simp: firstMin_def nth_Cons split: nat.splits)

lemma lastMin_here: "\<forall>y \<in> set xs. x < y \<Longrightarrow> lastMin (x # xs) 0"
  by (auto simp: lastMin_def nth_Cons split: nat.splits)

lemma lastMin_there: "lastMin xs k \<Longrightarrow> xs ! k \<le> x \<Longrightarrow> lastMin (x # xs) (Suc k)"
  by (auto simp: lastMin_def nth_Cons split: nat.splits)

lemma firstMinargLoop_spec:
  "(\<forall>x \<in> set xs. m \<le> x) \<and> firstMinargLoop xs i m j = j \<or>
   (\<exists>k. firstMinargLoop xs i m j = i + k \<and> firstMin xs k \<and> xs ! k < m)"
proof (induction xs arbitrary: i m j)
  case (Cons x xs)
  show ?case
  proof (cases "x < m")
    case True
    from Cons.IH [of x "Suc i" i] show ?thesis
    proof
      assume "(\<forall>y \<in> set xs. x \<le> y) \<and> firstMinargLoop xs (Suc i) x i = i"
      then show ?thesis using True firstMin_here [of xs x] by (intro disjI2 exI [of _ 0]) simp
    next
      assume "\<exists>k. firstMinargLoop xs (Suc i) x i = Suc i + k \<and> firstMin xs k \<and> xs ! k < x"
      then obtain k where "firstMinargLoop xs (Suc i) x i = Suc i + k" "firstMin xs k" "xs ! k < x" by blast
      then show ?thesis using True firstMin_there [of xs k x] by (intro disjI2 exI [of _ "Suc k"]) simp
    qed
  next
    case False
    from Cons.IH [of m "Suc i" j] show ?thesis
    proof
      assume "\<exists>k. firstMinargLoop xs (Suc i) m j = Suc i + k \<and> firstMin xs k \<and> xs ! k < m"
      then obtain k where "firstMinargLoop xs (Suc i) m j = Suc i + k" "firstMin xs k" "xs ! k < m" by blast
      then show ?thesis using False firstMin_there [of xs k x] by (intro disjI2 exI [of _ "Suc k"]) simp
    qed (use False in auto)
  qed
qed simp

lemma lastMinargLoop_spec:
  "(\<forall>x \<in> set xs. m < x) \<and> lastMinargLoop xs i m j = j \<or>
   (\<exists>k. lastMinargLoop xs i m j = i + k \<and> lastMin xs k \<and> xs ! k \<le> m)"
proof (induction xs arbitrary: i m j)
  case (Cons x xs)
  show ?case
  proof (cases "x \<le> m")
    case True
    from Cons.IH [of x "Suc i" i] show ?thesis
    proof
      assume "(\<forall>y \<in> set xs. x < y) \<and> lastMinargLoop xs (Suc i) x i = i"
      then show ?thesis using True lastMin_here [of xs x] by (intro disjI2 exI [of _ 0]) simp
    next
      assume "\<exists>k. lastMinargLoop xs (Suc i) x i = Suc i + k \<and> lastMin xs k \<and> xs ! k \<le> x"
      then obtain k where "lastMinargLoop xs (Suc i) x i = Suc i + k" "lastMin xs k" "xs ! k \<le> x" by blast
      then show ?thesis using True lastMin_there [of xs k x] by (intro disjI2 exI [of _ "Suc k"]) simp
    qed
  next
    case False
    from Cons.IH [of m "Suc i" j] show ?thesis
    proof
      assume "\<exists>k. lastMinargLoop xs (Suc i) m j = Suc i + k \<and> lastMin xs k \<and> xs ! k \<le> m"
      then obtain k where "lastMinargLoop xs (Suc i) m j = Suc i + k" "lastMin xs k" "xs ! k \<le> m" by blast
      then show ?thesis using False lastMin_there [of xs k x] by (intro disjI2 exI [of _ "Suc k"]) simp
    qed (use False in auto)
  qed
qed simp

lemma firstMinarg_min:
  assumes "\<exists>x \<in> set xs. x \<noteq> maxUInt32" "length xs < 4294967296"
  shows "firstMin xs (unat (firstMinarg xs))"
  using firstMinargLoop_spec [of xs maxUInt32 0 "length xs"] assms
  by (auto simp: firstMinarg_def firstMin_def unat_of_nat_u32)

lemma lastMinarg_min:
  assumes "xs \<noteq> []" "length xs < 4294967296"
  shows "lastMin xs (unat (lastMinarg xs))"
  using lastMinargLoop_spec [of xs maxUInt32 0 "length xs"] assms
  by (auto simp: lastMinarg_def lastMin_def unat_of_nat_u32)

lemma pickTrigrams_range:
  assumes "\<exists>x \<in> set fs. x \<noteq> maxUInt32" and len: "length fs < 4294967296"
  shows "\<exists>a b. pickTrigrams fs = Some (a, b) \<and> a \<le> b \<and> unat b < length fs"
proof -
  let ?f = "unat (firstMinarg fs)"
  have f: "?f < length fs" using firstMinarg_min [OF assms] by (simp add: firstMin_def)
  then have "lastMin (fs[?f := maxUInt32]) (unat (lastMinarg (fs[?f := maxUInt32])))"
    using len by (intro lastMinarg_min) auto
  then have "unat (lastMinarg (fs[?f := maxUInt32])) < length fs" by (simp add: lastMin_def)
  then show ?thesis using f by (auto simp: pickTrigrams_def Let_def)
qed

section \<open>Iterators over the postings of the index\<close>

text \<open>The index serves the posting lists \<open>P\<close>, of the contents or of the file names: every trigram
  has increasing rune offsets, kept decoded for the names and as varint deltas in the file for the
  contents.\<close>

definition serves :: "indexData \<Rightarrow> bool \<Rightarrow> (ngram \<Rightarrow> u32 list) \<Rightarrow> bool" where
  "serves d fn P \<longleftrightarrow> (\<forall>v. ascending (P v) \<and>
     (if fn then lookupOr [] (fileNameNgrams d) v = P v
      else let sec = lookupOr zeroSection (ixNgrams d) v in
        unat (secSz sec) = length (deltasLoop 0 (P v)) \<and>
        (\<exists>spare. readSectionBlob d sec = Inr (deltasLoop 0 (P v), spare))))"

definition variantHits :: "(ngram \<Rightarrow> u32 list) \<Rightarrow> ngram list \<Rightarrow> u32 set" where
  "variantHits P vs = (\<Union>v \<in> set vs. set (P v))"

lemma variantHits_simps [simp]:
  "variantHits P [] = {}" "variantHits P (v # vs) = set (P v) \<union> variantHits P vs"
  by (simp_all add: variantHits_def)

lemma serves_names: "serves d True P \<Longrightarrow> lookupOr [] (fileNameNgrams d) v = P v"
  by (simp add: serves_def)

lemma serves_ascending: "serves d fn P \<Longrightarrow> ascending (P v)"
  by (simp add: serves_def)

lemma serves_contents:
  assumes "serves d False P"
  obtains spare where "readSectionBlob d (lookupOr zeroSection (ixNgrams d) v) = Inr (deltasLoop 0 (P v), spare)"
    and "unat (secSz (lookupOr zeroSection (ixNgrams d) v)) = length (deltasLoop 0 (P v))"
  using assms by (auto simp: serves_def Let_def)

lemma variantIters_serves:
  assumes "serves d fn P"
  shows "\<exists>its. variantIters d fn vs = Inr its \<and> list_all piInv its \<and> (\<Union>i \<in> set its. piHits i) = variantHits P vs"
proof (induction vs)
  case (Cons v vs)
  then obtain its where its: "variantIters d fn vs = Inr its" "list_all piInv its"
    "(\<Union>i \<in> set its. piHits i) = variantHits P vs" by blast
  show ?case
  proof (cases fn)
    case True
    let ?it = "InMemory \<lparr>postings = P v, memWhat = v\<rparr>"
    have "variantIters d fn (v # vs) = Inr (if P v \<noteq> [] then ?it # its else its)"
      using its(1) serves_names [of d P v] assms True by simp
    moreover have "piInv ?it" "piHits ?it = set (P v)" using serves_ascending [OF assms, of v] by simp_all
    ultimately show ?thesis using its(2,3) by (cases "P v = []") (simp_all del: variantIters.simps)
  next
    case False
    then obtain spare where b: "readSectionBlob d (lookupOr zeroSection (ixNgrams d) v) = Inr (deltasLoop 0 (P v), spare)"
      using serves_contents [of d P v thesis] assms by simp
    show ?thesis
    proof (cases "P v")
      case Nil
      then show ?thesis using b its False by simp
    next
      case (Cons p ps)
      then obtain it where "newCompressedPostingIterator (deltasLoop 0 (P v)) v = Some it"
        "piInv (Compressed it)" "piHits (Compressed it) = set (P v)"
        using newCompressed_hits [of p ps v] serves_ascending [OF assms, of v] by auto
      moreover have "deltasLoop 0 (P v) \<noteq> []" using Cons by simp
      ultimately show ?thesis using b its False by (intro exI [of _ "Compressed it # its"]) (simp del: deltasLoop.simps)
    qed
  qed
qed simp

lemma trigramHitIterator_serves:
  assumes "serves d fn P" "caseVariants sfold cs ng = Some vs"
  shows "\<exists>it. trigramHitIterator sfold d ng cs fn = Inr it \<and> tiInv it \<and> tiHits it = variantHits P vs"
proof -
  obtain its where its: "variantIters d fn vs = Inr its" "list_all piInv its"
    "(\<Union>i \<in> set its. piHits i) = variantHits P vs"
    using variantIters_serves [OF assms(1)] by blast
  show ?thesis
  proof (cases "length its = 1")
    case True
    then obtain i where "its = [i]" by (auto simp: length_Suc_conv)
    then show ?thesis using its assms(2) by (simp add: trigramHitIterator_def)
  qed (use its assms(2) in \<open>simp add: trigramHitIterator_def\<close>)
qed

section \<open>Frequencies\<close>

definition postingSize :: "bool \<Rightarrow> (ngram \<Rightarrow> u32 list) \<Rightarrow> ngram \<Rightarrow> nat" where
  "postingSize fn P v = (if fn then length (P v) else length (deltasLoop 0 (P v)))"

lemma postingSize_0 [simp]: "postingSize fn P v = 0 \<longleftrightarrow> P v = []"
  by (simp add: postingSize_def)

lemma ngramFrequency_serves: "serves d fn P \<Longrightarrow> ngramFrequency d v fn = of_nat (postingSize fn P v)"
proof (cases fn)
  case False
  assume "serves d fn P"
  then have "unat (ngramFrequency d v False) = postingSize False P v"
    using False by (simp add: serves_def Let_def ngramFrequency_def postingSize_def)
  from u32_of_unat [OF this] False show ?thesis by simp
qed (simp add: serves_def ngramFrequency_def postingSize_def)

lemma sum_frequency:
  "serves d fn P \<Longrightarrow> sum_list (map (\<lambda>v. ngramFrequency d v fn) vs) = of_nat (sum_list (map (postingSize fn P) vs))"
  by (induction vs) (simp_all add: ngramFrequency_serves)

lemma variantHits_empty: "variantHits P vs = {} \<longleftrightarrow> sum_list (map (postingSize fn P) vs) = 0"
  by (auto simp: variantHits_def)

text \<open>The postings of all variants of a trigram together stay below \<open>2\<^sup>3\<^sup>2 - 1\<close>, as they do in a
  file that \<^verbatim>\<open>uint32\<close> offsets address.\<close>

definition addressable :: "bool \<Rightarrow> (ngram \<Rightarrow> u32 list) \<Rightarrow> ngram list \<Rightarrow> bool" where
  "addressable fn P vs \<longleftrightarrow> sum_list (map (postingSize fn P) vs) < 4294967295"

lemma variantFrequency_serves:
  assumes "serves d (FileName q) P" "caseVariants sfold (CaseSensitive q) ng = Some vs"
    and "addressable (FileName q) P vs"
  shows "\<exists>f. variantFrequency sfold d q ng = Some f \<and> f \<noteq> maxUInt32 \<and> (f = 0 \<longleftrightarrow> variantHits P vs = {})"
proof -
  define n f where "n = sum_list (map (postingSize (FileName q) P) vs)" and "f = (of_nat n :: u32)"
  have freq: "variantFrequency sfold d q ng = Some f"
    using assms(2) sum_frequency [OF assms(1), of vs] unfolding f_def n_def
    by (auto simp: variantFrequency_def caseVariants_def split: if_splits)
  have n: "n < 4294967295" using assms(3) by (simp add: addressable_def n_def)
  have u: "unat f = n" unfolding f_def using n by (intro unat_of_nat_u32) simp
  have "unat f \<noteq> unat maxUInt32" unfolding u using n by simp
  then have "f \<noteq> maxUInt32" by blast
  moreover have "f = 0 \<longleftrightarrow> variantHits P vs = {}"
    unfolding variantHits_empty [of P vs "FileName q"] n_def [symmetric] u [symmetric] by (simp add: unat_eq_zero)
  ultimately show ?thesis using freq by (intro exI [of _ f] conjI)
qed

lemma frequencyLoop_serves:
  assumes s: "serves d (FileName q) P"
    and vs: "\<And>o1. o1 \<in> set os \<Longrightarrow> caseVariants sfold (CaseSensitive q) (ngramOf o1) = Some (V o1)"
    and cnt: "\<And>o1. o1 \<in> set os \<Longrightarrow> addressable (FileName q) P (V o1)"
  shows "frequencyLoop sfold d q os = Inr None \<and> (\<exists>o1 \<in> set os. variantHits P (V o1) = {}) \<or>
    (\<exists>fs. frequencyLoop sfold d q os = Inr (Some fs) \<and> length fs = length os \<and> maxUInt32 \<notin> set fs)"
  using vs cnt
proof (induction os)
  case (Cons o1 os)
  have m: "o1 \<in> set (o1 # os)" and t: "\<And>o2. o2 \<in> set os \<Longrightarrow> o2 \<in> set (o1 # os)" by simp_all
  from variantFrequency_serves [OF s Cons.prems(1) [OF m] Cons.prems(2) [OF m]]
  obtain f where f: "variantFrequency sfold d q (ngramOf o1) = Some f" "f \<noteq> maxUInt32"
    "f = 0 \<longleftrightarrow> variantHits P (V o1) = {}" by (elim exE conjE)
  have step: "frequencyLoop sfold d q (o1 # os) = (if f = 0 then Inr None
      else rbind (frequencyLoop sfold d q os) (\<lambda>r. Inr (map_option (Cons f) r)))"
    unfolding frequencyLoop.simps f(1) by simp
  have "frequencyLoop sfold d q os = Inr None \<and> (\<exists>o1 \<in> set os. variantHits P (V o1) = {}) \<or>
    (\<exists>fs. frequencyLoop sfold d q os = Inr (Some fs) \<and> length fs = length os \<and> maxUInt32 \<notin> set fs)"
    by (rule Cons.IH) (rule Cons.prems, erule t)+
  then show ?case
  proof (elim disjE exE conjE)
    fix fs assume "frequencyLoop sfold d q os = Inr (Some fs)" "length fs = length os" "maxUInt32 \<notin> set fs"
    then show ?thesis using step f by (cases "f = 0") simp_all
  next
    assume "frequencyLoop sfold d q os = Inr None" "\<exists>o1 \<in> set os. variantHits P (V o1) = {}"
    then have "frequencyLoop sfold d q (o1 # os) = Inr None" "\<exists>o1 \<in> set (o1 # os). variantHits P (V o1) = {}"
      using step by simp_all
    then show ?thesis by blast
  qed
qed simp

section \<open>No occurrence is lost\<close>

definition patternGrams :: "Substring \<Rightarrow> ngram list" where
  "patternGrams q = map ngramOf (splitNGrams (Pattern q))"

lemma length_splitNGrams [simp]: "length (splitNGrams s) = runeCount s - 2"
  by (simp add: splitNGrams_eq [OF refl] runeCount_def)

lemma length_patternGrams [simp]: "length (patternGrams q) = runeCount (Pattern q) - 2"
  by (simp add: patternGrams_def)

text \<open>What \<open>iterateNgrams\<close> relies on: the index serves \<open>P\<close>, the case variants of each trigram of
  the pattern are \<open>V\<close>, and offsets plus the length of the pattern do not overflow.\<close>

definition searchable ::
  "golib \<Rightarrow> indexData \<Rightarrow> Substring \<Rightarrow> (ngram \<Rightarrow> u32 list) \<Rightarrow> (ngram \<Rightarrow> ngram list) \<Rightarrow> bool" where
  "searchable L d q P V \<longleftrightarrow> serves d (FileName q) P \<and>
     3 \<le> runeCount (Pattern q) \<and> runeCount (Pattern q) < 4294967296 \<and>
     (\<forall>g \<in> set (patternGrams q). caseVariants (simpleFold L) (CaseSensitive q) g = Some (V g) \<and>
        addressable (FileName q) P (V g)) \<and>
     sorted (queryEnds d q) \<and> length (queryEnds d q) \<le> 1073741824 \<and>
     (\<forall>e \<in> set (queryEnds d q). unat e + runeCount (Pattern q) < 4294967296) \<and>
     (\<forall>v. \<forall>p \<in> set (P v). unat p + runeCount (Pattern q) < 4294967296)"

text \<open>The pattern may start at rune \<open>s\<close> of document \<open>e\<close>: it ends within the document and each
  of its trigrams has the position in the postings of one of its variants.\<close>

definition gramsAt ::
  "indexData \<Rightarrow> Substring \<Rightarrow> (ngram \<Rightarrow> u32 list) \<Rightarrow> (ngram \<Rightarrow> ngram list) \<Rightarrow> nat \<Rightarrow> nat \<Rightarrow> bool" where
  "gramsAt d q P V e s \<longleftrightarrow>
     unat (startOf (queryEnds d q) e) + s + runeCount (Pattern q) \<le> unat (queryEnds d q ! e) \<and>
     (\<forall>k < length (patternGrams q).
        of_nat (unat (startOf (queryEnds d q) e) + s + k) \<in> variantHits P (V (patternGrams q ! k)))"

lemma fits_pattern:
  fixes a :: u32
  assumes n: "unat a + 3 \<le> n" and b: "unat (startOf es e) + s + n \<le> unat (es ! e)"
    and w: "unat (es ! e) + n < 4294967296"
  shows "fits a (of_nat n - a) es e (of_nat (unat (startOf es e) + s + unat a))"
    and "of_nat (unat (startOf es e) + s + unat a) - startOf es e - a = of_nat s"
proof -
  let ?p = "of_nat (unat (startOf es e) + s + unat a) :: u32"
  have p: "unat ?p = unat (startOf es e) + s + unat a" using assms by (intro unat_of_nat_u32) simp
  have nn: "unat (of_nat n :: u32) = n" using w by (intro unat_of_nat_u32) simp
  have r: "unat (of_nat n - a) = n - unat a" using n nn by (subst unat_sub_u32) (simp_all add: word_le_nat_alt)
  have l: "unat (a + startOf es e) = unat a + unat (startOf es e)" using assms by (intro unat_add_u32) simp
  have pr: "unat (?p + (of_nat n - a)) = unat ?p + unat (of_nat n - a)" using p r n b w by (intro unat_add_u32) simp
  show "fits a (of_nat n - a) es e ?p"
    unfolding fits_def word_less_nat_alt word_le_nat_alt l pr p r using n b by simp
  show "?p - startOf es e - a = of_nat s" by simp
qed

lemma pickedHits:
  assumes s: "serves d fn P" and ab: "a \<le> b" and v1: "caseVariants sfold cs g1 = Some vs1"
    and v2: "caseVariants sfold cs g2 = Some vs2"
    and w: "\<forall>v. \<forall>p \<in> set (P v). unat p + unat b < 4294967296"
  shows "\<exists>it. (if a \<noteq> b then newDistanceTrigramIter sfold d g1 g2 (b - a) cs fn
       else rbind (trigramHitIterator sfold d g2 cs fn) (\<lambda>it. Inr (Trigram it))) = Inr it \<and> hiInv it \<and>
     (\<forall>p. (a \<noteq> b \<longrightarrow> p \<in> variantHits P vs1) \<and> p + (b - a) \<in> variantHits P vs2 \<longrightarrow> p \<in> hiHits it)"
proof -
  obtain t1 where t1: "trigramHitIterator sfold d g1 cs fn = Inr t1" "tiInv t1" "tiHits t1 = variantHits P vs1"
    using trigramHitIterator_serves [OF s v1] by blast
  obtain t2 where t2: "trigramHitIterator sfold d g2 cs fn = Inr t2" "tiInv t2" "tiHits t2 = variantHits P vs2"
    using trigramHitIterator_serves [OF s v2] by blast
  show ?thesis
  proof (cases "a = b")
    case False
    let ?i = "Distance \<lparr>started = False, distance = b - a, i1 = t1, i2 = t2\<rparr>"
    have "unat (b - a) \<le> unat b" using ab by (simp add: unat_sub_u32)
    then have "unat p + unat (b - a) < 4294967296" if "p \<in> variantHits P vs1" for p
      using w that by (fastforce simp: variantHits_def)
    then have "hiInv ?i" using t1 t2 by (simp add: distInv_def distWf_def)
    moreover have "b - a \<noteq> 0" using False by simp
    ultimately show ?thesis using False t1 t2
      by (intro exI [of _ ?i]) (auto simp: newDistanceTrigramIter_def distHits_def)
  qed (use t2 in simp)
qed

text \<open>The iterator over one document set: its candidates cover every position where the pattern may
  start, carry the pattern of the query, and leave room for the pattern.\<close>

definition coversGrams ::
  "golib \<Rightarrow> indexData \<Rightarrow> Substring \<Rightarrow> (ngram \<Rightarrow> u32 list) \<Rightarrow> (ngram \<Rightarrow> ngram list) \<Rightarrow> matchIterator \<Rightarrow> bool" where
  "coversGrams L d q P V m \<longleftrightarrow> miWf (length (queryEnds d q)) m \<and>
     (\<forall>e < length (queryEnds d q).
       (\<forall>s. gramsAt d q P V e s \<longrightarrow> of_nat s \<in> runeOffset ` set (miSpec m e)) \<and>
       (\<forall>c \<in> set (miSpec m e). caseSensitive c = CaseSensitive q \<and> fileName c = FileName q \<and>
          substrBytes c = Pattern q \<and> substrLowered c = toLower (lowerRune L) (Pattern q) \<and>
          byteOffset c = 0 \<and> docFile c = of_nat e \<and>
          unat (startOf (queryEnds d q) e) + unat (runeOffset c) + runeCount (Pattern q) \<le> unat (queryEnds d q ! e)))"

lemma nthO_splitNGrams:
  "unat i < runeCount (Pattern q) - 2 \<Longrightarrow> nthO (splitNGrams (Pattern q)) i = Some (splitNGrams (Pattern q) ! unat i)"
  by (simp add: nthO_def)

lemma ngramOf_splitNGrams:
  "k < runeCount (Pattern q) - 2 \<Longrightarrow> ngramOf (splitNGrams (Pattern q) ! k) = patternGrams q ! k"
  by (simp add: patternGrams_def)

lemma candsOf_room:
  fixes a :: u32
  assumes wf: "wfEnds a es" and e: "e < length es" and n: "unat a \<le> n" "n < 4294967296"
    and w: "unat (es ! e) + n < 4294967296" and c: "c \<in> set (candsOf a (of_nat n - a) es H e)"
  shows "unat (startOf es e) + unat (runeOffset c) + n \<le> unat (es ! e)"
proof -
  obtain p where p: "fits a (of_nat n - a) es e p" "runeOffset c = p - startOf es e - a"
    using c by (auto simp: candsOf_def)
  have r: "unat (of_nat n - a) = n - unat a"
    using n by (subst unat_sub_u32) (simp_all add: word_le_nat_alt unat_of_nat_u32)
  have "unat p < unat (es ! e)" using p(1) by (simp add: fits_def word_less_nat_alt)
  then have "unat p + (n - unat a) < 4294967296" using w by linarith
  then have "unat p + (n - unat a) \<le> unat (es ! e)"
    using p(1) unfolding fits_def word_le_nat_alt by (subst (asm) unat_add_u32) (simp_all add: r)
  then show ?thesis using fits_sub [OF wf e p(1)] p(2) n by simp
qed

definition resultsAt :: "golib \<Rightarrow> indexData \<Rightarrow> Substring \<Rightarrow> u32 \<Rightarrow> hitIterator \<Rightarrow> baseIterator ngramIterationResults" where
  "resultsAt L d q a it = \<lparr>resIter = NgramDoc \<lparr>leftPad = a, rightPad = of_nat (runeCount (Pattern q)) - a,
       iter = it, ends = queryEnds d q, fileIdx = 0, matchCount = 0\<rparr>,
     resCaseSensitive = CaseSensitive q, resFileName = FileName q,
     resSubstrBytes = Pattern q, resSubstrLowered = toLower (lowerRune L) (Pattern q)\<rparr>"

lemma coversGrams_resultsAt:
  assumes sr: "searchable L d q P V" and it: "hiInv it" and a: "unat a < runeCount (Pattern q) - 2"
    and hits: "\<And>e s. gramsAt d q P V e s \<Longrightarrow> of_nat (unat (startOf (queryEnds d q) e) + s + unat a) \<in> hiHits it"
  shows "coversGrams L d q P V (Results (resultsAt L d q a it))"
proof -
  let ?n = "runeCount (Pattern q)" and ?es = "queryEnds d q"
  have n: "?n < 4294967296" and es: "sorted ?es" "length ?es \<le> 1073741824"
    and w: "\<And>e. e \<in> set ?es \<Longrightarrow> unat e + ?n < 4294967296"
    using sr unfolding searchable_def by blast+
  have "unat e + unat a < 4294967296" if "e \<in> set ?es" for e using w [OF that] a by linarith
  then have wf: "wfEnds a ?es" unfolding wfEnds_def using es by blast
  define cands where "cands = candsOf a (of_nat ?n - a) ?es (hiHits it)"
  have spec: "miSpec (Results (resultsAt L d q a it)) e = map (fillPattern (resultsAt L d q a it)) (cands e)" for e
    by (simp add: resSpec_def resultsAt_def cands_def)
  have cov: "of_nat s \<in> runeOffset ` set (cands e)" if e: "e < length ?es" and g: "gramsAt d q P V e s" for e s
  proof -
    let ?p = "of_nat (unat (startOf ?es e) + s + unat a) :: u32"
    have "unat (startOf ?es e) + s + ?n \<le> unat (?es ! e)" using g by (simp add: gramsAt_def)
    note fits = fits_pattern [OF _ this w [OF nth_mem [OF e]], of a]
    have "fits a (of_nat ?n - a) ?es e ?p" "?p - startOf ?es e - a = of_nat s" using a by (intro fits; simp)+
    then show ?thesis using hits [OF g] unfolding cands_def candsOf_def by (force simp: image_iff)
  qed
  have room: "unat (startOf ?es e) + unat (runeOffset c) + ?n \<le> unat (?es ! e)"
    if e: "e < length ?es" and c: "c \<in> set (cands e)" for e c
    using candsOf_room [OF wf e _ n w [OF nth_mem [OF e]]] c a unfolding cands_def by simp
  have rest: "byteOffset c = 0 \<and> docFile c = of_nat e" if "c \<in> set (cands e)" for c e
    using that unfolding cands_def by (auto simp: candsOf_def emptyCandidate_def)
  have "miWf (length ?es) (Results (resultsAt L d q a it))" using it wf by (simp add: resultsAt_def)
  then show ?thesis unfolding coversGrams_def spec
    using cov room rest by (auto simp: fillPattern_def resultsAt_def image_iff)
qed

lemma iterateNgrams_covers:
  assumes "searchable L d q P V"
  shows "\<exists>r. iterateNgrams L d q = Inr r \<and> coversGrams L d q P V (Results r)"
proof -
  let ?n = "runeCount (Pattern q)" and ?es = "queryEnds d q" and ?os = "splitNGrams (Pattern q)"
  have s: "serves d (FileName q) P" and n3: "3 \<le> ?n" and n: "?n < 4294967296"
    and V: "\<And>g. g \<in> set (patternGrams q) \<Longrightarrow> caseVariants (simpleFold L) (CaseSensitive q) g = Some (V g)"
    and A: "\<And>g. g \<in> set (patternGrams q) \<Longrightarrow> addressable (FileName q) P (V g)"
    and es: "sorted ?es" "length ?es \<le> 1073741824" "\<And>e. e \<in> set ?es \<Longrightarrow> unat e + ?n < 4294967296"
    and w: "\<And>v p. p \<in> set (P v) \<Longrightarrow> unat p + ?n < 4294967296"
    using assms unfolding searchable_def by blast+
  have "ngramOf o1 \<in> set (patternGrams q)" if "o1 \<in> set ?os" for o1
    using that by (simp add: patternGrams_def)
  then have "frequencyLoop (simpleFold L) d q ?os = Inr None \<and> (\<exists>o1 \<in> set ?os. variantHits P (V (ngramOf o1)) = {}) \<or>
    (\<exists>fs. frequencyLoop (simpleFold L) d q ?os = Inr (Some fs) \<and> length fs = length ?os \<and> maxUInt32 \<notin> set fs)"
    using V A by (intro frequencyLoop_serves [OF s, of ?os "simpleFold L" "\<lambda>o1. V (ngramOf o1)"]) blast+
  then show ?thesis
  proof (elim disjE exE conjE)
    assume f: "frequencyLoop (simpleFold L) d q ?os = Inr None" "\<exists>o1 \<in> set ?os. variantHits P (V (ngramOf o1)) = {}"
    then obtain k where "k < ?n - 2" "variantHits P (V (patternGrams q ! k)) = {}"
      by (auto simp: in_set_conv_nth patternGrams_def)
    then have "\<not> gramsAt d q P V e s" for e s by (auto simp: gramsAt_def)
    then have "coversGrams L d q P V (Results noMatchResults)"
      by (simp add: coversGrams_def noMatchResults_def resSpec_def)
    then show ?thesis using f(1) by (simp add: iterateNgrams_def Let_def)
  next
    fix fs assume f: "frequencyLoop (simpleFold L) d q ?os = Inr (Some fs)" "length fs = length ?os" "maxUInt32 \<notin> set fs"
    have len: "length fs = ?n - 2" using f(2) by simp
    then have "\<exists>x \<in> set fs. x \<noteq> maxUInt32" using f(3) n3 by (cases fs) auto
    moreover have "length fs < 4294967296" using len n by linarith
    ultimately obtain a b where ab: "pickTrigrams fs = Some (a, b)" "a \<le> b" "unat b < ?n - 2"
      using pickTrigrams_range [of fs] len by auto
    have a: "unat a < ?n - 2" using ab(2,3) by (simp add: word_le_nat_alt)
    let ?ga = "patternGrams q ! unat a" and ?gb = "patternGrams q ! unat b"
    have mem: "?ga \<in> set (patternGrams q)" "?gb \<in> set (patternGrams q)" using a ab(3) by simp_all
    have "unat p + unat b < 4294967296" if "p \<in> set (P v)" for v p using w [OF that] ab(3) by linarith
    then have "\<forall>v. \<forall>p \<in> set (P v). unat p + unat b < 4294967296" by simp
    from pickedHits [OF s ab(2) V [OF mem(1)] V [OF mem(2)] this]
    obtain it where it: "(if a \<noteq> b then newDistanceTrigramIter (simpleFold L) d ?ga ?gb (b - a) (CaseSensitive q) (FileName q)
        else rbind (trigramHitIterator (simpleFold L) d ?gb (CaseSensitive q) (FileName q)) (\<lambda>it. Inr (Trigram it))) = Inr it"
      "hiInv it" "\<And>p. (a \<noteq> b \<longrightarrow> p \<in> variantHits P (V ?ga)) \<Longrightarrow> p + (b - a) \<in> variantHits P (V ?gb) \<Longrightarrow> p \<in> hiHits it"
      by blast
    have "iterateNgrams L d q = Inr (resultsAt L d q a it)"
      unfolding iterateNgrams_def Let_def f(1) rbind_simps option.case ab(1) orPanic_simps prod.case
        nthO_splitNGrams [OF a] nthO_splitNGrams [OF ab(3)] ngramOf_splitNGrams [OF a] ngramOf_splitNGrams [OF ab(3)]
        it(1) resultsAt_def by simp
    moreover have "of_nat (unat (startOf ?es e) + s + unat a) \<in> hiHits it" if "gramsAt d q P V e s" for e s
    proof (rule it(3))
      have k: "of_nat (unat (startOf ?es e) + s + k) \<in> variantHits P (V (patternGrams q ! k))" if "k < ?n - 2" for k
        using \<open>gramsAt d q P V e s\<close> that by (simp add: gramsAt_def)
      show "a \<noteq> b \<longrightarrow> of_nat (unat (startOf ?es e) + s + unat a) \<in> variantHits P (V ?ga)" using k [OF a] by simp
      show "of_nat (unat (startOf ?es e) + s + unat a) + (b - a) \<in> variantHits P (V ?gb)"
        using k [OF ab(3)] by (simp add: add.assoc)
    qed
    ultimately show ?thesis using coversGrams_resultsAt [OF assms it(2) a] by blast
  qed
qed

section \<open>Properties\<close>

text \<open>C14: the trigram index loses no occurrence. \<^verbatim>\<open>iterateNgrams\<close> returns an iterator that is ready
  for the first document and whose candidates in each document cover every rune offset where all
  trigrams of the pattern, in some case variant, stand in a row within the document; each candidate
  carries the pattern and leaves room for it before the end of the document.\<close>

theorem iterateNgrams_complete:
  assumes "searchable L d q P V"
  shows "\<exists>r. iterateNgrams L d q = Inr r \<and>
    miReady (length (queryEnds d q)) (Results r) 0 (Results r) \<and>
    (\<forall>e < length (queryEnds d q).
       (\<forall>s. gramsAt d q P V e s \<longrightarrow> (\<exists>c \<in> set (miSpec (Results r) e). runeOffset c = of_nat s)) \<and>
       (\<forall>c \<in> set (miSpec (Results r) e). substrBytes c = Pattern q \<and> docFile c = of_nat e \<and>
          unat (startOf (queryEnds d q) e) + unat (runeOffset c) + runeCount (Pattern q) \<le> unat (queryEnds d q ! e)))"
proof -
  obtain r where r: "iterateNgrams L d q = Inr r" and cov: "coversGrams L d q P V (Results r)"
    using iterateNgrams_covers [OF assms] by blast
  then have "miReady (length (queryEnds d q)) (Results r) 0 (Results r)"
    unfolding coversGrams_def by (blast intro: miReady_init)
  with r cov show ?thesis unfolding coversGrams_def by (fastforce simp: image_iff simp del: miSpec.simps miReady.simps)
qed

definition sampleIndex :: indexData where
  "sampleIndex = \<lparr>ixFile = (\<lambda>off sz. Inl (GoErr ''EOF'')), ixNgrams = [], newlinesStart = 0, newlinesIndex = [],
     docSectionsStart = 0, docSectionsIndex = [], ixRuneDocSections = [], ixRuneOffsets = [],
     boundariesStart = 0, boundaries = [], ixFileEndRunes = [],
     fileNameContent = ([0x78, 0x61, 0x62, 0x63], []), fileNameIndex = [0, 4],
     fileNameNgrams = [(runesToNGram (0x78, 0x61, 0x62), [0]), (runesToNGram (0x61, 0x62, 0x63), [1])],
     fileNameRuneOffsets = [0], fileNameEndRunes = [4], fileBranchMasks = [1], branchNames = [], branchIDs = [],
     metaData = \<lparr>IndexFormatVersion = 15, IndexFeatureVersion = 7, IndexTime = 0, PlainASCII = True,
       LanguageMap = [], ZoektVersion = []\<rparr>, repoMetaData = emptyRepository, ixSubRepos = [0],
     subRepoPaths = [[]], ixChecksums = ([], []), ixLanguages = [0], languageMap = [],
     repoListEntry = \<lparr>rleRepository = emptyRepository, rleIndexMetadata = \<lparr>IndexFormatVersion = 15,
       IndexFeatureVersion = 7, IndexTime = 0, PlainASCII = True, LanguageMap = [], ZoektVersion = []\<rparr>,
       rleStats = \<lparr>Repos = 0, Shards = 0, Documents = 1, IndexBytes = 0, ContentBytes = 0\<rparr>\<rparr>\<rparr>"

definition sampleQuery :: Substring where
  "sampleQuery = \<lparr>Pattern = [0x61, 0x62, 0x63], CaseSensitive = True, FileName = True, Content = False\<rparr>"

definition sampleLib :: golib where
  "sampleLib = \<lparr>simpleFold = (\<lambda>r. r), lowerRune = (\<lambda>r. r), reString = (\<lambda>r. []), reCompile = (\<lambda>b. None)\<rparr>"

lemma samplePattern: "runesOf [0x61, 0x62, 0x63] = [(0x61, 1), (0x62, 1), (0x63, 1)]"
  by (simp add: runesOf.simps decodeRune.simps)

lemma sampleGrams: "patternGrams sampleQuery = [runesToNGram (0x61, 0x62, 0x63)]"
  by (simp add: patternGrams_def sampleQuery_def splitNGrams_eq [OF samplePattern])

lemma sampleNgrams:
  "lookupOr [] (fileNameNgrams sampleIndex) v =
     (if v = runesToNGram (0x78, 0x61, 0x62) then [0] else if v = runesToNGram (0x61, 0x62, 0x63) then [1] else [])"
  by (simp add: lookupOr_def sampleIndex_def)

lemma sample_searchable:
  "searchable sampleLib sampleIndex sampleQuery (lookupOr [] (fileNameNgrams sampleIndex)) (\<lambda>g. [g])"
proof -
  have "runeCount (Pattern sampleQuery) = 3" by (simp add: runeCount_def sampleQuery_def samplePattern)
  moreover have "serves sampleIndex True (lookupOr [] (fileNameNgrams sampleIndex))"
    by (simp add: serves_def sampleNgrams ascending_def)
  moreover have "caseVariants (simpleFold sampleLib) True g = Some [g]" for g by (simp add: caseVariants_def)
  moreover have "addressable True (lookupOr [] (fileNameNgrams sampleIndex)) [g]" for g
    by (simp add: addressable_def postingSize_def sampleNgrams)
  ultimately show ?thesis
    by (simp add: searchable_def sampleGrams sampleNgrams queryEnds_def) (simp add: sampleQuery_def sampleIndex_def)
qed

theorem iterateNgrams_complete_witness:
  "gramsAt sampleIndex sampleQuery (lookupOr [] (fileNameNgrams sampleIndex)) (\<lambda>g. [g]) 0 1 \<and>
   (\<exists>r. iterateNgrams sampleLib sampleIndex sampleQuery = Inr r \<and>
     (\<exists>c \<in> set (miSpec (Results r) 0). runeOffset c = 1))"
proof -
  have "gramsAt sampleIndex sampleQuery (lookupOr [] (fileNameNgrams sampleIndex)) (\<lambda>g. [g]) 0 1"
    by (simp add: gramsAt_def sampleGrams sampleNgrams startOf_def runesToNGram_def)
      (simp add: runeCount_def sampleQuery_def samplePattern queryEnds_def sampleIndex_def)
  with iterateNgrams_complete [OF sample_searchable] show ?thesis by (force simp: sampleIndex_def queryEnds_def sampleQuery_def)
qed

text \<open>C18: of the trigrams of a pattern the two with the smallest frequencies are used, in the order
  of the pattern: \<^verbatim>\<open>firstMinarg\<close> and \<^verbatim>\<open>lastMinarg\<close> select positions \<open>a < b\<close> such that no
  other trigram is rarer than either of them.\<close>

theorem pickTrigrams_rarest:
  assumes "2 \<le> length fs" "length fs < 4294967296" "maxUInt32 \<notin> set fs"
  shows "\<exists>a b. pickTrigrams fs = Some (a, b) \<and> unat a < unat b \<and> unat b < length fs \<and>
    (\<forall>k < length fs. k \<noteq> unat a \<longrightarrow> k \<noteq> unat b \<longrightarrow> fs ! unat a \<le> fs ! k \<and> fs ! unat b \<le> fs ! k)"
proof -
  define f g where "f = firstMinarg fs" and "g = lastMinarg (fs[unat f := maxUInt32])"
  have ex: "\<exists>x \<in> set fs. x \<noteq> maxUInt32" using assms(1,3) by (cases fs) auto
  have f: "firstMin fs (unat f)" unfolding f_def by (rule firstMinarg_min [OF ex assms(2)])
  then have fl: "unat f < length fs" by (simp add: firstMin_def)
  have g: "lastMin (fs[unat f := maxUInt32]) (unat g)"
    unfolding g_def using fl assms(2) by (intro lastMinarg_min) auto
  then have gl: "unat g < length fs" by (simp add: lastMin_def)
  have mem: "fs[unat f := maxUInt32] ! k \<in> set (fs[unat f := maxUInt32])" if "k < length fs" for k
    using that by (metis length_list_update nth_mem)
  have fmin: "fs ! unat f \<le> fs ! k" if "k < length fs" for k using f that by (simp add: firstMin_def)
  have gmin: "fs[unat f := maxUInt32] ! unat g \<le> fs[unat f := maxUInt32] ! k" if "k < length fs" for k
    using g mem [OF that] by (simp add: lastMin_def)
  have ne: "unat g \<noteq> unat f"
  proof
    assume eq: "unat g = unat f"
    obtain k where k: "k < length fs" "k \<noteq> unat f" using assms(1) by (metis less_2_cases_iff less_le_trans not_less_eq zero_neq_one)
    then have "fs ! k = maxUInt32" using gmin [OF k(1)] eq fl by simp
    then show False using k assms(3) nth_mem by metis
  qed
  have "fs ! unat g \<le> fs ! k" if "k < length fs" "k \<noteq> unat f" for k using gmin [OF that(1)] ne that by simp
  moreover have "f \<noteq> g" using ne by blast
  ultimately show ?thesis using fl gl fmin ne
    by (cases "g < f") (auto simp: pickTrigrams_def Let_def f_def [symmetric] g_def [symmetric] word_less_nat_alt)
qed

theorem pickTrigrams_rarest_witness:
  "pickTrigrams [5, 9, 2, 7] = Some (0, 2) \<and> [5, 9, 2, 7] ! 0 \<le> ([5, 9, 2, 7] ! 3 :: u32) \<and>
     [5, 9, 2, 7] ! 2 \<le> ([5, 9, 2, 7] ! 1 :: u32)"
proof -
  have e: "pickTrigrams [5, 9, 2, 7] = Some (0, 2)"
    by (simp add: pickTrigrams_def firstMinarg_def lastMinarg_def)
  from pickTrigrams_rarest [of "[5, 9, 2, 7]"] have "\<forall>k < length [5, 9, 2, 7 :: u32]. k \<noteq> unat (0 :: u32) \<longrightarrow> k \<noteq> unat (2 :: u32) \<longrightarrow>
     [5, 9, 2, 7] ! unat (0 :: u32) \<le> ([5, 9, 2, 7] ! k :: u32) \<and> [5, 9, 2, 7] ! unat (2 :: u32) \<le> ([5, 9, 2, 7] ! k :: u32)"
    unfolding e by auto
  from this [rule_format, of 3] this [rule_format, of 1] e show ?thesis by simp
qed

end
