(* ===== verification/Zoekt_Content.thy ===== *)
theory Zoekt_Content
  imports Zoekt_Indexdata
begin

text \<open>
  The model of \<^verbatim>\<open>contentprovider.go\<close>: lazy access to the contents, newlines and sections of the
  current document, the translation of rune offsets to byte offsets, the grouping of matches into
  lines, and the scores.

  The provider is a record that every method returns updated. The statistics a Go provider points
  to are part of the record. A nil slice of newlines or sections is \<open>None\<close>; the two flags say
  whether the reusable buffers are non-nil, because decoding an empty list into a nil buffer gives
  nil again. A panic is \<open>None\<close>. Scores are rational numbers.
\<close>

section \<open>The provider\<close>

record contentProvider =
  cpId :: indexData
  cpStats :: Stats
  cpErr :: "string option"
  cpIdx :: u32
  cpData :: "goslice option"
  cpNl :: "u32 list option"
  cpNlBuf :: bool
  cpSects :: "DocumentSection list option"
  cpSectBuf :: bool
  cpFileSize :: u32

text \<open>The two results of a Go call \<^verbatim>\<open>x, err = f()\<close>: the zero value goes with an error.\<close>

definition attempt :: "'a \<Rightarrow> 'a res \<Rightarrow> ('a \<times> string option) option" where
  "attempt z r = (case r of Inr x \<Rightarrow> Some (x, None) | Inl (GoErr e) \<Rightarrow> Some (z, Some e) | Inl (GoPanic e) \<Rightarrow> None)"

definition setDocument :: "u32 \<Rightarrow> contentProvider \<Rightarrow> contentProvider option" where
  "setDocument docID p = do {
     fileStart \<leftarrow> nthO (boundaries (cpId p)) docID;
     fileEnd \<leftarrow> nthO (boundaries (cpId p)) (docID + 1);
     Some (p\<lparr>cpIdx := docID, cpFileSize := fileEnd - fileStart, cpNl := None, cpSects := None, cpData := None\<rparr>)
   }"

definition nilList :: "bool \<Rightarrow> 'a list \<Rightarrow> 'a list option" where
  "nilList buf xs = (if xs = [] \<and> \<not> buf then None else Some xs)"

definition docSections :: "contentProvider \<Rightarrow> (DocumentSection list \<times> contentProvider) option" where
  "docSections p = (case cpSects p of
     Some s \<Rightarrow> Some (s, p)
   | None \<Rightarrow> (case readDocSections (cpId p) (cpIdx p) of
       Inr (s, sz) \<Rightarrow> let v = nilList (cpSectBuf p) s in
         Some (s, p\<lparr>cpSects := v, cpSectBuf := (v \<noteq> None), cpErr := None,
                    cpStats := (cpStats p)\<lparr>ContentBytesLoaded := ContentBytesLoaded (cpStats p) + int (unat sz)\<rparr>\<rparr>)
     | Inl (GoErr e) \<Rightarrow> Some ([], p\<lparr>cpSects := None, cpSectBuf := False, cpErr := Some e\<rparr>)
     | Inl (GoPanic e) \<Rightarrow> None))"

definition newlines :: "contentProvider \<Rightarrow> (u32 list \<times> contentProvider) option" where
  "newlines p = (case cpNl p of
     Some nl \<Rightarrow> Some (nl, p)
   | None \<Rightarrow> (case readNewlines (cpId p) (cpIdx p) of
       Inr (nl, sz) \<Rightarrow> let v = nilList (cpNlBuf p) nl in
         Some (nl, p\<lparr>cpNl := v, cpNlBuf := (v \<noteq> None), cpErr := None,
                     cpStats := (cpStats p)\<lparr>ContentBytesLoaded := ContentBytesLoaded (cpStats p) + int (unat sz)\<rparr>\<rparr>)
     | Inl (GoErr e) \<Rightarrow> Some ([], p\<lparr>cpNl := None, cpNlBuf := False, cpErr := Some e\<rparr>)
     | Inl (GoPanic e) \<Rightarrow> None))"

definition data :: "bool \<Rightarrow> contentProvider \<Rightarrow> (goslice \<times> contentProvider) option" where
  "data fn p =
     (if fn then map_option (\<lambda>b. (b, p)) (ixFileName (cpId p) (cpIdx p))
      else case cpData p of
        Some b \<Rightarrow> Some (b, p)
      | None \<Rightarrow> do {
          (b, err) \<leftarrow> attempt ([], []) (readContents (cpId p) (cpIdx p));
          Some (b, p\<lparr>cpData := (if err = None then Some b else None), cpErr := err,
                     cpStats := (cpStats p)\<lparr>FilesLoaded := FilesLoaded (cpStats p) + 1,
                       ContentBytesLoaded := ContentBytesLoaded (cpStats p) + int (length (fst b))\<rparr>\<rparr>)
        })"

section \<open>From rune offsets to byte offsets\<close>

abbreviation (input) runeOffsetFrequency :: nat where
  "runeOffsetFrequency \<equiv> 100"

text \<open>The loop of \<^verbatim>\<open>findOffset\<close>; at the end of the data \<^verbatim>\<open>DecodeRune\<close> has width 0.\<close>

fun skipRunes :: "nat \<Rightarrow> bytes \<Rightarrow> u32 \<Rightarrow> u32" where
  "skipRunes 0 bs off = off"
| "skipRunes (Suc left) bs off =
     (let sz = snd (decodeRune bs) in skipRunes left (drop sz bs) (off + of_nat sz))"

definition findOffset :: "bool \<Rightarrow> u32 \<Rightarrow> contentProvider \<Rightarrow> (u32 \<times> contentProvider) option" where
  "findOffset fn r p =
     (let d = cpId p in
      if PlainASCII (metaData d) then Some (r, p)
      else do {
        let sample = (if fn then fileNameRuneOffsets d else ixRuneOffsets d);
        let runeEnds = (if fn then fileNameEndRunes d else ixFileEndRunes d);
        contentStart \<leftarrow> nthO (boundaries d) (cpIdx p);
        fileStartByte \<leftarrow> (if fn then nthO (fileNameIndex d) (cpIdx p) else Some contentStart);
        before \<leftarrow> (if 0 < cpIdx p then nthO runeEnds (cpIdx p - 1) else Some 0);
        let absR = r + before;
        off \<leftarrow> nthO sample (absR div 100);
        let left = unat (absR mod 100);
        if fn then do {
          bs \<leftarrow> goSliceFrom (fileNameContent d) off;
          Some (skipRunes left bs off - fileStartByte, p)
        } else do {
          (b, err) \<leftarrow> attempt ([], []) (readContentSlice d off (3 * 100));
          if err \<noteq> None then Some (0, p\<lparr>cpErr := err\<rparr>)
          else Some (skipRunes left (fst b) off - fileStartByte, p\<lparr>cpErr := None\<rparr>)
        }
      })"

section \<open>Scores\<close>

abbreviation scorePartialWordMatch :: rat where "scorePartialWordMatch \<equiv> 50"
abbreviation scoreWordMatch :: rat where "scoreWordMatch \<equiv> 500"
abbreviation scoreImportantThreshold :: rat where "scoreImportantThreshold \<equiv> 2000"
abbreviation scorePartialSymbol :: rat where "scorePartialSymbol \<equiv> 4000"
abbreviation scoreSymbol :: rat where "scoreSymbol \<equiv> 7000"
abbreviation scoreFactorAtomMatch :: rat where "scoreFactorAtomMatch \<equiv> 400"
abbreviation scoreShardRankFactor :: rat where "scoreShardRankFactor \<equiv> 20"
abbreviation scoreFileOrderFactor :: rat where "scoreFileOrderFactor \<equiv> 10"
abbreviation scoreLineOrderFactor :: rat where "scoreLineOrderFactor \<equiv> 1"

definition findSection :: "DocumentSection list \<Rightarrow> u32 \<Rightarrow> u32 \<Rightarrow> DocumentSection option" where
  "findSection secs off sz =
     (let j = sortSearch (length secs) (\<lambda>i. off + sz \<le> End (secs ! i)) in
      if j = length secs then None
      else if Start (secs ! j) \<le> off \<and> off + sz \<le> End (secs ! j) then Some (secs ! j)
      else None)"

text \<open>Indexing with a Go \<^verbatim>\<open>int\<close>.\<close>

definition nthI :: "'a list \<Rightarrow> int \<Rightarrow> 'a option" where
  "nthI xs i = (if 0 \<le> i \<and> i < int (length xs) then Some (xs ! nat i) else None)"

definition classChange :: "bytes \<Rightarrow> int \<Rightarrow> bool option" where
  "classChange l i = do {
     a \<leftarrow> nthI l (i - 1);
     b \<leftarrow> nthI l i;
     Some (byteClass a \<noteq> byteClass b)
   }"

definition fragmentScore :: "DocumentSection list \<Rightarrow> bytes \<Rightarrow> LineFragmentMatch \<Rightarrow> rat option" where
  "fragmentScore secs l f = do {
     startBoundary \<leftarrow> (if LineOffset f < int (length l)
       then if LineOffset f = 0 then Some True else classChange l (LineOffset f) else Some False);
     let fend = LineOffset f + MatchLength f;
     endBoundary \<leftarrow> (if 0 < fend
       then if fend = int (length l) then Some True else classChange l fend else Some False);
     let score = (if startBoundary \<and> endBoundary then scoreWordMatch
                  else if startBoundary \<or> endBoundary then scorePartialWordMatch else 0);
     let sz = (of_int (MatchLength f) :: u32);
     Some (case findSection secs (Offset f) sz of
       None \<Rightarrow> score
     | Some sec \<Rightarrow>
         let startMatch = (Start sec = Offset f); endMatch = (End sec = Offset f + sz) in
         score + (if startMatch \<and> endMatch then scoreSymbol
                  else if startMatch \<or> endMatch then (scoreSymbol + scorePartialSymbol) / 2
                  else scorePartialSymbol))
   }"

fun matchScoreLoop :: "DocumentSection list \<Rightarrow> bytes \<Rightarrow> LineFragmentMatch list \<Rightarrow> rat \<Rightarrow> rat option" where
  "matchScoreLoop secs l [] maxScore = Some maxScore"
| "matchScoreLoop secs l (f # fs) maxScore = do {
     score \<leftarrow> fragmentScore secs l f;
     matchScoreLoop secs l fs (if maxScore < score then score else maxScore)
   }"

definition matchScore :: "DocumentSection list \<Rightarrow> LineMatch \<Rightarrow> rat option" where
  "matchScore secs m = matchScoreLoop secs (lmLine m) (lmLineFragments m) 0"

section \<open>Matches as lines\<close>

fun indexByte :: "u8 \<Rightarrow> bytes \<Rightarrow> nat option" where
  "indexByte c [] = None"
| "indexByte c (b # bs) = (if b = c then Some 0 else map_option Suc (indexByte c bs))"

text \<open>Lines are taken until the last match of the line ends.\<close>

function extendLine :: "bytes \<Rightarrow> u32 \<Rightarrow> nat \<Rightarrow> nat" where
  "extendLine bs endMatch lineEnd =
     (if lineEnd < length bs \<and> of_nat lineEnd < endMatch then
        case indexByte 0x0A (drop (lineEnd + 1) bs) of
          None \<Rightarrow> extendLine bs endMatch (length bs)
        | Some nxt \<Rightarrow> extendLine bs endMatch (lineEnd + nxt + 1)
      else lineEnd)"
  by pat_completeness auto
termination
  by (relation "measure (\<lambda>(bs, endMatch, lineEnd). length bs - lineEnd)") auto

declare extendLine.simps [simp del]

definition fragmentAt :: "nat \<Rightarrow> candidateMatch \<Rightarrow> LineFragmentMatch" where
  "fragmentAt lineStart m = \<lparr>LineOffset = int (unat (byteOffset m)) - int lineStart,
     Offset = byteOffset m, MatchLength = int (unat (byteMatchSz m))\<rparr>"

definition sliceAt :: "goslice \<Rightarrow> nat \<Rightarrow> nat \<Rightarrow> bytes option" where
  "sliceAt c a b = (if a \<le> b \<and> b \<le> length (fst c) + length (snd c) then Some (slice a b (fst c @ snd c)) else None)"

definition lineEndMatch :: "candidateMatch list \<Rightarrow> u32" where
  "lineEndMatch ms = byteOffset (last ms) + byteMatchSz (last ms)"

text \<open>The loop panics when the first match is beyond the end of its line.\<close>

function fillContentMatches :: "candidateMatch list \<Rightarrow> contentProvider \<Rightarrow> (LineMatch list \<times> contentProvider) option" where
  "fillContentMatches ms p =
     (case ms of [] \<Rightarrow> Some ([], p)
      | m # _ \<Rightarrow> do {
          (nl, p1) \<leftarrow> newlines p;
          let (num, lineStart, lineEnd) = line m nl (cpFileSize p);
          let lineCands = takeWhile (\<lambda>m. unat (byteOffset m) \<le> lineEnd) ms;
          if lineCands = [] then None
          else do {
            (b, p2) \<leftarrow> data False p1;
            let lineEnd' = extendLine (fst b) (lineEndMatch lineCands) lineEnd;
            l \<leftarrow> sliceAt b lineStart lineEnd';
            (rest, p3) \<leftarrow> fillContentMatches (drop (length lineCands) ms) p2;
            Some (\<lparr>lmLine = l, lmLineStart = int lineStart, lmLineEnd = int lineEnd',
                   lmLineNumber = int num, lmFileName = False, lmScore = 0,
                   lmLineFragments = map (fragmentAt lineStart) lineCands\<rparr> # rest, p3)
          }
        })"
  by pat_completeness auto
termination
  by (relation "measure (\<lambda>(ms, p). length ms)") auto

declare fillContentMatches.simps [simp del]

fun scoreLines :: "DocumentSection list \<Rightarrow> LineMatch list \<Rightarrow> LineMatch list option" where
  "scoreLines secs [] = Some []"
| "scoreLines secs (m # ms) = do {
     s \<leftarrow> matchScore secs m;
     ms' \<leftarrow> scoreLines secs ms;
     Some (m\<lparr>lmScore := s\<rparr> # ms')
   }"

definition fillMatches :: "candidateMatch list \<Rightarrow> contentProvider \<Rightarrow> (LineMatch list \<times> contentProvider) option" where
  "fillMatches ms p = (case ms of [] \<Rightarrow> None
     | m # _ \<Rightarrow> do {
         (result, p1) \<leftarrow> (if fileName m
           then do {
             nm \<leftarrow> ixFileName (cpId p) (cpIdx p);
             Some ([\<lparr>lmLine = fst nm, lmLineStart = 0, lmLineEnd = 0, lmLineNumber = 0, lmFileName = True,
                     lmScore = 0, lmLineFragments = map (fragmentAt 0) ms\<rparr>], p)
           }
           else fillContentMatches ms p);
         (sects, p2) \<leftarrow> docSections p1;
         result' \<leftarrow> scoreLines sects result;
         Some (result', p2)
       })"

section \<open>Lines that hold their matches\<close>

lemma indexByte_bound: "indexByte c bs = Some k \<Longrightarrow> k < length bs"
  by (induction bs arbitrary: k) (auto split: if_splits)

lemma extendLine_bounds:
  assumes "length bs < 4294967296" and "unat e \<le> length bs" and "l \<le> length bs"
  shows "l \<le> extendLine bs e l \<and> extendLine bs e l \<le> length bs \<and> unat e \<le> extendLine bs e l"
  using assms
proof (induction bs e l rule: extendLine.induct)
  case (1 bs e l)
  show ?case
  proof (cases "l < length bs \<and> of_nat l < e")
    case True
    show ?thesis
    proof (cases "indexByte 0x0A (drop (l + 1) bs)")
      case None
      then show ?thesis using 1 True by (subst (1 2 3) extendLine.simps) simp
    next
      case (Some k)
      have "l + k + 1 \<le> length bs" using indexByte_bound [OF Some] by simp
      then show ?thesis using 1 True Some by (subst (1 2 3) extendLine.simps) fastforce
    qed
  next
    case False
    then have "unat e \<le> l" using 1 by (auto simp: word_less_nat_alt unat_of_nat_u32)
    then show ?thesis using False 1 by (subst (1 2 3) extendLine.simps) auto
  qed
qed

text \<open>The provider stands at document \<open>i\<close> of \<open>d\<close>, with newlines \<open>nl\<close> and contents \<open>b\<close>.\<close>

definition docIs :: "indexData \<Rightarrow> u32 \<Rightarrow> u32 list \<Rightarrow> goslice \<Rightarrow> contentProvider \<Rightarrow> bool" where
  "docIs d i nl b p \<longleftrightarrow> cpId p = d \<and> cpIdx p = i \<and> cpFileSize p = of_nat (length (fst b)) \<and>
     (\<exists>sz. readNewlines d i = Inr (nl, sz)) \<and> readContents d i = Inr b \<and>
     cpNl p \<in> {None, Some nl} \<and> cpData p \<in> {None, Some b}"

lemma newlines_docIs: "docIs d i nl b p \<Longrightarrow> \<exists>p'. newlines p = Some (nl, p') \<and> docIs d i nl b p'"
  by (auto simp: docIs_def newlines_def nilList_def Let_def)

lemma data_docIs: "docIs d i nl b p \<Longrightarrow> \<exists>p'. data False p = Some (b, p') \<and> docIs d i nl b p'"
  by (auto simp: docIs_def data_def attempt_def)

text \<open>Matches in document order that do not overlap and end within the document.\<close>

abbreviation matchEnd :: "candidateMatch \<Rightarrow> nat" where
  "matchEnd m \<equiv> unat (byteOffset m) + unat (byteMatchSz m)"

definition laidOut :: "nat \<Rightarrow> candidateMatch list \<Rightarrow> bool" where
  "laidOut n ms \<longleftrightarrow> sorted_wrt (\<lambda>m m'. matchEnd m \<le> unat (byteOffset m')) ms \<and> (\<forall>m \<in> set ms. matchEnd m \<le> n)"

definition wfNewlines :: "u32 list \<Rightarrow> u32 \<Rightarrow> bool" where
  "wfNewlines nl n \<longleftrightarrow> sorted_wrt (<) nl \<and> (\<forall>p \<in> set nl. p < n)"

text \<open>A line match whose text is the document between its bounds, and whose fragments lie in it.\<close>

definition goodLine :: "bytes \<Rightarrow> LineMatch \<Rightarrow> bool" where
  "goodLine bs l \<longleftrightarrow> 0 \<le> lmLineStart l \<and> lmLineStart l \<le> lmLineEnd l \<and> lmLineEnd l \<le> int (length bs) \<and>
     lmLine l = slice (nat (lmLineStart l)) (nat (lmLineEnd l)) bs \<and> lmLineFragments l \<noteq> [] \<and>
     (\<forall>f \<in> set (lmLineFragments l). 0 \<le> MatchLength f \<and> 0 \<le> LineOffset f \<and>
        LineOffset f = int (unat (Offset f)) - lmLineStart l \<and> LineOffset f + MatchLength f \<le> int (length (lmLine l)))"

lemma laidOut_last:
  assumes "laidOut n ms" "m \<in> set ms"
  shows "matchEnd m \<le> matchEnd (last ms)"
  using assms
proof (induction ms)
  case (Cons x xs)
  then show ?case by (cases "xs = []") (auto simp: laidOut_def dest!: bspec [OF _ last_in_set])
qed simp

lemma laidOut_first: "laidOut n (m # ms) \<Longrightarrow> m' \<in> set (m # ms) \<Longrightarrow> unat (byteOffset m) \<le> unat (byteOffset m')"
  by (auto simp: laidOut_def)

lemma laidOut_append: "laidOut n (xs @ ys) \<Longrightarrow> laidOut n xs \<and> laidOut n ys"
  by (auto simp: laidOut_def sorted_wrt_append)

lemma sliceAt_inside: "a \<le> b \<Longrightarrow> b \<le> length (fst c) \<Longrightarrow> sliceAt c a b = Some (slice a b (fst c))"
  by (auto simp: sliceAt_def slice_def)

lemma takeWhile_laidOut:
  fixes k :: nat
  assumes "laidOut n (m # ms)" and "unat (byteOffset m) \<le> k"
  defines "lc \<equiv> takeWhile (\<lambda>m. unat (byteOffset m) \<le> k) (m # ms)"
  shows "lc \<noteq> []" and "laidOut n lc" and "laidOut n (drop (length lc) (m # ms))" and "m # ms = lc @ drop (length lc) (m # ms)"
proof -
  show ne: "lc \<noteq> []" using assms(2) by (simp add: lc_def)
  show split: "m # ms = lc @ drop (length lc) (m # ms)"
    unfolding lc_def by (metis dropWhile_eq_drop takeWhile_dropWhile_id)
  show "laidOut n lc" "laidOut n (drop (length lc) (m # ms))"
    using laidOut_append [of n lc "drop (length lc) (m # ms)"] assms(1) split by auto
qed

lemma lineEndMatch_unat:
  assumes "laidOut n lc" "lc \<noteq> []" "n < 4294967296"
  shows "unat (lineEndMatch lc) = matchEnd (last lc)" and "unat (lineEndMatch lc) \<le> n"
proof -
  have "matchEnd (last lc) \<le> n" using assms(1,2) by (simp add: laidOut_def)
  then show "unat (lineEndMatch lc) = matchEnd (last lc)"
    unfolding lineEndMatch_def using assms(3) by (intro unat_add_u32) simp
  with \<open>matchEnd (last lc) \<le> n\<close> show "unat (lineEndMatch lc) \<le> n" by simp
qed

lemma goodLine_made:
  assumes lc: "laidOut (length bs) lc" "lc \<noteq> []" and len: "length bs < 4294967296"
    and start: "start \<le> unat (byteOffset (hd lc))" "unat (byteOffset (hd lc)) \<le> lend" "lend \<le> length bs"
    and l': "l' = extendLine bs (lineEndMatch lc) lend"
  shows "goodLine bs \<lparr>lmLine = slice start l' bs, lmLineStart = int start, lmLineEnd = int l', lmLineNumber = num,
    lmFileName = False, lmScore = 0, lmLineFragments = map (fragmentAt start) lc\<rparr>" and "start \<le> l'" and "l' \<le> length bs"
proof -
  note em = lineEndMatch_unat [OF lc len]
  have b: "lend \<le> l'" "l' \<le> length bs" "unat (lineEndMatch lc) \<le> l'"
    using extendLine_bounds [OF len em(2) start(3)] l' by simp_all
  show sl: "start \<le> l'" "l' \<le> length bs" using start b by linarith+
  have "int start \<le> int (unat (byteOffset m))" "int (unat (byteOffset m)) + int (unat (byteMatchSz m)) \<le> int l'"
    if "m \<in> set lc" for m
  proof -
    have "unat (byteOffset (hd lc)) \<le> unat (byteOffset m)"
      using laidOut_first [of _ "hd lc" "tl lc"] lc that by (cases lc) auto
    then show "int start \<le> int (unat (byteOffset m))" using start(1) by linarith
    have "matchEnd m \<le> l'" using laidOut_last [OF lc(1) that] em b(3) by simp
    then show "int (unat (byteOffset m)) + int (unat (byteMatchSz m)) \<le> int l'" by linarith
  qed
  moreover have "int (length (slice start l' bs)) = int l' - int start" using sl by (simp add: of_nat_diff)
  ultimately have "0 \<le> int (unat (byteOffset m)) - int start \<and>
      int (unat (byteOffset m)) - int start + int (unat (byteMatchSz m)) \<le> int (length (slice start l' bs))"
    if "m \<in> set lc" for m
    using that by fastforce
  then show "goodLine bs \<lparr>lmLine = slice start l' bs, lmLineStart = int start, lmLineEnd = int l', lmLineNumber = num,
    lmFileName = False, lmScore = 0, lmLineFragments = map (fragmentAt start) lc\<rparr>"
    using sl lc(2) by (auto simp: goodLine_def fragmentAt_def simp del: length_slice)
qed

lemma fillContentMatches_step:
  assumes "ms \<noteq> []" "newlines p = Some (nl, p1)" "line (hd ms) nl (cpFileSize p) = (num, start, lend)"
    and "lc = takeWhile (\<lambda>m. unat (byteOffset m) \<le> lend) ms" "lc \<noteq> []" "data False p1 = Some (b, p2)"
    and "sliceAt b start (extendLine (fst b) (lineEndMatch lc) lend) = Some t"
    and "fillContentMatches (drop (length lc) ms) p2 = Some (rest, p3)"
  shows "fillContentMatches ms p = Some (\<lparr>lmLine = t, lmLineStart = int start,
      lmLineEnd = int (extendLine (fst b) (lineEndMatch lc) lend), lmLineNumber = int num, lmFileName = False,
      lmScore = 0, lmLineFragments = map (fragmentAt start) lc\<rparr> # rest, p3)"
  unfolding fillContentMatches.simps [of ms p] list.case_eq_if using assms by (simp add: Let_def)

lemma fillContentMatches_good:
  assumes "laidOut (length (fst b)) ms" and "docIs d i nl b p" and "wfNewlines nl (of_nat (length (fst b)))"
    and len: "length (fst b) < 4294967296"
  shows "\<exists>res p'. fillContentMatches ms p = Some (res, p') \<and> docIs d i nl b p' \<and> list_all (goodLine (fst b)) res \<and>
    map (\<lambda>f. (Offset f, MatchLength f)) (concat (map lmLineFragments res))
      = map (\<lambda>m. (byteOffset m, int (unat (byteMatchSz m)))) ms"
  using assms(1-3)
proof (induction "length ms" arbitrary: ms p rule: less_induct)
  case less
  show ?case
  proof (cases ms)
    case Nil
    then show ?thesis using less.prems by (subst fillContentMatches.simps) auto
  next
    case (Cons m ms')
    let ?n = "length (fst b)"
    obtain p1 where p1: "newlines p = Some (nl, p1)" "docIs d i nl b p1" using newlines_docIs less.prems(2) by blast
    obtain p2 where p2: "data False p1 = Some (b, p2)" "docIs d i nl b p2" using data_docIs p1(2) by blast
    obtain num start lend where l: "line m nl (of_nat ?n) = (num, start, lend)" using prod_cases3 by blast
    have un: "unat (of_nat ?n :: u32) = ?n" using len by (rule unat_of_nat_u32)
    have "byteOffset m \<le> of_nat ?n" using less.prems(1) Cons un by (auto simp: laidOut_def word_le_nat_alt)
    then have lb: "start \<le> unat (byteOffset m)" "unat (byteOffset m) \<le> lend" "lend \<le> ?n"
      using line_correct [OF _ _ _ l] less.prems(3) un by (auto simp: wfNewlines_def)
    define lc where "lc = takeWhile (\<lambda>m. unat (byteOffset m) \<le> lend) ms"
    note tw = takeWhile_laidOut [OF less.prems(1) [unfolded Cons] lb(2), folded Cons, folded lc_def]
    have hd: "hd lc = m" using tw(1,4) Cons by (metis hd_append list.sel(1))
    define l' where "l' = extendLine (fst b) (lineEndMatch lc) lend"
    note good = goodLine_made [OF tw(2,1) len _ _ lb(3) l'_def, unfolded hd, OF lb(1,2)]
    have "length (drop (length lc) ms) < length ms" using tw(1) Cons by simp
    from less.hyps [OF this tw(3) p2(2) less.prems(3)] obtain res p3 where
      rec: "fillContentMatches (drop (length lc) ms) p2 = Some (res, p3)" "docIs d i nl b p3" "list_all (goodLine (fst b)) res"
      "map (\<lambda>f. (Offset f, MatchLength f)) (concat (map lmLineFragments res))
        = map (\<lambda>m. (byteOffset m, int (unat (byteMatchSz m)))) (drop (length lc) ms)" by blast
    have fs: "cpFileSize p = of_nat ?n" using less.prems(2) by (simp add: docIs_def)
    have "fillContentMatches ms p = Some (\<lparr>lmLine = slice start l' (fst b), lmLineStart = int start, lmLineEnd = int l',
        lmLineNumber = int num, lmFileName = False, lmScore = 0, lmLineFragments = map (fragmentAt start) lc\<rparr> # res, p3)"
      unfolding l'_def by (rule fillContentMatches_step [OF _ p1(1) _ lc_def tw(1) p2(1) _ rec(1)])
        (use Cons l fs sliceAt_inside [OF good(2,3)] in \<open>simp_all add: l'_def\<close>)
    moreover have "map (\<lambda>m. (byteOffset m, int (unat (byteMatchSz m)))) ms
        = map (\<lambda>m. (byteOffset m, int (unat (byteMatchSz m)))) lc
          @ map (\<lambda>m. (byteOffset m, int (unat (byteMatchSz m)))) (drop (length lc) ms)"
      using tw(4) by (metis map_append)
    ultimately show ?thesis using rec good(1) by (simp add: fragmentAt_def comp_def)
  qed
qed

section \<open>Scores are bounded\<close>

abbreviation maxFragmentScore :: rat where
  "maxFragmentScore \<equiv> scoreWordMatch + scoreSymbol"

definition goodFragment :: "bytes \<Rightarrow> LineFragmentMatch \<Rightarrow> bool" where
  "goodFragment l f \<longleftrightarrow> 0 \<le> MatchLength f \<and> 0 \<le> LineOffset f \<and> LineOffset f + MatchLength f \<le> int (length l)"

lemma classChange_inside: "0 < i \<Longrightarrow> i < int (length l) \<Longrightarrow> \<exists>b. classChange l i = Some b"
  by (simp add: classChange_def nthI_def)

lemma fragmentScore_bounds:
  assumes "goodFragment l f"
  shows "\<exists>s. fragmentScore secs l f = Some s \<and> 0 \<le> s \<and> s \<le> maxFragmentScore"
proof -
  let ?e = "LineOffset f + MatchLength f"
  have "\<exists>b. (if LineOffset f < int (length l) then if LineOffset f = 0 then Some True
      else classChange l (LineOffset f) else Some False) = Some b"
    using assms classChange_inside [of "LineOffset f" l] by (auto simp: goodFragment_def)
  then obtain b where b: "(if LineOffset f < int (length l) then if LineOffset f = 0 then Some True
      else classChange l (LineOffset f) else Some False) = Some b" by blast
  have "\<exists>e. (if 0 < ?e then if ?e = int (length l) then Some True else classChange l ?e else Some False) = Some e"
    using assms classChange_inside [of ?e l] by (auto simp: goodFragment_def)
  then obtain e where e: "(if 0 < ?e then if ?e = int (length l) then Some True else classChange l ?e else Some False) = Some e"
    by blast
  show ?thesis unfolding fragmentScore_def b Let_def e
    by (cases "findSection secs (Offset f) (of_int (MatchLength f))") auto
qed

lemma matchScoreLoop_bounds:
  "list_all (goodFragment l) fs \<Longrightarrow> 0 \<le> m \<Longrightarrow> m \<le> maxFragmentScore \<Longrightarrow>
    \<exists>s. matchScoreLoop secs l fs m = Some s \<and> 0 \<le> s \<and> s \<le> maxFragmentScore"
proof (induction fs arbitrary: m)
  case (Cons f fs)
  then obtain s where s: "fragmentScore secs l f = Some s" "0 \<le> s" "s \<le> maxFragmentScore"
    using fragmentScore_bounds [of l f secs] by auto
  then show ?case using Cons by (cases "m < s") auto
qed simp

lemma goodLine_fragments: "goodLine bs l \<Longrightarrow> list_all (goodFragment (lmLine l)) (lmLineFragments l)"
  by (auto simp: goodLine_def goodFragment_def list_all_iff)

lemma matchScore_bounds:
  "list_all (goodFragment (lmLine l)) (lmLineFragments l) \<Longrightarrow> \<exists>s. matchScore secs l = Some s \<and> 0 \<le> s \<and> s \<le> maxFragmentScore"
  unfolding matchScore_def by (rule matchScoreLoop_bounds) simp_all

lemma scoreLines_bounds:
  "list_all (\<lambda>l. list_all (goodFragment (lmLine l)) (lmLineFragments l)) ls \<Longrightarrow>
    \<exists>ls'. scoreLines secs ls = Some ls' \<and> map (\<lambda>l. l\<lparr>lmScore := 0\<rparr>) ls' = map (\<lambda>l. l\<lparr>lmScore := 0\<rparr>) ls \<and>
      list_all (\<lambda>l. 0 \<le> lmScore l \<and> lmScore l \<le> maxFragmentScore) ls'"
proof (induction ls)
  case (Cons l ls)
  then show ?case using matchScore_bounds [of l secs] by auto
qed simp

section \<open>Byte offsets of runes\<close>

text \<open>The bytes before rune \<open>n\<close>.\<close>

definition byteWidth :: "nat \<Rightarrow> bytes \<Rightarrow> nat" where
  "byteWidth n bs = sum_list (map snd (take n (runesOf bs)))"

lemma byteWidth_0 [simp]: "byteWidth 0 bs = 0"
  by (simp add: byteWidth_def)

lemma byteWidth_Suc:
  "byteWidth (Suc n) bs = snd (decodeRune bs) + byteWidth n (drop (snd (decodeRune bs)) bs)" if "bs \<noteq> []"
  using that by (simp add: byteWidth_def runesOf.simps [of bs])

lemma skipRunes_width: "n \<le> runeCount bs \<Longrightarrow> skipRunes n bs off = off + of_nat (byteWidth n bs)"
proof (induction n arbitrary: bs off)
  case (Suc n)
  then have ne: "bs \<noteq> []" by (auto simp: runeCount_def runesOf.simps)
  then have "n \<le> runeCount (drop (snd (decodeRune bs)) bs)"
    using Suc.prems by (simp add: runeCount_def runesOf.simps [of bs])
  then show ?case using Suc.IH byteWidth_Suc [OF ne] by (simp add: Let_def add.assoc)
qed simp

text \<open>A rune is decoded from its own bytes only.\<close>

lemma take_case1:
  "snd (case bs of b1 # _ \<Rightarrow> if P b1 then (f b1, 2) else (e, 1) | _ \<Rightarrow> (e, 1)) \<le> Suc k \<Longrightarrow>
    (case take k bs of b1 # _ \<Rightarrow> if P b1 then (f b1, 2) else (e, 1 :: nat) | _ \<Rightarrow> (e, 1))
      = (case bs of b1 # _ \<Rightarrow> if P b1 then (f b1, 2) else (e, 1) | _ \<Rightarrow> (e, 1))"
  by (cases bs; cases k) (auto split: if_splits)

lemma take_case2:
  "snd (case bs of b1 # b2 # _ \<Rightarrow> if P b1 b2 then (f b1 b2, 3) else (e, 1) | _ \<Rightarrow> (e, 1)) \<le> Suc k \<Longrightarrow>
    (case take k bs of b1 # b2 # _ \<Rightarrow> if P b1 b2 then (f b1 b2, 3) else (e, 1 :: nat) | _ \<Rightarrow> (e, 1))
      = (case bs of b1 # b2 # _ \<Rightarrow> if P b1 b2 then (f b1 b2, 3) else (e, 1) | _ \<Rightarrow> (e, 1))"
  by (auto simp: take_Cons split: list.splits nat.splits if_splits)

lemma take_case3:
  "snd (case bs of b1 # b2 # b3 # _ \<Rightarrow> if P b1 b2 b3 then (f b1 b2 b3, 4) else (e, 1) | _ \<Rightarrow> (e, 1)) \<le> Suc k \<Longrightarrow>
    (case take k bs of b1 # b2 # b3 # _ \<Rightarrow> if P b1 b2 b3 then (f b1 b2 b3, 4) else (e, 1 :: nat) | _ \<Rightarrow> (e, 1))
      = (case bs of b1 # b2 # b3 # _ \<Rightarrow> if P b1 b2 b3 then (f b1 b2 b3, 4) else (e, 1) | _ \<Rightarrow> (e, 1))"
  by (auto simp: take_Cons split: list.splits nat.splits if_splits)

lemma decodeRune_take: "snd (decodeRune bs) \<le> k \<Longrightarrow> 0 < k \<Longrightarrow> decodeRune (take k bs) = decodeRune bs"
proof (cases bs)
  case (Cons b0 rest)
  assume w: "snd (decodeRune bs) \<le> k" and "0 < k"
  then obtain k' where k: "k = Suc k'" by (cases k) auto
  show ?thesis using w unfolding Cons k take_Suc_Cons decodeRune.simps
    by (simp only: if_True if_False take_case1 take_case2 take_case3 simp_thms split: if_split_asm)
qed simp

lemma byteWidth_take:
  "n \<le> runeCount bs \<Longrightarrow> byteWidth n bs \<le> k \<Longrightarrow> byteWidth n (take k bs) = byteWidth n bs \<and> n \<le> runeCount (take k bs)"
proof (induction n arbitrary: bs k)
  case (Suc n)
  let ?w = "snd (decodeRune bs)"
  have ne: "bs \<noteq> []" using Suc.prems(1) by (auto simp: runeCount_def)
  have w: "0 < ?w" "?w \<le> k" using decodeRune_size_pos [OF ne] byteWidth_Suc [OF ne] Suc.prems(2) by auto
  then have tk: "take k bs \<noteq> []" "decodeRune (take k bs) = decodeRune bs" using ne decodeRune_take by auto
  have "n \<le> runeCount (drop ?w bs)" using Suc.prems(1) ne by (simp add: runeCount_def runesOf_nonempty)
  moreover have "byteWidth n (drop ?w bs) \<le> k - ?w" using Suc.prems(2) byteWidth_Suc [OF ne] by simp
  ultimately have "byteWidth n (take (k - ?w) (drop ?w bs)) = byteWidth n (drop ?w bs) \<and> n \<le> runeCount (take (k - ?w) (drop ?w bs))"
    by (rule Suc.IH)
  then show ?case using byteWidth_Suc [OF ne] byteWidth_Suc [OF tk(1)] tk
    by (simp add: drop_take runeCount_def runesOf_nonempty)
qed simp

lemma byteWidth_add:
  "byteWidth (m + n) bs = byteWidth m bs + byteWidth n (drop (byteWidth m bs) bs)"
proof (induction m arbitrary: bs)
  case (Suc m)
  show ?case
  proof (cases "bs = []")
    case False
    then show ?thesis using Suc.IH [of "drop (snd (decodeRune bs)) bs"]
      by (simp add: byteWidth_Suc [OF False] add.commute [of _ "snd (decodeRune bs)"])
  qed (simp add: byteWidth_def)
qed simp

lemma runesOf_drop: "runesOf (drop (byteWidth m bs) bs) = drop m (runesOf bs)"
proof (induction m arbitrary: bs)
  case (Suc m)
  show ?case
  proof (cases "bs = []")
    case False
    then show ?thesis using Suc.IH [of "drop (snd (decodeRune bs)) bs"]
      by (simp add: byteWidth_Suc [OF False] runesOf_nonempty [OF False] add.commute [of _ "snd (decodeRune bs)"])
  qed (simp add: byteWidth_def)
qed simp

lemma byteWidth_le: "byteWidth n bs \<le> length bs"
proof -
  have "byteWidth n bs + sum_list (map snd (drop n (runesOf bs))) = length bs"
    using sum_widths [of bs] unfolding byteWidth_def
    by (metis append_take_drop_id map_append sum_list_append)
  then show ?thesis by simp
qed

section \<open>The index of a list of documents\<close>

definition runesBefore :: "bytes list \<Rightarrow> nat \<Rightarrow> nat" where
  "runesBefore docs i = sum_list (map runeCount (take i docs))"

definition bytesBefore :: "bytes list \<Rightarrow> nat \<Rightarrow> nat" where
  "bytesBefore docs i = sum_list (map length (take i docs))"

definition docEnds :: "bytes list \<Rightarrow> u32 list" where
  "docEnds docs = map (\<lambda>i. of_nat (runesBefore docs (Suc i))) [0..<length docs]"

definition docStarts :: "bytes list \<Rightarrow> u32 list" where
  "docStarts docs = map (\<lambda>i. of_nat (bytesBefore docs i)) [0..<Suc (length docs)]"

definition runeSamples :: "bytes \<Rightarrow> u32 list" where
  "runeSamples C = map (\<lambda>k. of_nat (byteWidth (100 * k) C)) [0..<(runeCount C + 99) div 100]"

text \<open>The index describes the texts \<open>docs\<close> (contents, or file names with \<open>fn\<close>). Decoding may not
  run across the end of a document, as in valid UTF-8.\<close>

definition describes :: "indexData \<Rightarrow> bool \<Rightarrow> bytes list \<Rightarrow> bool" where
  "describes d fn docs \<longleftrightarrow> (let C = concat docs in
     runesOf C = concat (map runesOf docs) \<and> length C < 4294967296 \<and>
     length docs < length (boundaries d) \<and> length docs < 4294967296 \<and>
     (PlainASCII (metaData d) \<longrightarrow> (\<forall>rw \<in> set (runesOf C). snd rw = 1)) \<and>
     (if fn then fileNameEndRunes d = docEnds docs \<and> fileNameIndex d = docStarts docs \<and>
        fileNameRuneOffsets d = runeSamples C \<and> fst (fileNameContent d) = C
      else ixFileEndRunes d = docEnds docs \<and> boundaries d = docStarts docs \<and> ixRuneOffsets d = runeSamples C \<and>
        (\<forall>i < length docs. \<exists>spare. readContents d (of_nat i) = Inr (docs ! i, spare)) \<and>
        (\<exists>x. runesOf (C @ x) = runesOf C @ runesOf x \<and>
           (\<forall>off \<le> length C. \<exists>spare. readContentSlice d (of_nat off) 300 = Inr (take 300 (drop off (C @ x)), spare)))))"

lemma docs_split: "i < length docs \<Longrightarrow> docs = take i docs @ docs ! i # drop (Suc i) docs"
  by (simp add: id_take_nth_drop)

lemma sum_runesOf: "sum_list (map snd (concat (map runesOf docs))) = sum_list (map length docs)"
  by (induction docs) (simp_all add: sum_widths)

lemma length_runesOf: "length (concat (map runesOf docs)) = sum_list (map runeCount docs)"
  by (induction docs) (simp_all add: runeCount_def)

lemma byteWidth_doc:
  assumes al: "runesOf (concat docs) = concat (map runesOf docs)" and i: "i < length docs" and r: "r \<le> runeCount (docs ! i)"
  shows "byteWidth (runesBefore docs i + r) (concat docs) = bytesBefore docs i + byteWidth r (docs ! i)"
proof -
  let ?a = "take i docs" and ?z = "drop (Suc i) docs"
  have "concat (map runesOf docs) = concat (map runesOf ?a) @ runesOf (docs ! i) @ concat (map runesOf ?z)"
    by (subst docs_split [OF i]) simp
  moreover have "length (concat (map runesOf ?a)) = runesBefore docs i"
    by (simp add: length_runesOf runesBefore_def)
  ultimately have "take (runesBefore docs i + r) (runesOf (concat docs)) = concat (map runesOf ?a) @ take r (runesOf (docs ! i))"
    using r al by (simp add: runeCount_def)
  then show ?thesis unfolding byteWidth_def by (simp add: sum_runesOf bytesBefore_def)
qed

lemma runesBefore_Suc: "i < length docs \<Longrightarrow> runesBefore docs (Suc i) = runesBefore docs i + runeCount (docs ! i)"
  by (simp add: runesBefore_def take_Suc_conv_app_nth)

lemma runesBefore_mono: "i \<le> j \<Longrightarrow> runesBefore docs i \<le> runesBefore docs j"
proof -
  assume "i \<le> j"
  then have "take j docs = take i docs @ take (j - i) (drop i docs)" by (metis le_add_diff_inverse take_add)
  then show ?thesis by (simp add: runesBefore_def)
qed

lemma runesBefore_le:
  assumes "runesOf (concat docs) = concat (map runesOf docs)" and "i \<le> length docs"
  shows "runesBefore docs i \<le> runeCount (concat docs)"
  using runesBefore_mono [OF assms(2), of docs] assms(1) by (simp add: runeCount_def length_runesOf runesBefore_def)

lemma byteWidth_append:
  assumes "runesOf (C @ x) = runesOf C @ runesOf x" and "n \<le> runeCount C"
  shows "byteWidth n (C @ x) = byteWidth n C"
  using assms by (simp add: byteWidth_def runeCount_def)

lemma docEnds_nth: "i < length docs \<Longrightarrow> docEnds docs ! i = of_nat (runesBefore docs (Suc i))"
  by (simp add: docEnds_def)

lemma length_docEnds [simp]: "length (docEnds docs) = length docs"
  by (simp add: docEnds_def)

lemma docStarts_nthO:
  "i \<le> length docs \<Longrightarrow> length docs < 4294967296 \<Longrightarrow> nthO (docStarts docs) (of_nat i) = Some (of_nat (bytesBefore docs i))"
  by (simp add: docStarts_def nthO_def unat_of_nat_u32 del: upt_Suc)

lemma docEnds_before:
  assumes "i < length docs" "length docs < 4294967296"
  shows "(if 0 < (of_nat i :: u32) then nthO (docEnds docs) (of_nat i - 1) else Some 0) = Some (of_nat (runesBefore docs i))"
proof (cases i)
  case (Suc j)
  have u: "unat (of_nat i :: u32) = i" using assms by (intro unat_of_nat_u32) simp
  then have "unat (of_nat i - 1 :: u32) = j" using Suc by (subst unat_sub_u32) (simp_all add: word_le_nat_alt)
  then show ?thesis using u Suc assms by (simp add: nthO_def docEnds_nth word_less_nat_alt)
qed (simp add: runesBefore_def)

text \<open>Skipping from the sample before a rune reaches the rune.\<close>

lemma skip_from_sample:
  assumes a: "a < runeCount C" and al: "runesOf (C @ x) = runesOf C @ runesOf x"
    and w: "byteWidth (a mod 100) (drop (byteWidth (100 * (a div 100)) C) C) \<le> k"
  shows "skipRunes (a mod 100) (take k (drop (byteWidth (100 * (a div 100)) C) (C @ x))) (of_nat (byteWidth (100 * (a div 100)) C))
    = of_nat (byteWidth a C)"
proof -
  let ?s = "100 * (a div 100)"
  let ?o = "byteWidth ?s C"
  have s: "?s \<le> runeCount C" "a = ?s + a mod 100" using a by simp_all
  have o: "?o = byteWidth ?s (C @ x)" using byteWidth_append [OF al s(1)] by simp
  have dr: "runesOf (drop ?o (C @ x)) = drop ?s (runesOf (C @ x))" unfolding o by (rule runesOf_drop)
  have cnt: "a mod 100 \<le> runeCount (drop ?o (C @ x))"
    unfolding runeCount_def dr using a al minus_mult_div_eq_mod [of a 100] by (simp add: runeCount_def flip: minus_mult_div_eq_mod)
  have ac: "a \<le> runeCount C" using a by simp
  have eq: "byteWidth (a mod 100) (drop ?o (C @ x)) = byteWidth a C - ?o"
    using byteWidth_add [of ?s "a mod 100" "C @ x"] s(2) byteWidth_append [OF al ac] o by simp
  have le: "byteWidth (a mod 100) (drop ?o C) = byteWidth a C - ?o" "?o \<le> byteWidth a C"
    using byteWidth_add [of ?s "a mod 100" C] s(2) by simp_all
  have "byteWidth (a mod 100) (drop ?o (C @ x)) \<le> k" using w unfolding eq le(1) .
  from byteWidth_take [OF cnt this]
  have tk: "byteWidth (a mod 100) (take k (drop ?o (C @ x))) = byteWidth a C - ?o"
      "a mod 100 \<le> runeCount (take k (drop ?o (C @ x)))"
    unfolding eq by blast+
  show ?thesis unfolding skipRunes_width [OF tk(2)] tk(1) using le(2) by (simp flip: of_nat_add)
qed

lemma byteWidth_ascii: "\<forall>rw \<in> set (runesOf bs). snd rw = 1 \<Longrightarrow> n \<le> runeCount bs \<Longrightarrow> byteWidth n bs = n"
proof -
  assume one: "\<forall>rw \<in> set (runesOf bs). snd rw = 1" and n: "n \<le> runeCount bs"
  have "map snd (take n (runesOf bs)) = replicate n 1"
    using one n by (intro replicate_eqI) (auto simp: runeCount_def dest: in_set_takeD)
  then show ?thesis by (simp add: byteWidth_def sum_list_replicate)
qed


definition sampleReach :: "bytes list \<Rightarrow> nat \<Rightarrow> nat \<Rightarrow> bool" where
  "sampleReach docs i r \<longleftrightarrow> (let a = runesBefore docs i + r; C = concat docs in
     byteWidth a C - byteWidth (100 * (a div 100)) C \<le> 300)"

lemma findOffset_names:
  assumes "\<not> PlainASCII (metaData (cpId p))" "nthO (boundaries (cpId p)) (cpIdx p) = Some z"
    and "nthO (fileNameIndex (cpId p)) (cpIdx p) = Some fs"
    and "(if 0 < cpIdx p then nthO (fileNameEndRunes (cpId p)) (cpIdx p - 1) else Some 0) = Some before"
    and "nthO (fileNameRuneOffsets (cpId p)) ((r + before) div 100) = Some off"
    and "goSliceFrom (fileNameContent (cpId p)) off = Some bs"
  shows "findOffset True r p = Some (skipRunes (unat ((r + before) mod 100)) bs off - fs, p)"
  unfolding findOffset_def Let_def if_True assms(2,3,4) Option.bind.simps prod.case using assms(1,5,6) by simp

lemma findOffset_contents:
  assumes "\<not> PlainASCII (metaData (cpId p))" and "nthO (boundaries (cpId p)) (cpIdx p) = Some fs"
    and "(if 0 < cpIdx p then nthO (ixFileEndRunes (cpId p)) (cpIdx p - 1) else Some 0) = Some before"
    and "nthO (ixRuneOffsets (cpId p)) ((r + before) div 100) = Some off"
    and "readContentSlice (cpId p) off 300 = Inr (bs, spare)"
  shows "findOffset False r p = Some (skipRunes (unat ((r + before) mod 100)) bs off - fs, p\<lparr>cpErr := None\<rparr>)"
  unfolding findOffset_def Let_def if_False assms(2,3) Option.bind.simps prod.case using assms(1,4,5) by (simp add: attempt_def)

lemma findOffset_describes:
  assumes d: "describes (cpId p) fn docs" and i: "i < length docs" "cpIdx p = of_nat i"
    and r: "unat r < runeCount (docs ! i)" and reach: "fn \<or> sampleReach docs i (unat r)"
  shows "\<exists>p'. findOffset fn r p = Some (of_nat (byteWidth (unat r) (docs ! i)), p') \<and>
    cpErr p' \<in> {cpErr p, None} \<and> p'\<lparr>cpErr := cpErr p\<rparr> = p"
proof -
  let ?C = "concat docs" and ?d = "cpId p" and ?b = "runesBefore docs i"
  let ?a = "?b + unat r"
  let ?o = "byteWidth (100 * (?a div 100)) ?C"
  have al: "runesOf ?C = concat (map runesOf docs)" and len: "length ?C < 4294967296"
    and nd: "length docs < length (boundaries ?d)" "length docs < 4294967296"
    using d by (simp_all add: describes_def Let_def)
  have "?a < runesBefore docs (Suc i)" using r i(1) by (simp add: runesBefore_Suc)
  also have "\<dots> \<le> runeCount ?C" using i(1) by (intro runesBefore_le [OF al]) simp
  finally have a: "?a < runeCount ?C" .
  show ?thesis
  proof (cases "PlainASCII (metaData ?d)")
    case True
    then have "\<forall>rw \<in> set (runesOf (docs ! i)). snd rw = 1"
      using d al nth_mem [OF i(1)] by (auto simp: describes_def Let_def)
    then have "byteWidth (unat r) (docs ! i) = unat r" using r by (intro byteWidth_ascii) simp_all
    then show ?thesis using True by (simp add: findOffset_def)
  next
    case False
    have "runeCount ?C \<le> length ?C" by (rule runeCount_le)
    then have sm: "?a < 4294967296" using a len by linarith
    then have ua: "unat (r + of_nat ?b) = ?a" by (subst unat_add_u32) (simp_all add: unat_of_nat_u32 add.commute)
    have dv: "unat ((r + of_nat ?b) div 100) = ?a div 100" "unat ((r + of_nat ?b) mod 100) = ?a mod 100"
      using ua by (simp_all add: unat_div unat_mod_distrib)
    have smp: "nthO (runeSamples ?C) ((r + of_nat ?b) div 100) = Some (of_nat ?o)"
      using a by (simp add: nthO_def runeSamples_def dv del: upt_Suc)
    have wd: "byteWidth ?a ?C = bytesBefore docs i + byteWidth (unat r) (docs ! i)"
      using byteWidth_doc [OF al i(1), of "unat r"] r by simp
    have bd: "\<exists>z. nthO (boundaries ?d) (of_nat i) = Some z" using i nd by (simp add: nthO_def unat_of_nat_u32)
    have res: "(of_nat (byteWidth ?a ?C) :: u32) - of_nat (bytesBefore docs i) = of_nat (byteWidth (unat r) (docs ! i))"
      unfolding wd by simp
    note before = docEnds_before [OF i(1) nd(2)]
    have st: "nthO (docStarts docs) (of_nat i) = Some (of_nat (bytesBefore docs i))"
      using docStarts_nthO [of i docs] i nd(2) by simp
    show ?thesis
    proof (cases fn)
      case True
      have C: "fst (fileNameContent ?d) = ?C" "fileNameEndRunes ?d = docEnds docs" "fileNameIndex ?d = docStarts docs"
        "fileNameRuneOffsets ?d = runeSamples ?C" using d True by (simp_all add: describes_def Let_def)
      have uo: "unat (of_nat ?o :: u32) = ?o" using byteWidth_le [of "100 * (?a div 100)" ?C] len by (intro unat_of_nat_u32) simp
      then have "goSliceFrom (fileNameContent ?d) (of_nat ?o) = Some (drop ?o ?C)"
        using C(1) byteWidth_le [of "100 * (?a div 100)" ?C] by (simp add: goSliceFrom_def)
      moreover have "skipRunes (?a mod 100) (drop ?o ?C) (of_nat ?o) = of_nat (byteWidth ?a ?C)"
        using skip_from_sample [OF a, of "[]" "length ?C"] byteWidth_le [of "?a mod 100" "drop ?o ?C"]
        by (simp add: le_diff_conv)
      moreover obtain z where "nthO (boundaries ?d) (cpIdx p) = Some z" using bd i(2) by auto
      ultimately have "findOffset True r p = Some (of_nat (byteWidth (unat r) (docs ! i)), p)"
        using findOffset_names [OF False, of z "of_nat (bytesBefore docs i)" "of_nat ?b" r "of_nat ?o" "drop ?o ?C"]
        unfolding i(2) C before st smp dv res [symmetric] by simp
      then show ?thesis using True by simp
    next
      case nf: False
      have C: "ixFileEndRunes ?d = docEnds docs" "boundaries ?d = docStarts docs" "ixRuneOffsets ?d = runeSamples ?C"
        and "\<exists>x. runesOf (?C @ x) = runesOf ?C @ runesOf x \<and>
          (\<forall>off \<le> length ?C. \<exists>spare. readContentSlice ?d (of_nat off) 300 = Inr (take 300 (drop off (?C @ x)), spare))"
        using d nf unfolding describes_def Let_def if_not_P [OF nf] by blast+
      then obtain x where x: "runesOf (?C @ x) = runesOf ?C @ runesOf x"
        "\<And>off. off \<le> length ?C \<Longrightarrow> \<exists>spare. readContentSlice ?d (of_nat off) 300 = Inr (take 300 (drop off (?C @ x)), spare)"
        by blast
      obtain spare where rd: "readContentSlice ?d (of_nat ?o) 300 = Inr (take 300 (drop ?o (?C @ x)), spare)"
        using x(2) byteWidth_le by blast
      have "byteWidth (?a mod 100) (drop ?o ?C) \<le> 300"
        using reach nf byteWidth_add [of "100 * (?a div 100)" "?a mod 100" ?C] by (simp add: sampleReach_def Let_def)
      from skip_from_sample [OF a x(1) this]
      have "findOffset False r p = Some (of_nat (byteWidth (unat r) (docs ! i)), p\<lparr>cpErr := None\<rparr>)"
        using findOffset_contents [OF False, of "of_nat (bytesBefore docs i)" "of_nat ?b" r "of_nat ?o"] rd
        unfolding i(2) C before st smp dv res [symmetric] by simp
      then show ?thesis using nf by simp
    qed
  qed
qed

section \<open>Reading too few bytes\<close>





section \<open>An index of one document\<close>

text \<open>A file that holds the contents \<open>C\<close> followed by \<open>x\<close>, as the Go index over it would be.\<close>

definition oneDoc :: "bytes \<Rightarrow> bytes \<Rightarrow> indexData" where
  "oneDoc C x = sampleIndex\<lparr>ixFile := osRead \<lparr>osName = [], osBytes = C @ x\<rparr>, newlinesStart := of_nat (length C),
     newlinesIndex := [0, 2], boundariesStart := 0, boundaries := docStarts [C], ixFileEndRunes := docEnds [C],
     ixRuneOffsets := runeSamples C, metaData := (metaData sampleIndex)\<lparr>PlainASCII := False\<rparr>\<rparr>"

definition providerAt :: "indexData \<Rightarrow> u32 \<Rightarrow> u32 \<Rightarrow> contentProvider" where
  "providerAt d i n = \<lparr>cpId = d, cpStats = zeroStats, cpErr = None, cpIdx = i, cpData = None, cpNl = None,
     cpNlBuf = False, cpSects = None, cpSectBuf = False, cpFileSize = n\<rparr>"

lemma docStarts_single: "docStarts [C] = [0, of_nat (length C)]"
  by (simp add: docStarts_def bytesBefore_def)

lemma oneDoc_contents:
  assumes "length C < 4294967296"
  shows "readContents (oneDoc C x) 0 = Inr (C, [])"
  using assms by (simp add: readContents_def oneDoc_def docStarts_single itemSection_def nthO_def readSectionBlob_def
      osRead_def unat_of_nat_u32)

lemma oneDoc_slice:
  assumes "off \<le> length C" "300 \<le> length x" "length C + length x < 4294967296"
  shows "readContentSlice (oneDoc C x) (of_nat off) 300 = Inr (take 300 (drop off (C @ x)), [])"
proof -
  have "unat (of_nat off :: u32) = off" using assms by (intro unat_of_nat_u32) simp
  then show ?thesis using assms(1,2)
    by (simp add: readContentSlice_def oneDoc_def readSectionBlob_def osRead_def slice_def)
qed

lemma oneDoc_describes:
  assumes "runesOf (C @ x) = runesOf C @ runesOf x" "300 \<le> length x" "length C + length x < 4294967296"
  shows "describes (oneDoc C x) False [C]"
proof -
  have "length C < 4294967296" using assms(3) by simp
  from oneDoc_contents [OF this, of x] oneDoc_slice [OF _ assms(2,3)] assms(1) this show ?thesis
    by (auto simp: describes_def oneDoc_def docStarts_def)
qed

section \<open>Properties\<close>

text \<open>C15: in an index that describes its documents, \<^verbatim>\<open>findOffset\<close> translates a rune offset in a
  document to the byte offset of that rune, for file names always, and for contents as long as the
  rune is at most 300 bytes behind the sampled rune before it.\<close>

theorem findOffset_correct:
  assumes "describes (cpId p) fn docs" and "i < length docs" "cpIdx p = of_nat i"
    and "unat r < runeCount (docs ! i)" and "fn \<or> sampleReach docs i (unat r)"
  shows "\<exists>p'. findOffset fn r p = Some (of_nat (byteWidth (unat r) (docs ! i)), p')"
  using findOffset_describes [OF assms] by blast

lemma runesOf_e: "runesOf ([0xC3, 0xA9, 0x61] @ x) = (0xE9, 2) # (0x61, 1) # runesOf x"
  using runesOf_encode [of "[0xE9, 0x61]" x] by (simp add: encodeRunes_def encodeRune_def cbyte_def validRune_def)

theorem findOffset_correct_witness:
  "let p = providerAt (oneDoc [0xC3, 0xA9, 0x61] (replicate 300 0)) 0 3
   in describes (cpId p) False [[0xC3, 0xA9, 0x61]] \<and> (\<exists>p'. findOffset False 1 p = Some (2, p'))"
proof -
  let ?C = "[0xC3, 0xA9, 0x61] :: bytes"
  have r: "runesOf ?C = [(0xE9, 2), (0x61, 1)]" using runesOf_e [of "[]"] by simp
  have d: "describes (oneDoc ?C (replicate 300 0)) False [?C]"
    by (rule oneDoc_describes) (use runesOf_e r in simp_all)
  show ?thesis using findOffset_correct [of "providerAt (oneDoc ?C (replicate 300 0)) 0 3" False "[?C]" 0 1] d
    by (simp add: providerAt_def r runeCount_def sampleReach_def runesBefore_def byteWidth_def)
qed



text \<open>C16: matches in document order that do not overlap are grouped into lines without loss:
  \<^verbatim>\<open>fillContentMatches\<close> returns, the fragments of all lines together are the matches in order,
  the text of each line is the document between its bounds, and each fragment lies within its line,
  also when a match crosses a line end.\<close>

theorem fillContentMatches_lines:
  assumes "laidOut (length (fst b)) ms" and "docIs d i nl b p" and "wfNewlines nl (of_nat (length (fst b)))"
    and "length (fst b) < 4294967296"
  shows "\<exists>res p'. fillContentMatches ms p = Some (res, p') \<and> list_all (goodLine (fst b)) res \<and>
    map (\<lambda>f. (Offset f, MatchLength f)) (concat (map lmLineFragments res))
      = map (\<lambda>m. (byteOffset m, int (unat (byteMatchSz m)))) ms"
  using fillContentMatches_good [OF assms] by blast

theorem fillContentMatches_lines_witness:
  "let b = ([0x61, 0x62, 0x0A, 0x63, 0x64], []); d = oneDoc (fst b) [1, 2]; p = providerAt d 0 5;
       ms = [emptyCandidate\<lparr>byteOffset := 1, byteMatchSz := 3\<rparr>]
   in laidOut (length (fst b)) ms \<and> docIs d 0 [2] b p \<and> (\<exists>res p'. fillContentMatches ms p = Some (res, p') \<and>
     list_all (goodLine (fst b)) res \<and> map (\<lambda>f. (Offset f, MatchLength f)) (concat (map lmLineFragments res)) = [(1, 3)])"
proof -
  let ?C = "[0x61, 0x62, 0x0A, 0x63, 0x64] :: bytes"
  let ?d = "oneDoc ?C [1, 2]" and ?ms = "[emptyCandidate\<lparr>byteOffset := 1, byteMatchSz := 3\<rparr>]"
  have l: "laidOut (length (fst (?C, [] :: bytes))) ?ms" by (simp add: laidOut_def)
  have "fromSizedDeltas [1, 2] = Some [2]" using fromSizedDeltas_toSizedDeltas [of "[2]"]
    by (simp add: toSizedDeltas_def putUvarint.simps)
  then have "readNewlines ?d 0 = Inr ([2], 2)"
    by (simp add: readNewlines_def oneDoc_def itemSection_def nthO_def readSectionBlob_def osRead_def slice_def)
  then have di: "docIs ?d 0 [2] (?C, []) (providerAt ?d 0 5)"
    using oneDoc_contents [of ?C "[1, 2]"] by (simp add: docIs_def providerAt_def)
  show ?thesis unfolding Let_def using fillContentMatches_lines [OF l di] l di by (simp add: wfNewlines_def)
qed

text \<open>C17: the score of a line whose fragments lie within it is defined and between 0 and 7500, the
  score of a whole word that is a whole symbol; no access to the line is out of range.\<close>

theorem matchScore_range:
  assumes "goodLine bs l"
  shows "\<exists>s. matchScore secs l = Some s \<and> 0 \<le> s \<and> s \<le> 7500"
  using matchScore_bounds [OF goodLine_fragments [OF assms], of secs] by simp

theorem matchScore_range_witness:
  "let l = \<lparr>lmLine = [0x61, 0x62], lmLineStart = 3, lmLineEnd = 5, lmLineNumber = 2, lmFileName = False, lmScore = 0,
       lmLineFragments = [\<lparr>LineOffset = 1, Offset = 4, MatchLength = 1\<rparr>]\<rparr>
   in goodLine [0x61, 0x62, 0x0A, 0x61, 0x62] l \<and> (\<exists>s. matchScore [] l = Some s \<and> 0 \<le> s \<and> s \<le> 7500)"
proof -
  let ?l = "\<lparr>lmLine = [0x61, 0x62], lmLineStart = 3, lmLineEnd = 5, lmLineNumber = 2, lmFileName = False, lmScore = 0,
       lmLineFragments = [\<lparr>LineOffset = 1, Offset = 4, MatchLength = 1\<rparr>]\<rparr>"
  have "goodLine [0x61, 0x62, 0x0A, 0x61, 0x62] ?l" by (simp add: goodLine_def slice_def)
  with matchScore_range [OF this, of "[]"] show ?thesis by simp
qed

end
