(* ===== verification/Zoekt_Regexp.thy ===== *)
theory Zoekt_Regexp
  imports Zoekt_Query
begin

text \<open>
  The model of \<^verbatim>\<open>query/regexp.go\<close>: the substring query that a regular expression implies. The
  query selects the documents on which the expression is tried at all, so what matters is that it
  holds on every text the expression matches.
\<close>

section \<open>Translation\<close>

definition plainSubstring :: "bytes \<Rightarrow> Q" where
  "plainSubstring p = QSubstring \<lparr>Pattern = p, CaseSensitive = False, FileName = False, Content = False\<rparr>"

fun regexpToQueryRecursive :: "nat \<Rightarrow> regexp \<Rightarrow> Q" where
  "regexpToQueryRecursive minTextSize (OpLiteral fc rs) =
     (if minTextSize \<le> length (encodeRunes rs) then plainSubstring (encodeRunes rs) else Const True)"
| "regexpToQueryRecursive minTextSize (OpCapture nm r) = regexpToQueryRecursive minTextSize r"
| "regexpToQueryRecursive minTextSize (OpPlus r) = regexpToQueryRecursive minTextSize r"
| "regexpToQueryRecursive minTextSize (OpRepeat mn mx r) =
     (if 1 \<le> mn then regexpToQueryRecursive minTextSize r else Const True)"
| "regexpToQueryRecursive minTextSize (OpConcat rs) = And (map (regexpToQueryRecursive minTextSize) rs)"
| "regexpToQueryRecursive minTextSize (OpAlternate rs) = Or (map (regexpToQueryRecursive minTextSize) rs)"
| "regexpToQueryRecursive minTextSize r = Const True"

definition RegexpToQuery :: "regexp \<Rightarrow> nat \<Rightarrow> Q" where
  "RegexpToQuery r minTextSize = Simplify (regexpToQueryRecursive minTextSize r)"

section \<open>Soundness\<close>

text \<open>The pattern occurs in the text, rune by rune.\<close>

definition textHas :: "(rune \<Rightarrow> rune \<Rightarrow> bool) \<Rightarrow> rune list \<Rightarrow> bytes \<Rightarrow> bool" where
  "textHas same t p \<longleftrightarrow> (\<exists>i. i + length (runes p) \<le> length t \<and>
     list_all2 same (runes p) (slice i (i + length (runes p)) t))"

definition textVal :: "(rune \<Rightarrow> rune \<Rightarrow> bool) \<Rightarrow> rune list \<Rightarrow> Q \<Rightarrow> bool" where
  "textVal same t q = (case q of QSubstring s \<Rightarrow> textHas same t (Pattern s) | _ \<Rightarrow> True)"

text \<open>Literals hold encodable runes, and fold case only when the whole expression does.\<close>

fun literalsOk :: "bool \<Rightarrow> regexp \<Rightarrow> bool" where
  "literalsOk ci (OpLiteral fc rs) \<longleftrightarrow> (fc \<longrightarrow> ci) \<and> (\<forall>r \<in> set rs. validRune r)"
| "literalsOk ci (OpCapture nm r) \<longleftrightarrow> literalsOk ci r"
| "literalsOk ci (OpStar r) \<longleftrightarrow> literalsOk ci r"
| "literalsOk ci (OpPlus r) \<longleftrightarrow> literalsOk ci r"
| "literalsOk ci (OpQuest r) \<longleftrightarrow> literalsOk ci r"
| "literalsOk ci (OpRepeat mn mx r) \<longleftrightarrow> literalsOk ci r"
| "literalsOk ci (OpConcat rs) \<longleftrightarrow> (\<forall>r \<in> set rs. literalsOk ci r)"
| "literalsOk ci (OpAlternate rs) \<longleftrightarrow> (\<forall>r \<in> set rs. literalsOk ci r)"
| "literalsOk ci r \<longleftrightarrow> True"

lemma textVal_coherent: "coherent (textVal same t)"
proof -
  have "textHas same t []" unfolding textHas_def by (rule exI [of _ 0]) (simp add: runes_def)
  then show ?thesis by (simp add: coherent_def textVal_def)
qed

lemma concat_each:
  "foldr (\<lambda>r R. reMatch eq ci t r OO R) rs (=) i j \<Longrightarrow> r \<in> set rs \<Longrightarrow> \<exists>a b. reMatch eq ci t r a b"
  by (induction rs arbitrary: i) auto

lemma regexpToQueryRecursive_sound:
  "literalsOk ci r \<Longrightarrow> reMatch eq ci t r i j \<Longrightarrow> qsem (textVal (eq ci) t) (regexpToQueryRecursive m r)"
proof (induction r arbitrary: i j)
  case (OpLiteral fc rs)
  then have "eq (ci \<or> fc) = eq ci" by (cases fc) auto
  then have "textHas (eq ci) t (encodeRunes rs)"
    using OpLiteral by (auto simp: textHas_def runes_encode intro!: exI [of _ i])
  then show ?case by (simp add: plainSubstring_def textVal_def)
next
  case (OpPlus r)
  then obtain k where "reMatch eq ci t r i k" by (auto elim: converse_tranclpE)
  then show ?case using OpPlus by simp
next
  case (OpRepeat mn mx r)
  then obtain n where n: "mn \<le> int n" "((reMatch eq ci t r) ^^ n) i j" by auto
  show ?case
  proof (cases "1 \<le> mn")
    case True
    then obtain n' where "n = Suc n'" using n(1) by (cases n) auto
    then obtain k where "reMatch eq ci t r k j" using n(2) by auto
    then show ?thesis using OpRepeat True by simp
  qed simp
next
  case (OpConcat rs)
  then show ?case using concat_each [of eq ci t rs i j] by fastforce
qed auto

lemma RegexpToQuery_holds:
  assumes "literalsOk ci r" "reFinds eq ci t r"
  shows "qsem (textVal (eq ci) t) (RegexpToQuery r m)"
  using assms regexpToQueryRecursive_sound Simplify_sem [OF textVal_coherent]
  by (auto simp: RegexpToQuery_def reFinds_def)

section \<open>Properties\<close>

text \<open>C10: the query of a regular expression is a necessary condition: it holds on every text on
  which the expression finds a match, so a search that only tries the expression on the documents
  the query selects misses nothing. A literal that folds case in an expression that does not is
  excluded; the translation loses that flag.\<close>

theorem RegexpToQuery_sound:
  assumes "literalsOk ci r" and "reFinds eq ci t r"
  shows "qsem (textVal (eq ci) t) (RegexpToQuery r minTextSize)"
  by (rule RegexpToQuery_holds [OF assms])

theorem RegexpToQuery_sound_witness:
  "let r = OpConcat [OpLiteral False [0x66, 0x6F, 0x6F], OpStar OpAnyChar, OpLiteral False [0x62]];
       t = [0x61, 0x66, 0x6F, 0x6F, 0x78, 0x62]; eq = (\<lambda>ci a b. a = b) in
   literalsOk False r \<and> reFinds eq False t r \<and> qsem (textVal (eq False) t) (RegexpToQuery r 3)"
proof -
  let ?r = "OpConcat [OpLiteral False [0x66, 0x6F, 0x6F], OpStar OpAnyChar, OpLiteral False [0x62]]"
  let ?t = "[0x61, 0x66, 0x6F, 0x6F, 0x78, 0x62] :: rune list"
  let ?eq = "\<lambda>(ci::bool) (a::rune) b. a = b"
  have lits: "literalsOk False ?r" by (simp add: validRune_def)
  have "reMatch ?eq False ?t (OpStar OpAnyChar) 4 5"
    by (auto simp: oneRune_def intro!: r_into_rtranclp)
  then have "reMatch ?eq False ?t ?r 1 6"
    by (auto simp: slice_def numeral_eq_Suc intro!: relcomppI)
  then have finds: "reFinds ?eq False ?t ?r" unfolding reFinds_def by (intro exI [of _ 1] exI [of _ 6]) simp
  show ?thesis unfolding Let_def using lits finds RegexpToQuery_sound [OF lits finds, of 3] by simp
qed

end
