(* ===== verification/Zoekt_Matchtree.thy ===== *)
theory Zoekt_Matchtree
  imports Zoekt_Content Zoekt_Regexp
begin

text \<open>
  The model of \<^verbatim>\<open>matchtree.go\<close>: the tree of match nodes that a query becomes, its iteration over
  documents, and its evaluation at increasing cost.

  A node of the Go tree is a mutable object behind the interface \<^verbatim>\<open>matchTree\<close>; here a tree is a
  value of a datatype with one constructor per implementation, and every method returns the tree with
  the state of its nodes updated. The map \<^verbatim>\<open>known\<close> is keyed by node identity in Go; every node
  occurs once in its tree, so its path from the root (the positions of the children, outermost
  first) is its identity. \<open>None\<close> is a panic.
\<close>

section \<open>Trees\<close>

abbreviation (input) costConst :: nat where "costConst \<equiv> 0"
abbreviation (input) costMemory :: nat where "costMemory \<equiv> 1"
abbreviation (input) costContent :: nat where "costContent \<equiv> 2"
abbreviation (input) costRegexp :: nat where "costRegexp \<equiv> 3"
abbreviation (input) costMin :: nat where "costMin \<equiv> costConst"
abbreviation (input) costMax :: nat where "costMax \<equiv> costRegexp"

record bruteForceMatchTree =
  bfFirstDone :: bool
  bfDocID :: u32

record docMatchTree =
  mtDocs :: "u32 list"
  dmCurrent :: "u32 list"

record regexpMatchTree =
  rmRegexp :: matcher
  rmFileName :: bool
  rmReEvaluated :: bool
  rmFound :: "candidateMatch list"
  rmBrute :: bruteForceMatchTree

record substrMatchTree =
  smIter :: matchIterator
  smQuery :: Substring
  smCaseSensitive :: bool
  smFileName :: bool
  smCurrent :: "candidateMatch list"
  smContEvaluated :: bool

record branchQueryMatchTree =
  bqFileMasks :: "u64 list"
  bqMask :: u64
  bqFirstDone :: bool
  bqDocID :: u32

datatype matchTree =
    DocMT docMatchTree
  | BruteMT bruteForceMatchTree
  | AndMT "matchTree list"
  | OrMT "matchTree list"
  | NotMT matchTree
  | NoVisitMT matchTree
  | RegexpMT regexpMatchTree
  | SubstrMT substrMatchTree
  | BranchMT branchQueryMatchTree
  | NoMT string

section \<open>Statistics\<close>

fun piUpdateStats :: "postingIterator \<Rightarrow> Stats \<Rightarrow> Stats" where
  "piUpdateStats (InMemory i) s = s"
| "piUpdateStats (Compressed i) s = s\<lparr>IndexBytesLoaded := IndexBytesLoaded s + cpBytesLoaded i\<rparr>"

fun tiUpdateStats :: "trigramIterator \<Rightarrow> Stats \<Rightarrow> Stats" where
  "tiUpdateStats (Single i) s = piUpdateStats i s"
| "tiUpdateStats (Merging is) s = fold piUpdateStats is s"

fun hiUpdateStats :: "hitIterator \<Rightarrow> Stats \<Rightarrow> Stats" where
  "hiUpdateStats (Trigram i) s = tiUpdateStats i s"
| "hiUpdateStats (Distance i) s = tiUpdateStats (i2 i) (tiUpdateStats (i1 i) s)"

fun baseUpdateStats :: "baseIterator \<Rightarrow> Stats \<Rightarrow> Stats" where
  "baseUpdateStats (NoMatchIter why) s = s"
| "baseUpdateStats (NgramDoc i) s =
     (let s' = hiUpdateStats (iter i) s in s'\<lparr>NgramMatches := NgramMatches s' + int (matchCount i)\<rparr>)"

fun miUpdateStats :: "matchIterator \<Rightarrow> Stats \<Rightarrow> Stats" where
  "miUpdateStats (Results r) s = baseUpdateStats (resIter r) s"
| "miUpdateStats (TrimBySection i) s = baseUpdateStats (resIter (trimIter i)) s"

fun updateStats :: "matchTree \<Rightarrow> Stats \<Rightarrow> Stats" where
  "updateStats (AndMT cs) s = fold updateStats cs s"
| "updateStats (OrMT cs) s = fold updateStats cs s"
| "updateStats (NotMT c) s = updateStats c s"
| "updateStats (NoVisitMT c) s = updateStats c s"
| "updateStats (SubstrMT t) s = miUpdateStats (smIter t) s"
| "updateStats t s = s"

section \<open>Preparing a document\<close>

definition prepareDocs :: "u32 \<Rightarrow> docMatchTree \<Rightarrow> docMatchTree" where
  "prepareDocs d t =
     (let docs = dropWhile (\<lambda>x. x < d) (mtDocs t); cur = takeWhile (\<lambda>x. x = d) docs
      in \<lparr>mtDocs = drop (length cur) docs, dmCurrent = cur\<rparr>)"

definition prepareSubstr :: "u32 \<Rightarrow> substrMatchTree \<Rightarrow> substrMatchTree option" where
  "prepareSubstr d t = do {
     it \<leftarrow> miPrepare d (smIter t);
     (cs, it') \<leftarrow> miCandidates it;
     Some (t\<lparr>smIter := it', smCurrent := cs, smContEvaluated := False\<rparr>)
   }"

fun prepare :: "u32 \<Rightarrow> matchTree \<Rightarrow> matchTree option"
  and prepareAll :: "u32 \<Rightarrow> matchTree list \<Rightarrow> matchTree list option" where
  "prepare d (DocMT t) = Some (DocMT (prepareDocs d t))"
| "prepare d (BruteMT t) = Some (BruteMT (t\<lparr>bfDocID := d, bfFirstDone := True\<rparr>))"
| "prepare d (AndMT cs) = map_option AndMT (prepareAll d cs)"
| "prepare d (OrMT cs) = map_option OrMT (prepareAll d cs)"
| "prepare d (NotMT c) = map_option NotMT (prepare d c)"
| "prepare d (NoVisitMT c) = map_option NoVisitMT (prepare d c)"
| "prepare d (RegexpMT t) = Some (RegexpMT (t\<lparr>rmFound := [], rmReEvaluated := False,
     rmBrute := (rmBrute t)\<lparr>bfDocID := d, bfFirstDone := True\<rparr>\<rparr>))"
| "prepare d (SubstrMT t) = map_option SubstrMT (prepareSubstr d t)"
| "prepare d (BranchMT t) = Some (BranchMT (t\<lparr>bqFirstDone := True, bqDocID := d\<rparr>))"
| "prepare d (NoMT why) = Some (NoMT why)"
| "prepareAll d [] = Some []"
| "prepareAll d (c # cs) = do { c' \<leftarrow> prepare d c; cs' \<leftarrow> prepareAll d cs; Some (c' # cs') }"

section \<open>The next document\<close>

definition bruteNextDoc :: "bruteForceMatchTree \<Rightarrow> u32" where
  "bruteNextDoc t = (if bfFirstDone t then bfDocID t + 1 else 0)"

text \<open>The loop over the branch masks; \<open>i\<close> is a \<^verbatim>\<open>uint32\<close> below the number of masks.\<close>

fun branchScan :: "u64 \<Rightarrow> u64 list \<Rightarrow> u32 \<Rightarrow> u32" where
  "branchScan m [] i = maxUInt32"
| "branchScan m (x # xs) i = (if and m x \<noteq> 0 then i else branchScan m xs (i + 1))"

definition branchNextDoc :: "branchQueryMatchTree \<Rightarrow> u32" where
  "branchNextDoc t = (let start = (if bqFirstDone t then bqDocID t + 1 else 0)
     in branchScan (bqMask t) (drop (unat start) (bqFileMasks t)) start)"

fun nextDoc :: "matchTree \<Rightarrow> (u32 \<times> matchTree) option"
  and nextDocMax :: "u32 \<Rightarrow> matchTree list \<Rightarrow> (u32 \<times> matchTree list) option"
  and nextDocMin :: "u32 \<Rightarrow> matchTree list \<Rightarrow> (u32 \<times> matchTree list) option" where
  "nextDoc (DocMT t) = Some (case mtDocs t of [] \<Rightarrow> maxUInt32 | x # _ \<Rightarrow> x, DocMT t)"
| "nextDoc (BruteMT t) = Some (bruteNextDoc t, BruteMT t)"
| "nextDoc (AndMT cs) = map_option (\<lambda>(n, cs'). (n, AndMT cs')) (nextDocMax 0 cs)"
| "nextDoc (OrMT cs) = map_option (\<lambda>(n, cs'). (n, OrMT cs')) (nextDocMin maxUInt32 cs)"
| "nextDoc (NotMT c) = Some (0, NotMT c)"
| "nextDoc (NoVisitMT c) = map_option (\<lambda>(n, c'). (n, NoVisitMT c')) (nextDoc c)"
| "nextDoc (RegexpMT t) = Some (bruteNextDoc (rmBrute t), RegexpMT t)"
| "nextDoc (SubstrMT t) = map_option (\<lambda>(n, it). (n, SubstrMT (t\<lparr>smIter := it\<rparr>))) (miNextDoc (smIter t))"
| "nextDoc (BranchMT t) = Some (branchNextDoc t, BranchMT t)"
| "nextDoc (NoMT why) = Some (maxUInt32, NoMT why)"
| "nextDocMax mx [] = Some (mx, [])"
| "nextDocMax mx (c # cs) = do {
     (m, c') \<leftarrow> nextDoc c;
     (r, cs') \<leftarrow> nextDocMax (if mx < m then m else mx) cs;
     Some (r, c' # cs')
   }"
| "nextDocMin mn [] = Some (mn, [])"
| "nextDocMin mn (c # cs) = do {
     (m, c') \<leftarrow> nextDoc c;
     (r, cs') \<leftarrow> nextDocMin (if m < mn then m else mn) cs;
     Some (r, c' # cs')
   }"

section \<open>Evaluation\<close>

type_synonym path = "nat list"
type_synonym known = "path \<Rightarrow> bool option"

definition resolveCandidate :: "candidateMatch \<Rightarrow> contentProvider \<Rightarrow> (candidateMatch \<times> contentProvider) option" where
  "resolveCandidate m p =
     (if byteOffset m = 0 \<and> 0 < runeOffset m then do {
        (off, p') \<leftarrow> findOffset (fileName m) (runeOffset m) p;
        Some (m\<lparr>byteOffset := off\<rparr>, p')
      } else Some (m, p))"

fun pruneLoop :: "(rune \<Rightarrow> rune) \<Rightarrow> candidateMatch list \<Rightarrow> contentProvider \<Rightarrow> (candidateMatch list \<times> contentProvider) option" where
  "pruneLoop lower [] p = Some ([], p)"
| "pruneLoop lower (m # ms) p = do {
     (m1, p1) \<leftarrow> resolveCandidate m p;
     (b, p2) \<leftarrow> data (fileName m1) p1;
     (ok, m2) \<leftarrow> matchContent lower b m1;
     (ms', p3) \<leftarrow> pruneLoop lower ms p2;
     Some (if ok then m2 # ms' else ms', p3)
   }"

definition substrMatches ::
  "golib \<Rightarrow> nat \<Rightarrow> contentProvider \<Rightarrow> substrMatchTree \<Rightarrow> (bool \<times> bool \<times> substrMatchTree \<times> contentProvider) option" where
  "substrMatches L cost p t =
     (if smCurrent t = [] then Some (False, True, t, p)
      else if smFileName t \<and> cost < costMemory then Some (False, False, t, p)
      else if \<not> smFileName t \<and> cost < costContent then Some (False, False, t, p)
      else do {
        (pruned, p') \<leftarrow> pruneLoop (lowerRune L) (smCurrent t) p;
        Some (pruned \<noteq> [], True, t\<lparr>smCurrent := pruned\<rparr>, p')
      })"

definition foundCandidate :: "bool \<Rightarrow> nat \<times> nat \<Rightarrow> candidateMatch" where
  "foundCandidate fn idx = emptyCandidate\<lparr>byteOffset := of_nat (fst idx),
     byteMatchSz := of_nat (snd idx - fst idx), fileName := fn\<rparr>"

definition regexpMatches ::
  "nat \<Rightarrow> contentProvider \<Rightarrow> regexpMatchTree \<Rightarrow> (bool \<times> bool \<times> regexpMatchTree \<times> contentProvider) option" where
  "regexpMatches cost p t =
     (if cost < costRegexp then Some (False, False, t, p)
      else do {
        (b, p') \<leftarrow> data (rmFileName t) p;
        let found = map (foundCandidate (rmFileName t)) (rmRegexp t (fst b));
        Some (found \<noteq> [], True, t\<lparr>rmFound := found\<rparr>, p')
      })"

definition branchMatches :: "branchQueryMatchTree \<Rightarrow> bool option" where
  "branchMatches t = map_option (\<lambda>m. and m (bqMask t) \<noteq> 0) (nthO (bqFileMasks t) (bqDocID t))"

record evalState =
  evCp :: contentProvider
  evKnown :: known

text \<open>\<^verbatim>\<open>evalMatchTree\<close>: a known value is returned, a sure one is stored. \<open>memo\<close> takes the result
  of the evaluation of the node, which only counts when the value is not known.\<close>

definition memo :: "path \<Rightarrow> evalState \<Rightarrow> matchTree \<Rightarrow> (bool \<times> bool \<times> matchTree \<times> evalState) option
    \<Rightarrow> (bool \<times> bool \<times> matchTree \<times> evalState) option" where
  "memo p s t r = (case evKnown s p of
     Some v \<Rightarrow> Some (v, True, t, s)
   | None \<Rightarrow> do {
       (v, ok, t', s') \<leftarrow> r;
       Some (v, ok, t', if ok then s'\<lparr>evKnown := (evKnown s')(p \<mapsto> v)\<rparr> else s')
     })"

fun treeMatches :: "golib \<Rightarrow> nat \<Rightarrow> path \<Rightarrow> evalState \<Rightarrow> matchTree \<Rightarrow> (bool \<times> bool \<times> matchTree \<times> evalState) option"
  and andLoop :: "golib \<Rightarrow> nat \<Rightarrow> path \<Rightarrow> nat \<Rightarrow> bool \<Rightarrow> evalState \<Rightarrow> matchTree list
     \<Rightarrow> (bool \<times> bool \<times> matchTree list \<times> evalState) option"
  and orLoop :: "golib \<Rightarrow> nat \<Rightarrow> path \<Rightarrow> nat \<Rightarrow> bool \<Rightarrow> bool \<Rightarrow> evalState \<Rightarrow> matchTree list
     \<Rightarrow> (bool \<times> bool \<times> matchTree list \<times> evalState) option" where
  "treeMatches L cost p s (DocMT t) = Some (dmCurrent t \<noteq> [], True, DocMT t, s)"
| "treeMatches L cost p s (BruteMT t) = Some (True, True, BruteMT t, s)"
| "treeMatches L cost p s (AndMT cs) =
     map_option (\<lambda>(v, ok, cs', s'). (v, ok, AndMT cs', s')) (andLoop L cost p 0 True s cs)"
| "treeMatches L cost p s (OrMT cs) =
     map_option (\<lambda>(v, ok, cs', s'). (v, ok, OrMT cs', s')) (orLoop L cost p 0 False True s cs)"
| "treeMatches L cost p s (NotMT c) =
     map_option (\<lambda>(v, ok, c', s'). (\<not> v, ok, NotMT c', s'))
       (memo (p @ [0]) s c (treeMatches L cost (p @ [0]) s c))"
| "treeMatches L cost p s (NoVisitMT c) =
     map_option (\<lambda>(v, ok, c', s'). (v, ok, NoVisitMT c', s')) (treeMatches L cost (p @ [0]) s c)"
| "treeMatches L cost p s (RegexpMT t) =
     map_option (\<lambda>(v, ok, t', cp). (v, ok, RegexpMT t', s\<lparr>evCp := cp\<rparr>)) (regexpMatches cost (evCp s) t)"
| "treeMatches L cost p s (SubstrMT t) =
     map_option (\<lambda>(v, ok, t', cp). (v, ok, SubstrMT t', s\<lparr>evCp := cp\<rparr>)) (substrMatches L cost (evCp s) t)"
| "treeMatches L cost p s (BranchMT t) = map_option (\<lambda>v. (v, True, BranchMT t, s)) (branchMatches t)"
| "treeMatches L cost p s (NoMT why) = Some (False, True, NoMT why, s)"
| "andLoop L cost p i sure s [] = Some (True, sure, [], s)"
| "andLoop L cost p i sure s (c # cs) = do {
     (v, ok, c', s') \<leftarrow> memo (p @ [i]) s c (treeMatches L cost (p @ [i]) s c);
     if ok \<and> \<not> v then Some (False, True, c' # cs, s')
     else do {
       (r, sr, cs', s'') \<leftarrow> andLoop L cost p (Suc i) (sure \<and> ok) s' cs;
       Some (r, sr, c' # cs', s'')
     }
   }"
| "orLoop L cost p i m sure s [] = Some (m, sure, [], s)"
| "orLoop L cost p i m sure s (c # cs) = do {
     (v, ok, c', s') \<leftarrow> memo (p @ [i]) s c (treeMatches L cost (p @ [i]) s c);
     (r, sr, cs', s'') \<leftarrow> orLoop L cost p (Suc i) (m \<or> (ok \<and> v)) (sure \<and> ok) s' cs;
     Some (r, sr, c' # cs', s'')
   }"

definition evalMatchTree :: "golib \<Rightarrow> nat \<Rightarrow> path \<Rightarrow> evalState \<Rightarrow> matchTree \<Rightarrow> (bool \<times> bool \<times> matchTree \<times> evalState) option" where
  "evalMatchTree L cost p s t = memo p s t (treeMatches L cost p s t)"

section \<open>Visiting\<close>

fun visitMatchTree :: "matchTree \<Rightarrow> matchTree list" where
  "visitMatchTree (AndMT cs) = concat (map visitMatchTree cs)"
| "visitMatchTree (OrMT cs) = concat (map visitMatchTree cs)"
| "visitMatchTree (NoVisitMT c) = visitMatchTree c"
| "visitMatchTree (NotMT c) = visitMatchTree c"
| "visitMatchTree t = [t]"

fun visitMatches :: "known \<Rightarrow> path \<Rightarrow> matchTree \<Rightarrow> matchTree list"
  and visitKnown :: "known \<Rightarrow> path \<Rightarrow> nat \<Rightarrow> matchTree list \<Rightarrow> matchTree list" where
  "visitMatches known p (AndMT cs) = visitKnown known p 0 cs"
| "visitMatches known p (OrMT cs) = visitKnown known p 0 cs"
| "visitMatches known p (NotMT c) = []"
| "visitMatches known p (NoVisitMT c) = []"
| "visitMatches known p t = [t]"
| "visitKnown known p i [] = []"
| "visitKnown known p i (c # cs) =
     (if known (p @ [i]) = Some True then visitMatches known (p @ [i]) c else []) @ visitKnown known p (Suc i) cs"

definition visitSubtreeMatches :: "known \<Rightarrow> matchTree \<Rightarrow> substrMatchTree list" where
  "visitSubtreeMatches known t = concat (map (\<lambda>n. case n of SubstrMT s \<Rightarrow> [s] | _ \<Rightarrow> []) (visitMatches known [] t))"

definition visitRegexMatches :: "known \<Rightarrow> matchTree \<Rightarrow> regexpMatchTree list" where
  "visitRegexMatches known t = concat (map (\<lambda>n. case n of RegexpMT s \<Rightarrow> [s] | _ \<Rightarrow> []) (visitMatches known [] t))"

section \<open>The tree of a query\<close>

text \<open>A loop that collects results and returns at the first error.\<close>

fun collect :: "('a \<Rightarrow> 'b res) \<Rightarrow> 'a list \<Rightarrow> 'b list res" where
  "collect f [] = Inr []"
| "collect f (x # xs) = rbind (f x) (\<lambda>y. rbind (collect f xs) (\<lambda>ys. Inr (y # ys)))"

lemma collect_cong [fundef_cong]: "xs = ys \<Longrightarrow> (\<And>x. x \<in> set ys \<Longrightarrow> f x = g x) \<Longrightarrow> collect f xs = collect g ys"
proof (induction ys arbitrary: xs)
  case (Cons y ys)
  then show ?case by simp
qed simp

definition newRegexp :: "matcher \<Rightarrow> bool \<Rightarrow> regexpMatchTree" where
  "newRegexp m fn = \<lparr>rmRegexp = m, rmFileName = fn, rmReEvaluated = False, rmFound = [],
     rmBrute = \<lparr>bfFirstDone = False, bfDocID = 0\<rparr>\<rparr>"

definition foldPrefix :: "bool \<Rightarrow> bytes" where
  "foldPrefix caseSens = (if caseSens then [] else [0x28, 0x3F, 0x69, 0x29])"

definition newSubstringMatchTree :: "golib \<Rightarrow> indexData \<Rightarrow> Substring \<Rightarrow> matchTree res" where
  "newSubstringMatchTree L d s =
     (if runeCount (Pattern s) < ngramSize then
        rbind (orPanic (reCompile L (foldPrefix (CaseSensitive s) @ quoteMeta (Pattern s)))) (\<lambda>m.
          Inr (RegexpMT (newRegexp m (FileName s))))
      else rbind (iterateNgrams L d s) (\<lambda>result.
        Inr (SubstrMT \<lparr>smIter = Results result, smQuery = s, smCaseSensitive = CaseSensitive s,
          smFileName = FileName s, smCurrent = [], smContEvaluated = False\<rparr>)))"

text \<open>The substring query of a regular expression, aimed at the same target.\<close>

definition retarget :: "RegexpQ \<Rightarrow> Q \<Rightarrow> Q" where
  "retarget r q = (case q of
     QSubstring s \<Rightarrow> QSubstring (s\<lparr>FileName := ReFileName r, CaseSensitive := ReCaseSensitive r\<rparr>)
   | _ \<Rightarrow> q)"

definition regexpSubquery :: "RegexpQ \<Rightarrow> Q" where
  "regexpSubquery r = Map (RegexpToQuery (Regexp r) ngramSize) (retarget r)"

definition headB :: bytes where "headB = [0x48, 0x45, 0x41, 0x44]"

definition queryBranchMask :: "indexData \<Rightarrow> bytes \<Rightarrow> u64" where
  "queryBranchMask d pat = (if pat = headB then 1
     else fold (\<lambda>(nm, m) acc. if contains nm pat then or acc m else acc) (branchIDs d) 0)"

definition languageDocs :: "indexData \<Rightarrow> u8 \<Rightarrow> u32 list" where
  "languageDocs d code = map (\<lambda>(i, l). of_nat i) (filter (\<lambda>(i, l). l = code) (enumerate 0 (ixLanguages d)))"

text \<open>Simplification introduces no atoms but constants, so the query of a regular expression holds no
  regular expression, and the construction of the tree ends.\<close>

abbreviation atomsIn :: "Q set \<Rightarrow> Q \<Rightarrow> bool" where
  "atomsIn A q \<equiv> set (VisitAtoms q) \<subseteq> A"

lemma atoms_dropConsts:
  assumes "Const True \<in> A" "Const False \<in> A"
  shows "\<forall>q \<in> set acc \<union> set qs. atomsIn A q \<Longrightarrow> atomsIn A (dropConsts b qs acc)"
  by (induction b qs acc rule: dropConsts.induct) (use assms in \<open>auto split: if_splits\<close>)

lemma atoms_evalConstants:
  assumes A: "Const True \<in> A" "Const False \<in> A"
  shows "atomsIn A q \<Longrightarrow> atomsIn A (evalConstants q)" and "atomsIn A q \<Longrightarrow> atomsIn A (mapEval q)"
proof (induction q and q rule: evalConstants_mapEval.induct)
  case (1 qs)
  then have "atomsIn A (mapEval q)" if "q \<in> set qs" for q using that by auto
  then show ?case using atoms_dropConsts [OF A, of "[]" "map mapEval qs" True] by simp
next
  case (2 qs)
  then have "atomsIn A (mapEval q)" if "q \<in> set qs" for q using that by auto
  then show ?case using atoms_dropConsts [OF A, of "[]" "map mapEval qs" False] by simp
next
  case (3 q)
  then have "atomsIn A (evalConstants q)" by simp
  moreover have "Const b \<in> A" for b using A by (cases b) simp_all
  ultimately show ?case by (cases "evalConstants q") (auto simp: invertConst_def)
next
  case (14 qs)
  then have "atomsIn A (mapEval q)" if "q \<in> set qs" for q using that by auto
  then show ?case using 14 by (simp add: UN_least)
next
  case (15 qs)
  then have "atomsIn A (mapEval q)" if "q \<in> set qs" for q using that by auto
  then show ?case using 15 by (simp add: UN_least)
next
  case (16 q)
  then show ?case by simp
qed (use A in \<open>auto simp: evalAtom_def\<close>)

lemma atoms_children: "isAnd q \<or> isOr q \<Longrightarrow> set (VisitAtoms q) = (\<Union>c \<in> set (queryChildren q). set (VisitAtoms c))"
  by (cases q) auto

lemma atoms_flattenLoop:
  assumes "\<And>q. same q \<Longrightarrow> isAnd q \<or> isOr q"
  shows "\<forall>r \<in> set rs. atomsIn A (fst r) \<Longrightarrow> \<forall>q \<in> set (fst (flattenLoop same rs)). atomsIn A q"
proof (induction rs)
  case (Cons r rs)
  obtain ch sub where r: "r = (ch, sub)" by fastforce
  with Cons have "atomsIn A q" if "same ch" "q \<in> set (queryChildren ch)" for q
    using atoms_children [of ch] assms [OF that(1)] that(2) by auto
  then show ?case using Cons r by (auto simp: split_beta)
qed simp

lemma atoms_flatten: "atomsIn A q \<Longrightarrow> atomsIn A (fst (flatten q))"
proof (induction q)
  case (And qs)
  then have "\<forall>r \<in> set (map flatten qs). atomsIn A (fst r)" by auto
  then have "\<forall>q \<in> set (fst (flattenLoop isAnd (map flatten qs))). atomsIn A q" by (intro atoms_flattenLoop) auto
  then show ?case using And.prems unfolding flatten_list by (cases qs) auto
next
  case (Or qs)
  then have "\<forall>r \<in> set (map flatten qs). atomsIn A (fst r)" by auto
  then have "\<forall>q \<in> set (fst (flattenLoop isOr (map flatten qs))). atomsIn A q" by (intro atoms_flattenLoop) auto
  then show ?case using Or.prems unfolding flatten_list by (cases qs) auto
qed (auto simp: split_beta)

lemma atoms_simplifyLoop: "atomsIn A q \<Longrightarrow> atomsIn A (simplifyLoop q)"
proof (induction q rule: simplifyLoop_induct)
  case (step q)
  then show ?case using atoms_flatten [of q A] simplifyLoop_step [of q] by (cases "snd (flatten q)") auto
qed

lemma atoms_Simplify: "Const True \<in> A \<Longrightarrow> Const False \<in> A \<Longrightarrow> atomsIn A q \<Longrightarrow> atomsIn A (Simplify q)"
  unfolding Simplify_def by (intro atoms_simplifyLoop atoms_evalConstants)

lemma atoms_Map:
  assumes "\<And>a. a \<in> A \<Longrightarrow> atomsIn A (f a)" and "\<And>qs. f (And qs) = And qs" "\<And>qs. f (Or qs) = Or qs" "\<And>q. f (Not q) = Not q"
  shows "atomsIn A q \<Longrightarrow> atomsIn A (Map q f)"
  by (induction q) (use assms in auto)

definition plainAtoms :: "Q set" where
  "plainAtoms = {q. case q of QSubstring s \<Rightarrow> True | Const b \<Rightarrow> True | _ \<Rightarrow> False}"

lemma atoms_regexpSubquery: "atomsIn plainAtoms (regexpSubquery r)"
proof -
  have "atomsIn plainAtoms (regexpToQueryRecursive n re)" for n re
    by (induction re) (auto simp: plainSubstring_def plainAtoms_def)
  then have "atomsIn plainAtoms (RegexpToQuery (Regexp r) ngramSize)"
    unfolding RegexpToQuery_def by (intro atoms_Simplify) (simp_all add: plainAtoms_def)
  then show ?thesis unfolding regexpSubquery_def
    by (intro atoms_Map) (auto simp: retarget_def plainAtoms_def split: Q.splits)
qed

fun treeMeasure :: "Q \<Rightarrow> nat" where
  "treeMeasure (And qs) = Suc (sum_list (map treeMeasure qs))"
| "treeMeasure (Or qs) = Suc (sum_list (map treeMeasure qs))"
| "treeMeasure (Not q) = Suc (treeMeasure q)"
| "treeMeasure (QRegexp r) = Suc (qsize (regexpSubquery r))"
| "treeMeasure q = 1"

lemma treeMeasure_plain: "atomsIn plainAtoms q \<Longrightarrow> treeMeasure q = qsize q"
proof (induction q)
  case (And qs)
  then have "map treeMeasure qs = map qsize qs" by auto
  then show ?case by (simp only: treeMeasure.simps qsize.simps)
next
  case (Or qs)
  then have "map treeMeasure qs = map qsize qs" by auto
  then show ?case by (simp only: treeMeasure.simps qsize.simps)
qed (auto simp: plainAtoms_def)

lemma treeMeasure_member: "q \<in> set qs \<Longrightarrow> treeMeasure q < Suc (sum_list (map treeMeasure qs))"
  by (simp add: less_Suc_eq_le member_le_sum_list)

function newMatchTree :: "golib \<Rightarrow> indexData \<Rightarrow> Q \<Rightarrow> matchTree res" where
  "newMatchTree L d (QRegexp s) =
     rbind (newMatchTree L d (regexpSubquery s)) (\<lambda>subMT.
     rbind (orPanic (reCompile L (foldPrefix (ReCaseSensitive s) @ reString L (Regexp s)))) (\<lambda>m.
       Inr (AndMT [RegexpMT (newRegexp m (ReFileName s)), NoVisitMT subMT])))"
| "newMatchTree L d (And qs) = rbind (collect (newMatchTree L d) qs) (\<lambda>r. Inr (AndMT r))"
| "newMatchTree L d (Or qs) = rbind (collect (newMatchTree L d) qs) (\<lambda>r. Inr (OrMT r))"
| "newMatchTree L d (Not q) = rbind (newMatchTree L d q) (\<lambda>ct. Inr (NotMT ct))"
| "newMatchTree L d (QSubstring s) = newSubstringMatchTree L d s"
| "newMatchTree L d (Branch pat) =
     Inr (BranchMT \<lparr>bqFileMasks = fileBranchMasks d, bqMask = queryBranchMask d pat, bqFirstDone = False, bqDocID = 0\<rparr>)"
| "newMatchTree L d (Const b) =
     Inr (if b then BruteMT \<lparr>bfFirstDone = False, bfDocID = 0\<rparr> else NoMT ''const'')"
| "newMatchTree L d (Language lang) = (case map_of (LanguageMap (metaData d)) lang of
     None \<Rightarrow> Inr (NoMT ''lang'')
   | Some code \<Rightarrow> Inr (DocMT \<lparr>mtDocs = languageDocs d code, dmCurrent = []\<rparr>))"
| "newMatchTree L d (Symbol s) =
     rbind (newSubstringMatchTree L d s) (\<lambda>mt. case mt of
       RegexpMT t \<Rightarrow> Inl (GoErr ''regexps and short queries not implemented for symbol search'')
     | SubstrMT t \<Rightarrow> Inr (SubstrMT (t\<lparr>smIter := (case smIter t of
           Results r \<Rightarrow> newTrimByDocSectionIter d s r | TrimBySection i \<Rightarrow> TrimBySection i)\<rparr>))
     | _ \<Rightarrow> Inl (GoErr ''found other tree inside query.Symbol''))"
| "newMatchTree L d (CaseQ k) = Inl (GoPanic ''type'')"
| "newMatchTree L d (Repo p) = Inl (GoPanic ''type'')"
| "newMatchTree L d (RepoSet s) = Inl (GoPanic ''type'')"
| "newMatchTree L d NilQ = Inl (GoPanic ''type'')"
  by pat_completeness auto
termination newMatchTree
proof (relation "measure (\<lambda>(L, d, q). treeMeasure q)")
  show "((L, d, regexpSubquery s), L, d, QRegexp s) \<in> measure (\<lambda>(L, d, q). treeMeasure q)" for L d s
    using treeMeasure_plain [OF atoms_regexpSubquery [of s]] by simp
qed (auto simp: treeMeasure_member)

end
