(* ===== verification/Zoekt_Evaluate.thy ===== *)
theory Zoekt_Evaluate
  imports Zoekt_Matchtree
begin

text \<open>
  The correctness of the match tree: \<^verbatim>\<open>nextDoc\<close> never passes a document that matches,
  \<^verbatim>\<open>prepare\<close> brings every node to the document, and \<^verbatim>\<open>matches\<close>, at whatever cost and with
  whatever values are known already, decides nothing wrong, and decides everything at the highest cost.

  The meaning of a tree on a document is \<open>treeSem\<close>, defined on the tree as it was constructed. The
  relations \<open>ready\<close> and \<open>onDoc\<close> tie the tree between two documents, and on a document, to it.
\<close>

section \<open>Meaning of a tree\<close>

definition offsetOf :: "indexData \<Rightarrow> u32 \<Rightarrow> bool \<Rightarrow> u32 \<Rightarrow> u32 option" where
  "offsetOf d i fn r = map_option fst (findOffset fn r (providerAt d i 0))"

definition docText :: "indexData \<Rightarrow> u32 \<Rightarrow> bool \<Rightarrow> goslice option" where
  "docText d i fn = (if fn then ixFileName d i else case readContents d i of Inr b \<Rightarrow> Some b | Inl e \<Rightarrow> None)"

definition checkCandidate :: "golib \<Rightarrow> indexData \<Rightarrow> u32 \<Rightarrow> candidateMatch \<Rightarrow> (bool \<times> candidateMatch) option" where
  "checkCandidate L d i m = do {
     m1 \<leftarrow> (if byteOffset m = 0 \<and> 0 < runeOffset m
            then map_option (\<lambda>off. m\<lparr>byteOffset := off\<rparr>) (offsetOf d i (fileName m) (runeOffset m)) else Some m);
     c \<leftarrow> docText d i (fileName m1);
     matchContent (lowerRune L) c m1
   }"

fun verified :: "golib \<Rightarrow> indexData \<Rightarrow> u32 \<Rightarrow> candidateMatch list \<Rightarrow> candidateMatch list option" where
  "verified L d i [] = Some []"
| "verified L d i (m # ms) = do {
     (ok, m') \<leftarrow> checkCandidate L d i m;
     ms' \<leftarrow> verified L d i ms;
     Some (if ok then m' # ms' else ms')
   }"

fun treeSem :: "golib \<Rightarrow> indexData \<Rightarrow> matchTree \<Rightarrow> nat \<Rightarrow> bool" where
  "treeSem L d (DocMT t) e \<longleftrightarrow> of_nat e \<in> set (mtDocs t)"
| "treeSem L d (BruteMT t) e \<longleftrightarrow> True"
| "treeSem L d (AndMT cs) e \<longleftrightarrow> (\<forall>c \<in> set cs. treeSem L d c e)"
| "treeSem L d (OrMT cs) e \<longleftrightarrow> (\<exists>c \<in> set cs. treeSem L d c e)"
| "treeSem L d (NotMT c) e \<longleftrightarrow> \<not> treeSem L d c e"
| "treeSem L d (NoVisitMT c) e \<longleftrightarrow> treeSem L d c e"
| "treeSem L d (RegexpMT t) e \<longleftrightarrow>
     (case docText d (of_nat e) (rmFileName t) of Some c \<Rightarrow> rmRegexp t (fst c) \<noteq> [] | None \<Rightarrow> False)"
| "treeSem L d (SubstrMT t) e \<longleftrightarrow>
     (case verified L d (of_nat e) (miSpec (smIter t) e) of Some vs \<Rightarrow> vs \<noteq> [] | None \<Rightarrow> False)"
| "treeSem L d (BranchMT t) e \<longleftrightarrow> and (bqFileMasks t ! e) (bqMask t) \<noteq> 0"
| "treeSem L d (NoMT why) e \<longleftrightarrow> False"

text \<open>No leaf panics on the documents of the shard.\<close>

fun treeSafe :: "golib \<Rightarrow> indexData \<Rightarrow> nat \<Rightarrow> matchTree \<Rightarrow> bool" where
  "treeSafe L d D (AndMT cs) \<longleftrightarrow> (\<forall>c \<in> set cs. treeSafe L d D c)"
| "treeSafe L d D (OrMT cs) \<longleftrightarrow> (\<forall>c \<in> set cs. treeSafe L d D c)"
| "treeSafe L d D (NotMT c) \<longleftrightarrow> treeSafe L d D c"
| "treeSafe L d D (NoVisitMT c) \<longleftrightarrow> treeSafe L d D c"
| "treeSafe L d D (RegexpMT t) \<longleftrightarrow> (\<forall>e < D. docText d (of_nat e) (rmFileName t) \<noteq> None)"
| "treeSafe L d D (SubstrMT t) \<longleftrightarrow> (\<forall>e < D. verified L d (of_nat e) (miSpec (smIter t) e) \<noteq> None)"
| "treeSafe L d D (BranchMT t) \<longleftrightarrow> length (bqFileMasks t) = D"
| "treeSafe L d D (DocMT t) \<longleftrightarrow> sorted (mtDocs t)"
| "treeSafe L d D t \<longleftrightarrow> True"

section \<open>Trees between documents and on a document\<close>

inductive ready :: "nat \<Rightarrow> nat \<Rightarrow> matchTree \<Rightarrow> matchTree \<Rightarrow> bool" for D k where
  ready_Doc: "mtDocs t = filter (\<lambda>x. k \<le> unat x) (mtDocs t0) \<Longrightarrow> ready D k (DocMT t0) (DocMT t)"
| ready_Brute: "(bfFirstDone t \<longrightarrow> unat (bfDocID t) < k) \<Longrightarrow> ready D k (BruteMT t0) (BruteMT t)"
| ready_And: "list_all2 (ready D k) cs0 cs \<Longrightarrow> ready D k (AndMT cs0) (AndMT cs)"
| ready_Or: "list_all2 (ready D k) cs0 cs \<Longrightarrow> ready D k (OrMT cs0) (OrMT cs)"
| ready_Not: "ready D k c0 c \<Longrightarrow> ready D k (NotMT c0) (NotMT c)"
| ready_NoVisit: "ready D k c0 c \<Longrightarrow> ready D k (NoVisitMT c0) (NoVisitMT c)"
| ready_Regexp: "(bfFirstDone (rmBrute t) \<longrightarrow> unat (bfDocID (rmBrute t)) < k) \<Longrightarrow>
    rmRegexp t = rmRegexp t0 \<Longrightarrow> rmFileName t = rmFileName t0 \<Longrightarrow> ready D k (RegexpMT t0) (RegexpMT t)"
| ready_Substr: "miReady D (smIter t0) k (smIter t) \<Longrightarrow> smFileName t = smFileName t0 \<Longrightarrow>
    ready D k (SubstrMT t0) (SubstrMT t)"
| ready_Branch: "(bqFirstDone t \<longrightarrow> unat (bqDocID t) < k) \<Longrightarrow> bqFileMasks t = bqFileMasks t0 \<Longrightarrow> bqMask t = bqMask t0 \<Longrightarrow>
    ready D k (BranchMT t0) (BranchMT t)"
| ready_No: "ready D k (NoMT why) (NoMT why)"

inductive onDoc :: "golib \<Rightarrow> indexData \<Rightarrow> nat \<Rightarrow> nat \<Rightarrow> matchTree \<Rightarrow> matchTree \<Rightarrow> bool" for L d D e where
  on_Doc: "mtDocs t = filter (\<lambda>x. Suc e \<le> unat x) (mtDocs t0) \<Longrightarrow>
    (dmCurrent t \<noteq> []) = (of_nat e \<in> set (mtDocs t0)) \<Longrightarrow> onDoc L d D e (DocMT t0) (DocMT t)"
| on_Brute: "bfDocID t = of_nat e \<Longrightarrow> onDoc L d D e (BruteMT t0) (BruteMT t)"
| on_And: "list_all2 (onDoc L d D e) cs0 cs \<Longrightarrow> onDoc L d D e (AndMT cs0) (AndMT cs)"
| on_Or: "list_all2 (onDoc L d D e) cs0 cs \<Longrightarrow> onDoc L d D e (OrMT cs0) (OrMT cs)"
| on_Not: "onDoc L d D e c0 c \<Longrightarrow> onDoc L d D e (NotMT c0) (NotMT c)"
| on_NoVisit: "onDoc L d D e c0 c \<Longrightarrow> onDoc L d D e (NoVisitMT c0) (NoVisitMT c)"
| on_Regexp: "bfDocID (rmBrute t) = of_nat e \<Longrightarrow> rmRegexp t = rmRegexp t0 \<Longrightarrow> rmFileName t = rmFileName t0 \<Longrightarrow>
    rmFound t = [] \<or> (\<exists>c. docText d (of_nat e) (rmFileName t0) = Some c \<and>
      rmFound t = map (foundCandidate (rmFileName t0)) (rmRegexp t0 (fst c))) \<Longrightarrow>
    onDoc L d D e (RegexpMT t0) (RegexpMT t)"
| on_Substr: "miReady D (smIter t0) (Suc e) (smIter t) \<Longrightarrow> smFileName t = smFileName t0 \<Longrightarrow>
    smCurrent t = miSpec (smIter t0) e \<or> verified L d (of_nat e) (miSpec (smIter t0) e) = Some (smCurrent t) \<Longrightarrow>
    onDoc L d D e (SubstrMT t0) (SubstrMT t)"
| on_Branch: "bqDocID t = of_nat e \<Longrightarrow> bqFileMasks t = bqFileMasks t0 \<Longrightarrow> bqMask t = bqMask t0 \<Longrightarrow>
    onDoc L d D e (BranchMT t0) (BranchMT t)"
| on_No: "onDoc L d D e (NoMT why) (NoMT why)"

inductive_cases ready_AndE: "ready D k (AndMT cs0) t"
inductive_cases ready_OrE: "ready D k (OrMT cs0) t"
inductive_cases on_AndE: "onDoc L d D e (AndMT cs0) t"
inductive_cases on_OrE: "onDoc L d D e (OrMT cs0) t"
inductive_simps on_Not_iff: "onDoc L d D e (NotMT c0) (NotMT c)"
inductive_simps on_NoVisit_iff: "onDoc L d D e (NoVisitMT c0) (NoVisitMT c)"

lemma onDoc_ready:
  assumes "onDoc L d D e t0 t" and "e < 4294967296"
  shows "ready D (Suc e) t0 t"
  using assms(1)
proof (induction rule: onDoc.induct)
  case (on_And cs0 cs)
  then show ?case by (intro ready.ready_And) (auto elim: list.rel_mono_strong)
next
  case (on_Or cs0 cs)
  then show ?case by (intro ready.ready_Or) (auto elim: list.rel_mono_strong)
qed (auto intro: ready.intros simp: unat_of_nat_u32 assms(2))

section \<open>The next document\<close>

lemma branchScan_spec:
  "length xs + unat i < 4294967296 \<Longrightarrow> j < length xs \<Longrightarrow> and m (xs ! j) \<noteq> 0 \<Longrightarrow> unat (branchScan m xs i) \<le> unat i + j"
proof (induction xs arbitrary: i j)
  case (Cons x xs)
  have i: "unat (i + 1) = unat i + 1" using Cons.prems(1) by (subst unat_add_u32) auto
  show ?case
  proof (cases j)
    case (Suc j')
    then have "unat (branchScan m xs (i + 1)) \<le> unat (i + 1) + j'" using Cons i by (intro Cons.IH) auto
    then show ?thesis using Suc i by simp
  qed (use Cons.prems in simp)
qed simp

lemma bruteNextDoc_le:
  assumes "bfFirstDone t \<longrightarrow> unat (bfDocID t) < k" and "k \<le> e" "e < 4294967295"
  shows "unat (bruteNextDoc t) \<le> e"
proof (cases "bfFirstDone t")
  case True
  then have "unat (bfDocID t + 1) = unat (bfDocID t) + 1" using assms by (subst unat_add_u32) auto
  then show ?thesis using True assms by (simp add: bruteNextDoc_def)
qed (simp add: bruteNextDoc_def)

lemma branchNextDoc_le:
  assumes "bqFirstDone t \<longrightarrow> unat (bqDocID t) < k" and "k \<le> e" "e < length (bqFileMasks t)"
    and "length (bqFileMasks t) < 4294967295" and "and (bqFileMasks t ! e) (bqMask t) \<noteq> 0"
  shows "unat (branchNextDoc t) \<le> e"
proof -
  define start where "start = (if bqFirstDone t then bqDocID t + 1 else 0)"
  have "unat start \<le> k"
  proof (cases "bqFirstDone t")
    case True
    then have "unat (bqDocID t + 1) = unat (bqDocID t) + 1" using assms by (subst unat_add_u32) auto
    then show ?thesis using True assms(1) by (simp add: start_def)
  qed (simp add: start_def)
  then have "unat (branchScan (bqMask t) (drop (unat start) (bqFileMasks t)) start) \<le> unat start + (e - unat start)"
    using assms by (intro branchScan_spec) (auto simp: and.commute)
  then show ?thesis using \<open>unat start \<le> k\<close> assms(2) by (simp add: branchNextDoc_def Let_def start_def [symmetric])
qed

abbreviation nextGood :: "golib \<Rightarrow> indexData \<Rightarrow> nat \<Rightarrow> nat \<Rightarrow> matchTree \<Rightarrow> matchTree \<Rightarrow> bool" where
  "nextGood L d D k t0 t \<equiv> \<exists>n t'. nextDoc t = Some (n, t') \<and> ready D k t0 t' \<and>
     (\<forall>e. k \<le> e \<longrightarrow> e < D \<longrightarrow> treeSem L d t0 e \<longrightarrow> unat n \<le> e)"

lemma nextDocMax_good:
  assumes "list_all2 (nextGood L d D k) cs0 cs"
  shows "\<exists>n cs'. nextDocMax mx cs = Some (n, cs') \<and> list_all2 (ready D k) cs0 cs' \<and>
     (\<forall>e. k \<le> e \<longrightarrow> e < D \<longrightarrow> unat mx \<le> e \<longrightarrow> (\<forall>c \<in> set cs0. treeSem L d c e) \<longrightarrow> unat n \<le> e)"
  using assms
proof (induction arbitrary: mx rule: list_all2_induct)
  case (Cons c0 cs0 c cs)
  obtain m c' where m: "nextDoc c = Some (m, c')" "ready D k c0 c'"
    "\<And>e. k \<le> e \<Longrightarrow> e < D \<Longrightarrow> treeSem L d c0 e \<Longrightarrow> unat m \<le> e" using Cons.hyps by blast
  define mx' where "mx' = (if mx < m then m else mx)"
  obtain r cs' where r: "nextDocMax mx' cs = Some (r, cs')" "list_all2 (ready D k) cs0 cs'"
    "\<And>e. k \<le> e \<Longrightarrow> e < D \<Longrightarrow> unat mx' \<le> e \<Longrightarrow> \<forall>c \<in> set cs0. treeSem L d c e \<Longrightarrow> unat r \<le> e"
    using Cons.IH [of mx'] by blast
  have "unat r \<le> e" if "k \<le> e" "e < D" "unat mx \<le> e" "\<forall>c \<in> set (c0 # cs0). treeSem L d c e" for e
    using r(3) [of e] m(3) [of e] that by (auto simp: mx'_def split: if_splits)
  then show ?case using m(1,2) r(1,2) by (simp add: mx'_def [symmetric])
qed simp

lemma nextDocMin_good:
  assumes "list_all2 (nextGood L d D k) cs0 cs"
  shows "\<exists>n cs'. nextDocMin mn cs = Some (n, cs') \<and> list_all2 (ready D k) cs0 cs' \<and>
     (\<forall>e. k \<le> e \<longrightarrow> e < D \<longrightarrow> unat mn \<le> e \<or> (\<exists>c \<in> set cs0. treeSem L d c e) \<longrightarrow> unat n \<le> e)"
  using assms
proof (induction arbitrary: mn rule: list_all2_induct)
  case (Cons c0 cs0 c cs)
  obtain m c' where m: "nextDoc c = Some (m, c')" "ready D k c0 c'"
    "\<And>e. k \<le> e \<Longrightarrow> e < D \<Longrightarrow> treeSem L d c0 e \<Longrightarrow> unat m \<le> e" using Cons.hyps by blast
  define mn' where "mn' = (if m < mn then m else mn)"
  obtain r cs' where r: "nextDocMin mn' cs = Some (r, cs')" "list_all2 (ready D k) cs0 cs'"
    "\<And>e. k \<le> e \<Longrightarrow> e < D \<Longrightarrow> unat mn' \<le> e \<or> (\<exists>c \<in> set cs0. treeSem L d c e) \<Longrightarrow> unat r \<le> e"
    using Cons.IH [of mn'] by blast
  have "unat mn' \<le> unat mn" "unat mn' \<le> unat m" by (auto simp: mn'_def word_less_nat_alt)
  then have "unat r \<le> e" if "k \<le> e" "e < D" "unat mn \<le> e \<or> (\<exists>c \<in> set (c0 # cs0). treeSem L d c e)" for e
    using r(3) [of e] m(3) [of e] that by fastforce
  then show ?case using m(1,2) r(1,2) by (simp add: mn'_def [symmetric])
qed simp

lemma nextDoc_good:
  assumes D: "D < 4294967295"
  shows "ready D k t0 t \<Longrightarrow> treeSafe L d D t0 \<Longrightarrow> nextGood L d D k t0 t"
proof (induction rule: ready.induct)
  case (ready_Doc t t0)
  have "unat (case mtDocs t of [] \<Rightarrow> maxUInt32 | x # _ \<Rightarrow> x) \<le> e"
    if "k \<le> e" "e < D" "of_nat e \<in> set (mtDocs t0)" for e
  proof -
    have e: "of_nat e \<in> set (mtDocs t)" "sorted (mtDocs t)"
      using ready_Doc that D by (auto simp: unat_of_nat_u32 intro: sorted_wrt_filter)
    then show ?thesis using that D by (cases "mtDocs t") (auto simp: word_le_nat_alt unat_of_nat_u32)
  qed
  then show ?case using ready_Doc(1) by (auto intro: ready.ready_Doc)
next
  case (ready_Brute t t0)
  then show ?case using bruteNextDoc_le [of t k] D by (auto intro: ready.ready_Brute)
next
  case (ready_And cs0 cs)
  then have "list_all2 (nextGood L d D k) cs0 cs" by (auto elim: list.rel_mono_strong)
  from nextDocMax_good [OF this, of 0] show ?case by (auto intro: ready.ready_And)
next
  case (ready_Or cs0 cs)
  then have "list_all2 (nextGood L d D k) cs0 cs" by (auto elim: list.rel_mono_strong)
  from nextDocMin_good [OF this, of maxUInt32] show ?case by (fastforce intro: ready.ready_Or)
next
  case (ready_Regexp t t0)
  then show ?case using bruteNextDoc_le [of "rmBrute t" k] D by (auto intro: ready.ready_Regexp)
next
  case (ready_Substr t0 t)
  obtain n it where "miNextDoc (smIter t) = Some (n, it)" "miReady D (smIter t0) k it"
    "\<And>e. k \<le> e \<Longrightarrow> e < D \<Longrightarrow> miSpec (smIter t0) e \<noteq> [] \<Longrightarrow> unat n \<le> e"
    using mi.nextDoc_law [OF ready_Substr(1)] by blast
  then show ?case using ready_Substr(2) by (fastforce intro!: ready.ready_Substr split: option.splits)
next
  case (ready_Branch t t0)
  then show ?case using branchNextDoc_le [of t k] D by (auto intro: ready.ready_Branch)
next
  case (ready_NoVisit c0 c)
  then show ?case by (auto intro: ready.ready_NoVisit)
next
  case (ready_Not c0 c)
  then show ?case by (simp add: ready.ready_Not)
next
  case (ready_No why)
  show ?case by (simp add: ready.ready_No)
qed

section \<open>Preparing\<close>

lemma prepareDocs_on:
  assumes "sorted (mtDocs t0)" and "mtDocs t = filter (\<lambda>x. k \<le> unat x) (mtDocs t0)" and "k \<le> e" "e < 4294967296"
  shows "mtDocs (prepareDocs (of_nat e) t) = filter (\<lambda>x. Suc e \<le> unat x) (mtDocs t0)"
    and "dmCurrent (prepareDocs (of_nat e) t) \<noteq> [] \<longleftrightarrow> of_nat e \<in> set (mtDocs t0)"
proof -
  define E :: u32 where "E = of_nat e"
  have E: "unat E = e" using assms(4) by (simp add: E_def unat_of_nat_u32)
  have drp: "dropWhile (\<lambda>x. x < E) xs = filter (\<lambda>x. E \<le> x) xs" if "sorted xs" for xs :: "u32 list"
    using that by (induction xs) (auto simp: not_less intro!: filter_True [symmetric])
  have tk: "takeWhile (\<lambda>x. x = E) xs = filter (\<lambda>x. x = E) xs" if "sorted xs" "\<forall>x \<in> set xs. E \<le> x" for xs :: "u32 list"
    using that
  proof (induction xs)
    case (Cons x xs)
    then have "x \<noteq> E \<Longrightarrow> \<forall>y \<in> set xs. y \<noteq> E" by (auto dest: order.antisym)
    then show ?case using Cons by (cases "x = E") (auto simp: filter_empty_conv)
  qed simp
  have dr: "drop (length (takeWhile (\<lambda>x. x = E) xs)) xs = filter (\<lambda>x. E < x) xs"
    if "sorted xs" "\<forall>x \<in> set xs. E \<le> x" for xs :: "u32 list"
    using that
  proof (induction xs)
    case (Cons x xs)
    then show ?case by (cases "x = E") (auto intro!: filter_True [symmetric])
  qed simp
  have s: "sorted (mtDocs t)" using assms(1,2) by (simp add: sorted_wrt_filter)
  have le: "E \<le> x \<longleftrightarrow> e \<le> unat x" and lt: "E < x \<longleftrightarrow> Suc e \<le> unat x" for x
    by (simp_all add: word_le_nat_alt word_less_nat_alt E Suc_le_eq)
  have s': "sorted (filter (\<lambda>x. E \<le> x) (mtDocs t))" "\<forall>x \<in> set (filter (\<lambda>x. E \<le> x) (mtDocs t)). E \<le> x"
    using s by (auto intro: sorted_wrt_filter)
  have ge: "(E \<le> x \<and> x = E) = (x = E)" and gt: "(E \<le> x \<and> E < x) = (E < x)" for x by auto
  have p: "prepareDocs E t = \<lparr>mtDocs = filter (\<lambda>x. E < x) (mtDocs t), dmCurrent = filter (\<lambda>x. x = E) (mtDocs t)\<rparr>"
    using ge gt by (simp add: prepareDocs_def Let_def drp [OF s] dr [OF s']) (simp add: tk [OF s'])
  show "mtDocs (prepareDocs (of_nat e) t) = filter (\<lambda>x. Suc e \<le> unat x) (mtDocs t0)"
    unfolding E_def [symmetric] p assms(2) using assms(3) by (auto simp: lt intro!: filter_cong)
  show "dmCurrent (prepareDocs (of_nat e) t) \<noteq> [] \<longleftrightarrow> of_nat e \<in> set (mtDocs t0)"
    unfolding E_def [symmetric] p assms(2) using assms(3) E by (auto simp: filter_empty_conv)
qed

lemma prepareAll_on:
  "list_all2 (\<lambda>c0 c. \<exists>c'. prepare i c = Some c' \<and> R c0 c') cs0 cs \<Longrightarrow> \<exists>cs'. prepareAll i cs = Some cs' \<and> list_all2 R cs0 cs'"
  by (induction rule: list_all2_induct) fastforce+

lemma prepare_onDoc:
  assumes e: "k \<le> e" "e < D" and D: "D < 4294967296"
  shows "ready D k t0 t \<Longrightarrow> treeSafe L d D t0 \<Longrightarrow> \<exists>t'. prepare (of_nat e) t = Some t' \<and> onDoc L d D e t0 t'"
proof (induction rule: ready.induct)
  case (ready_Doc t t0)
  then show ?case using prepareDocs_on [of t0 t k e] e D by (auto intro: onDoc.on_Doc)
next
  case (ready_And cs0 cs)
  then have "list_all2 (\<lambda>c0 c. \<exists>c'. prepare (of_nat e) c = Some c' \<and> onDoc L d D e c0 c') cs0 cs"
    by (auto elim: list.rel_mono_strong)
  from prepareAll_on [OF this] show ?case by (auto intro: onDoc.on_And)
next
  case (ready_Or cs0 cs)
  then have "list_all2 (\<lambda>c0 c. \<exists>c'. prepare (of_nat e) c = Some c' \<and> onDoc L d D e c0 c') cs0 cs"
    by (auto elim: list.rel_mono_strong)
  from prepareAll_on [OF this] show ?case by (auto intro: onDoc.on_Or)
next
  case (ready_Substr t0 t)
  obtain m' m'' where "miPrepare (of_nat e) (smIter t) = Some m'" "miCandidates m' = Some (miSpec (smIter t0) e, m'')"
    "miReady D (smIter t0) (Suc e) m''" using mi.prepare_law [OF ready_Substr(1) e] by blast
  then show ?case using ready_Substr(2) by (auto simp: prepareSubstr_def intro!: onDoc.on_Substr)
next
  case (ready_Not c0 c)
  then show ?case by (auto intro: onDoc.on_Not)
next
  case (ready_NoVisit c0 c)
  then show ?case by (auto intro: onDoc.on_NoVisit)
qed (simp_all add: onDoc.intros)

section \<open>Evaluating the leaves\<close>

lemma findOffset_offsetOf:
  assumes "offsetOf (cpId p) (cpIdx p) fn r = Some v"
  shows "\<exists>err. findOffset fn r p = Some (v, p\<lparr>cpErr := err\<rparr>)"
  using assms
  by (auto simp: offsetOf_def findOffset_def providerAt_def Let_def bind_eq_Some_conv split: if_splits prod.splits)
    (metis contentProvider.surjective contentProvider.update_convs(3))+

lemma docIs_err: "docIs d i nl b p \<Longrightarrow> docIs d i nl b (p\<lparr>cpErr := err\<rparr>)"
  by (simp add: docIs_def)

lemma data_docText:
  assumes "docIs d i nl b p" and "docText d i fn = Some c"
  shows "\<exists>p'. data fn p = Some (c, p') \<and> docIs d i nl b p'"
proof (cases fn)
  case True
  then show ?thesis using assms by (auto simp: docText_def data_def docIs_def)
next
  case False
  moreover have "readContents d i = Inr b" using assms(1) by (simp add: docIs_def)
  ultimately show ?thesis using assms data_docIs [OF assms(1)] by (simp add: docText_def)
qed

lemma resolve_check:
  assumes "docIs d i nl b p" and "checkCandidate L d i m = Some (ok, m')"
  shows "\<exists>m1 p1 p2 c. resolveCandidate m p = Some (m1, p1) \<and> data (fileName m1) p1 = Some (c, p2) \<and>
    matchContent (lowerRune L) c m1 = Some (ok, m') \<and> docIs d i nl b p2"
proof -
  have p: "cpId p = d" "cpIdx p = i" using assms(1) by (simp_all add: docIs_def)
  obtain m1 c where m1: "(if byteOffset m = 0 \<and> 0 < runeOffset m
            then map_option (\<lambda>off. m\<lparr>byteOffset := off\<rparr>) (offsetOf d i (fileName m) (runeOffset m)) else Some m) = Some m1"
    and c: "docText d i (fileName m1) = Some c" "matchContent (lowerRune L) c m1 = Some (ok, m')"
    using assms(2) unfolding checkCandidate_def bind_eq_Some_conv by blast
  have "\<exists>err. resolveCandidate m p = Some (m1, p\<lparr>cpErr := err\<rparr>)"
  proof (cases "byteOffset m = 0 \<and> 0 < runeOffset m")
    case True
    then obtain v where v: "offsetOf d i (fileName m) (runeOffset m) = Some v" "m1 = m\<lparr>byteOffset := v\<rparr>" using m1 by auto
    then show ?thesis using findOffset_offsetOf [of p "fileName m" "runeOffset m" v] True p
      by (auto simp: resolveCandidate_def)
  next
    case False
    then have "resolveCandidate m p = Some (m1, p)" using m1 by (auto simp: resolveCandidate_def)
    then have "resolveCandidate m p = Some (m1, p\<lparr>cpErr := cpErr p\<rparr>)" by simp
    then show ?thesis by blast
  qed
  then obtain err where r: "resolveCandidate m p = Some (m1, p\<lparr>cpErr := err\<rparr>)" by blast
  obtain p2 where "data (fileName m1) (p\<lparr>cpErr := err\<rparr>) = Some (c, p2)" "docIs d i nl b p2"
    using data_docText [OF docIs_err [OF assms(1)] c(1)] by blast
  with r c(2) show ?thesis by blast
qed

lemma pruneLoop_verified:
  "docIs d i nl b p \<Longrightarrow> verified L d i ms = Some vs \<Longrightarrow>
    \<exists>p'. pruneLoop (lowerRune L) ms p = Some (vs, p') \<and> docIs d i nl b p'"
proof (induction ms arbitrary: p vs)
  case (Cons m ms)
  obtain ok m' vs' where v: "checkCandidate L d i m = Some (ok, m')" "verified L d i ms = Some vs'"
    "vs = (if ok then m' # vs' else vs')" using Cons.prems(2) by (auto simp: bind_eq_Some_conv split: prod.splits)
  obtain m1 p1 p2 c where r: "resolveCandidate m p = Some (m1, p1)" "data (fileName m1) p1 = Some (c, p2)"
    "matchContent (lowerRune L) c m1 = Some (ok, m')" "docIs d i nl b p2"
    using resolve_check [OF Cons.prems(1) v(1)] by blast
  obtain p3 where "pruneLoop (lowerRune L) ms p2 = Some (vs', p3)" "docIs d i nl b p3"
    using Cons.IH [OF r(4) v(2)] by blast
  then show ?case using r v(3) by simp
qed simp

text \<open>A candidate that has been checked is checked again with the same result.\<close>

lemma checkCandidate_again:
  assumes "checkCandidate L d i m = Some (True, m')"
  shows "checkCandidate L d i m' = Some (True, m')"
proof -
  obtain m1 c where m1: "(if byteOffset m = 0 \<and> 0 < runeOffset m
            then map_option (\<lambda>off. m\<lparr>byteOffset := off\<rparr>) (offsetOf d i (fileName m) (runeOffset m)) else Some m) = Some m1"
    and c: "docText d i (fileName m1) = Some c" "matchContent (lowerRune L) c m1 = Some (True, m')"
    using assms unfolding checkCandidate_def bind_eq_Some_conv by blast
  obtain z where z: "m' = m1\<lparr>byteMatchSz := z\<rparr>" "matchContent (lowerRune L) c m' = Some (True, m')"
    using c(2) by (auto simp: matchContent_def bind_eq_Some_conv Let_def split_beta split: if_splits)
  have "(if byteOffset m' = 0 \<and> 0 < runeOffset m'
          then map_option (\<lambda>off. m'\<lparr>byteOffset := off\<rparr>) (offsetOf d i (fileName m') (runeOffset m')) else Some m') = Some m'"
    using m1 z(1) by (auto split: if_splits)
  then show ?thesis unfolding checkCandidate_def using c(1) z by simp
qed

lemma verified_again: "verified L d i ms = Some vs \<Longrightarrow> verified L d i vs = Some vs"
  by (induction ms arbitrary: vs) (auto simp: bind_eq_Some_conv checkCandidate_again split: if_splits prod.splits)

lemma substrMatches_good:
  assumes on: "onDoc L d D e (SubstrMT t0) (SubstrMT t)" and safe: "treeSafe L d D (SubstrMT t0)" and e: "e < D"
    and p: "docIs d (of_nat e) nl b p"
  shows "\<exists>v ok t' p'. substrMatches L cost p t = Some (v, ok, t', p') \<and> onDoc L d D e (SubstrMT t0) (SubstrMT t') \<and>
     docIs d (of_nat e) nl b p' \<and> (ok \<longrightarrow> v = treeSem L d (SubstrMT t0) e) \<and> (3 \<le> cost \<longrightarrow> ok)"
proof -
  obtain vs where vs: "verified L d (of_nat e) (miSpec (smIter t0) e) = Some vs" using safe e by auto
  have t: "miReady D (smIter t0) (Suc e) (smIter t)" "smFileName t = smFileName t0"
    "smCurrent t = miSpec (smIter t0) e \<or> smCurrent t = vs"
    using on vs by (auto elim: onDoc.cases)
  then have cur: "verified L d (of_nat e) (smCurrent t) = Some vs" using vs verified_again [OF vs] by auto
  obtain p' where p': "pruneLoop (lowerRune L) (smCurrent t) p = Some (vs, p')" "docIs d (of_nat e) nl b p'"
    using pruneLoop_verified [OF p cur] by blast
  have "smCurrent t = [] \<Longrightarrow> vs = []" using cur by simp
  moreover have "onDoc L d D e (SubstrMT t0) (SubstrMT (t\<lparr>smCurrent := vs\<rparr>))" using t vs by (auto intro: onDoc.on_Substr)
  ultimately show ?thesis using p' p on vs by (auto simp: substrMatches_def)
qed

lemma regexpMatches_good:
  assumes on: "onDoc L d D e (RegexpMT t0) (RegexpMT t)" and safe: "treeSafe L d D (RegexpMT t0)" and e: "e < D"
    and p: "docIs d (of_nat e) nl b p"
  shows "\<exists>v ok t' p'. regexpMatches cost p t = Some (v, ok, t', p') \<and> onDoc L d D e (RegexpMT t0) (RegexpMT t') \<and>
     docIs d (of_nat e) nl b p' \<and> (ok \<longrightarrow> v = treeSem L d (RegexpMT t0) e) \<and> (3 \<le> cost \<longrightarrow> ok)"
proof -
  obtain c where c: "docText d (of_nat e) (rmFileName t0) = Some c" using safe e by auto
  obtain p' where p': "data (rmFileName t0) p = Some (c, p')" "docIs d (of_nat e) nl b p'"
    using data_docText [OF p c] by blast
  have t: "bfDocID (rmBrute t) = of_nat e" "rmRegexp t = rmRegexp t0" "rmFileName t = rmFileName t0"
    using on by (auto elim: onDoc.cases)
  then have "onDoc L d D e (RegexpMT t0) (RegexpMT (t\<lparr>rmFound := map (foundCandidate (rmFileName t0)) (rmRegexp t0 (fst c))\<rparr>))"
    using c by (auto intro: onDoc.on_Regexp)
  then show ?thesis using p' p c t on by (auto simp: regexpMatches_def Let_def)
qed

section \<open>Evaluating the tree\<close>

text \<open>A node is named by its path from the root, as the pointers of the tree are in the source.\<close>

fun childAt :: "matchTree \<Rightarrow> nat \<Rightarrow> matchTree option" where
  "childAt (AndMT cs) i = (if i < length cs then Some (cs ! i) else None)"
| "childAt (OrMT cs) i = (if i < length cs then Some (cs ! i) else None)"
| "childAt (NotMT c) i = (if i = 0 then Some c else None)"
| "childAt (NoVisitMT c) i = (if i = 0 then Some c else None)"
| "childAt t i = None"

primrec subAt :: "path \<Rightarrow> matchTree \<Rightarrow> matchTree option" where
  "subAt [] t = Some t"
| "subAt (i # p) t = Option.bind (childAt t i) (subAt p)"

lemma subAt_snoc: "subAt p r = Some t \<Longrightarrow> subAt (p @ [i]) r = childAt t i"
proof (induction p arbitrary: r)
  case Nil
  then show ?case by (cases "childAt r i") simp_all
qed (auto simp: bind_eq_Some_conv)

text \<open>A node known to match has the values of its children known: all of them, for the ones that are visited.\<close>

definition settled :: "golib \<Rightarrow> indexData \<Rightarrow> nat \<Rightarrow> known \<Rightarrow> path \<Rightarrow> matchTree \<Rightarrow> bool" where
  "settled L d e kn p t \<longleftrightarrow> (case t of
     AndMT cs \<Rightarrow> \<forall>i < length cs. kn (p @ [i]) = Some (treeSem L d (cs ! i) e)
   | OrMT cs \<Rightarrow> \<forall>i < length cs. kn (p @ [i]) = Some (treeSem L d (cs ! i) e)
   | _ \<Rightarrow> True)"

definition knownOk :: "golib \<Rightarrow> indexData \<Rightarrow> nat \<Rightarrow> matchTree \<Rightarrow> known \<Rightarrow> bool" where
  "knownOk L d e R kn \<longleftrightarrow> (\<forall>q v. kn q = Some v \<longrightarrow>
     (\<exists>t. subAt q R = Some t \<and> v = treeSem L d t e \<and> (v \<longrightarrow> settled L d e kn q t)))"

lemma map_le_Some: "m \<subseteq>\<^sub>m m' \<Longrightarrow> m x = Some v \<Longrightarrow> m' x = Some v"
  unfolding map_le_def by (metis domI)

lemma settled_mono: "settled L d e kn p t \<Longrightarrow> kn \<subseteq>\<^sub>m kn' \<Longrightarrow> settled L d e kn' p t"
  by (cases t) (auto simp: settled_def intro: map_le_Some)

lemma knownOk_D:
  "knownOk L d e R kn \<Longrightarrow> kn q = Some v \<Longrightarrow> subAt q R = Some t \<Longrightarrow> v = treeSem L d t e \<and> (v \<longrightarrow> settled L d e kn q t)"
  unfolding knownOk_def by (metis option.inject)

lemma knownOk_upd:
  assumes k: "knownOk L d e R kn" and p: "subAt p R = Some t" "v = treeSem L d t e" "v \<longrightarrow> settled L d e kn p t"
  shows "knownOk L d e R (kn(p \<mapsto> v))" and "kn \<subseteq>\<^sub>m kn(p \<mapsto> v)"
proof -
  show le: "kn \<subseteq>\<^sub>m kn(p \<mapsto> v)"
    using k p(1,2) unfolding knownOk_def map_le_def by fastforce
  show "knownOk L d e R (kn(p \<mapsto> v))"
    unfolding knownOk_def
  proof (intro allI impI)
    fix q w assume q: "(kn(p \<mapsto> v)) q = Some w"
    show "\<exists>t. subAt q R = Some t \<and> w = treeSem L d t e \<and> (w \<longrightarrow> settled L d e (kn(p \<mapsto> v)) q t)"
    proof (cases "q = p")
      case True
      then show ?thesis using p q settled_mono [OF _ le] by auto
    next
      case False
      then obtain t' where "subAt q R = Some t'" "w = treeSem L d t' e" "w \<longrightarrow> settled L d e kn q t'"
        using q k unfolding knownOk_def by auto
      then show ?thesis using settled_mono [OF _ le] by blast
    qed
  qed
qed

definition evalOk :: "golib \<Rightarrow> indexData \<Rightarrow> nat \<Rightarrow> u32 list \<Rightarrow> goslice \<Rightarrow> matchTree \<Rightarrow> evalState \<Rightarrow> bool" where
  "evalOk L d e nl b R s \<longleftrightarrow> docIs d (of_nat e) nl b (evCp s) \<and> knownOk L d e R (evKnown s)"

abbreviation evalGood :: "golib \<Rightarrow> indexData \<Rightarrow> nat \<Rightarrow> nat \<Rightarrow> u32 list \<Rightarrow> goslice \<Rightarrow> matchTree \<Rightarrow> nat \<Rightarrow> path \<Rightarrow> matchTree
    \<Rightarrow> evalState \<Rightarrow> (bool \<times> bool \<times> matchTree \<times> evalState) option \<Rightarrow> bool" where
  "evalGood L d D e nl b R cost p t0 s res \<equiv> \<exists>v ok t' s'. res = Some (v, ok, t', s') \<and> onDoc L d D e t0 t' \<and>
     evalOk L d e nl b R s' \<and> evKnown s \<subseteq>\<^sub>m evKnown s' \<and> (ok \<longrightarrow> v = treeSem L d t0 e) \<and> (3 \<le> cost \<longrightarrow> ok) \<and>
     (ok \<and> v \<longrightarrow> settled L d e (evKnown s') p t0)"

lemma memo_good:
  assumes p: "subAt p R = Some t0" and on: "onDoc L d D e t0 t" and s: "evalOk L d e nl b R s"
    and r: "evalGood L d D e nl b R cost p t0 s r"
  shows "\<exists>v ok t' s'. memo p s t r = Some (v, ok, t', s') \<and> onDoc L d D e t0 t' \<and>
     evalOk L d e nl b R s' \<and> evKnown s \<subseteq>\<^sub>m evKnown s' \<and> (ok \<longrightarrow> v = treeSem L d t0 e) \<and> (3 \<le> cost \<longrightarrow> ok) \<and>
     (ok \<longrightarrow> evKnown s' p = Some v)"
proof (cases "evKnown s p")
  case None
  obtain v ok t' s' where r: "r = Some (v, ok, t', s')" "onDoc L d D e t0 t'" "evalOk L d e nl b R s'"
    "evKnown s \<subseteq>\<^sub>m evKnown s'" "ok \<longrightarrow> v = treeSem L d t0 e" "3 \<le> cost \<longrightarrow> ok"
    "ok \<and> v \<longrightarrow> settled L d e (evKnown s') p t0" using r by blast
  show ?thesis
  proof (cases ok)
    case True
    then have k: "knownOk L d e R ((evKnown s')(p \<mapsto> v))" "evKnown s' \<subseteq>\<^sub>m (evKnown s')(p \<mapsto> v)"
      using knownOk_upd [of L d e R "evKnown s'" p t0 v] p r(3,5,7) by (auto simp: evalOk_def)
    with r(3,4) have "evalOk L d e nl b R (s'\<lparr>evKnown := (evKnown s')(p \<mapsto> v)\<rparr>)"
      "evKnown s \<subseteq>\<^sub>m (evKnown s')(p \<mapsto> v)" by (auto simp: evalOk_def intro: map_le_trans)
    then show ?thesis using r True None by (auto simp: memo_def)
  qed (use r None in \<open>auto simp: memo_def\<close>)
next
  case (Some v)
  then have "v = treeSem L d t0 e" using s p by (auto simp: evalOk_def dest: knownOk_D)
  then show ?thesis using Some on s by (auto simp: memo_def)
qed

definition childrenGood :: "golib \<Rightarrow> indexData \<Rightarrow> nat \<Rightarrow> nat \<Rightarrow> u32 list \<Rightarrow> goslice \<Rightarrow> matchTree \<Rightarrow> nat \<Rightarrow> matchTree list \<Rightarrow> bool" where
  "childrenGood L d D e nl b R cost cs0 \<longleftrightarrow> (\<forall>c0 \<in> set cs0. \<forall>q c s. subAt q R = Some c0 \<longrightarrow> onDoc L d D e c0 c \<longrightarrow>
     evalOk L d e nl b R s \<longrightarrow> evalGood L d D e nl b R cost q c0 s (treeMatches L cost q s c))"

lemma child_good:
  assumes "childrenGood L d D e nl b R cost (c0 # cs0)" and "subAt q R = Some c0" and "onDoc L d D e c0 c"
    and "evalOk L d e nl b R s"
  shows "\<exists>v ok t' s'. memo q s c (treeMatches L cost q s c) = Some (v, ok, t', s') \<and> onDoc L d D e c0 t' \<and>
     evalOk L d e nl b R s' \<and> evKnown s \<subseteq>\<^sub>m evKnown s' \<and> (ok \<longrightarrow> v = treeSem L d c0 e) \<and> (3 \<le> cost \<longrightarrow> ok) \<and>
     (ok \<longrightarrow> evKnown s' q = Some v)"
proof -
  have "evalGood L d D e nl b R cost q c0 s (treeMatches L cost q s c)" using assms unfolding childrenGood_def by simp
  from memo_good [OF assms(2-4) this] show ?thesis .
qed

lemma andLoop_good:
  assumes "subAt p R = Some (AndMT (pre @ cs0))" and "childrenGood L d D e nl b R cost cs0"
    and "list_all2 (onDoc L d D e) cs0 cs" and "evalOk L d e nl b R s"
    and "sure \<longrightarrow> (\<forall>j < length pre. evKnown s (p @ [j]) = Some True \<and> treeSem L d (pre ! j) e)"
  shows "\<exists>v ok cs' s'. andLoop L cost p (length pre) sure s cs = Some (v, ok, cs', s') \<and> list_all2 (onDoc L d D e) cs0 cs' \<and>
       evalOk L d e nl b R s' \<and> evKnown s \<subseteq>\<^sub>m evKnown s' \<and>
       (ok \<longrightarrow> v = (\<forall>c \<in> set (pre @ cs0). treeSem L d c e)) \<and> (3 \<le> cost \<and> sure \<longrightarrow> ok) \<and>
       (ok \<and> v \<longrightarrow> (\<forall>j < length (pre @ cs0). evKnown s' (p @ [j]) = Some True))"
  using assms
proof (induction cs0 arbitrary: pre cs s sure)
  case Nil
  then have "cs = []" by simp
  moreover have "sure \<longrightarrow> (\<forall>c \<in> set pre. treeSem L d c e)" using Nil.prems(5) by (metis in_set_conv_nth)
  ultimately show ?case using Nil.prems by auto
next
  case (Cons c0 cs0)
  obtain c cs1 where cs: "cs = c # cs1" "onDoc L d D e c0 c" "list_all2 (onDoc L d D e) cs0 cs1"
    using Cons.prems(3) by (auto simp: list_all2_Cons1)
  have c0: "subAt (p @ [length pre]) R = Some c0" using subAt_snoc [OF Cons.prems(1)] by simp
  obtain v ok c' s' where m: "memo (p @ [length pre]) s c (treeMatches L cost (p @ [length pre]) s c) = Some (v, ok, c', s')"
    "onDoc L d D e c0 c'" "evalOk L d e nl b R s'" "evKnown s \<subseteq>\<^sub>m evKnown s'" "ok \<longrightarrow> v = treeSem L d c0 e"
    "3 \<le> cost \<longrightarrow> ok" "ok \<longrightarrow> evKnown s' (p @ [length pre]) = Some v"
    using child_good [OF Cons.prems(2) c0 cs(2) Cons.prems(4)] by blast
  show ?case
  proof (cases "ok \<and> \<not> v")
    case True
    then show ?thesis using m cs by auto
  next
    case False
    have pre: "sure \<and> ok \<longrightarrow> (\<forall>j < length (pre @ [c0]). evKnown s' (p @ [j]) = Some True \<and> treeSem L d ((pre @ [c0]) ! j) e)"
      using False m(5,7) Cons.prems(5) map_le_Some [OF m(4)] by (auto simp: less_Suc_eq nth_append)
    have R': "subAt p R = Some (AndMT ((pre @ [c0]) @ cs0))" using Cons.prems(1) by simp
    have ih: "childrenGood L d D e nl b R cost cs0" using Cons.prems(2) by (simp add: childrenGood_def)
    show ?thesis
      using Cons.IH [OF R' ih cs(3) m(3) pre]
    proof (elim exE conjE)
      fix v' ok' cs' s''
      assume r: "andLoop L cost p (length (pre @ [c0])) (sure \<and> ok) s' cs1 = Some (v', ok', cs', s'')"
        "list_all2 (onDoc L d D e) cs0 cs'" "evalOk L d e nl b R s''" "evKnown s' \<subseteq>\<^sub>m evKnown s''"
        "ok' \<longrightarrow> v' = (\<forall>c \<in> set ((pre @ [c0]) @ cs0). treeSem L d c e)" "3 \<le> cost \<and> sure \<and> ok \<longrightarrow> ok'"
        "ok' \<and> v' \<longrightarrow> (\<forall>j < length ((pre @ [c0]) @ cs0). evKnown s'' (p @ [j]) = Some True)"
      have "andLoop L cost p (length pre) sure s cs = Some (v', ok', c' # cs', s'')" using r(1) m(1) cs(1) False by auto
      moreover have "evKnown s \<subseteq>\<^sub>m evKnown s''" by (rule map_le_trans [OF m(4) r(4)])
      ultimately show ?thesis using r(2,3,5-7) m(2,6) by auto
    qed
  qed
qed

lemma orLoop_good:
  assumes "subAt p R = Some (OrMT (pre @ cs0))" and "childrenGood L d D e nl b R cost cs0"
    and "list_all2 (onDoc L d D e) cs0 cs" and "evalOk L d e nl b R s"
    and "sure \<longrightarrow> (\<forall>j < length pre. evKnown s (p @ [j]) = Some (treeSem L d (pre ! j) e)) \<and> m = (\<exists>c \<in> set pre. treeSem L d c e)"
  shows "\<exists>v ok cs' s'. orLoop L cost p (length pre) m sure s cs = Some (v, ok, cs', s') \<and> list_all2 (onDoc L d D e) cs0 cs' \<and>
       evalOk L d e nl b R s' \<and> evKnown s \<subseteq>\<^sub>m evKnown s' \<and>
       (ok \<longrightarrow> v = (\<exists>c \<in> set (pre @ cs0). treeSem L d c e)) \<and> (3 \<le> cost \<and> sure \<longrightarrow> ok) \<and>
       (ok \<longrightarrow> (\<forall>j < length (pre @ cs0). evKnown s' (p @ [j]) = Some (treeSem L d ((pre @ cs0) ! j) e)))"
  using assms
proof (induction cs0 arbitrary: pre cs s sure m)
  case Nil
  then show ?case by auto
next
  case (Cons c0 cs0)
  obtain c cs1 where cs: "cs = c # cs1" "onDoc L d D e c0 c" "list_all2 (onDoc L d D e) cs0 cs1"
    using Cons.prems(3) by (auto simp: list_all2_Cons1)
  have c0: "subAt (p @ [length pre]) R = Some c0" using subAt_snoc [OF Cons.prems(1)] by simp
  obtain v ok c' s' where m: "memo (p @ [length pre]) s c (treeMatches L cost (p @ [length pre]) s c) = Some (v, ok, c', s')"
    "onDoc L d D e c0 c'" "evalOk L d e nl b R s'" "evKnown s \<subseteq>\<^sub>m evKnown s'" "ok \<longrightarrow> v = treeSem L d c0 e"
    "3 \<le> cost \<longrightarrow> ok" "ok \<longrightarrow> evKnown s' (p @ [length pre]) = Some v"
    using child_good [OF Cons.prems(2) c0 cs(2) Cons.prems(4)] by blast
  have pre: "sure \<and> ok \<longrightarrow> (\<forall>j < length (pre @ [c0]). evKnown s' (p @ [j]) = Some (treeSem L d ((pre @ [c0]) ! j) e)) \<and>
      (m \<or> (ok \<and> v)) = (\<exists>c \<in> set (pre @ [c0]). treeSem L d c e)"
    using m(5,7) Cons.prems(5) map_le_Some [OF m(4)] by (auto simp: less_Suc_eq nth_append)
  have R': "subAt p R = Some (OrMT ((pre @ [c0]) @ cs0))" using Cons.prems(1) by simp
  have ih: "childrenGood L d D e nl b R cost cs0" using Cons.prems(2) by (simp add: childrenGood_def)
  show ?case
    using Cons.IH [OF R' ih cs(3) m(3) pre]
  proof (elim exE conjE)
    fix v' ok' cs' s''
    assume r: "orLoop L cost p (length (pre @ [c0])) (m \<or> (ok \<and> v)) (sure \<and> ok) s' cs1 = Some (v', ok', cs', s'')"
      "list_all2 (onDoc L d D e) cs0 cs'" "evalOk L d e nl b R s''" "evKnown s' \<subseteq>\<^sub>m evKnown s''"
      "ok' \<longrightarrow> v' = (\<exists>c \<in> set ((pre @ [c0]) @ cs0). treeSem L d c e)" "3 \<le> cost \<and> sure \<and> ok \<longrightarrow> ok'"
      "ok' \<longrightarrow> (\<forall>j < length ((pre @ [c0]) @ cs0). evKnown s'' (p @ [j]) = Some (treeSem L d (((pre @ [c0]) @ cs0) ! j) e))"
    have "orLoop L cost p (length pre) m sure s cs = Some (v', ok', c' # cs', s'')" using r(1) m(1) cs(1) by simp
    moreover have "evKnown s \<subseteq>\<^sub>m evKnown s''" by (rule map_le_trans [OF m(4) r(4)])
    ultimately show ?thesis using r(2,3,5-7) m(2,6) by auto
  qed
qed

lemma branchMatches_good:
  assumes "onDoc L d D e (BranchMT t0) (BranchMT t)" and "length (bqFileMasks t0) = D" and "e < D" "D < 4294967296"
  shows "branchMatches t = Some (treeSem L d (BranchMT t0) e)"
proof -
  have "bqDocID t = of_nat e" "bqFileMasks t = bqFileMasks t0" "bqMask t = bqMask t0"
    using assms(1) by (auto elim: onDoc.cases)
  then show ?thesis using assms by (simp add: branchMatches_def nthO_def unat_of_nat_u32)
qed

theorem matches_good:
  assumes D: "e < D" "D < 4294967296"
  shows "treeSafe L d D t0 \<Longrightarrow> subAt p R = Some t0 \<Longrightarrow> onDoc L d D e t0 t \<Longrightarrow> evalOk L d e nl b R s \<Longrightarrow>
    evalGood L d D e nl b R cost p t0 s (treeMatches L cost p s t)"
proof (induction t0 arbitrary: p t s)
  case (DocMT t0)
  obtain t1 where "t = DocMT t1" "dmCurrent t1 \<noteq> [] \<longleftrightarrow> of_nat e \<in> set (mtDocs t0)"
    using DocMT.prems(3) by (auto elim: onDoc.cases)
  then show ?case using DocMT.prems by (auto simp: settled_def)
next
  case (BruteMT t0)
  obtain t1 where "t = BruteMT t1" using BruteMT.prems(3) by (auto elim: onDoc.cases)
  then show ?case using BruteMT.prems by (auto simp: settled_def)
next
  case (AndMT cs0)
  obtain cs where cs: "t = AndMT cs" "list_all2 (onDoc L d D e) cs0 cs" using AndMT.prems(3) by (auto elim: on_AndE)
  have "childrenGood L d D e nl b R cost cs0" using AndMT.IH AndMT.prems(1) unfolding childrenGood_def by simp
  from andLoop_good [of p R "[]" cs0, OF _ this cs(2) AndMT.prems(4), of True] show ?case
    using AndMT.prems(2) cs(1) by (auto intro!: onDoc.on_And simp: settled_def)
next
  case (OrMT cs0)
  obtain cs where cs: "t = OrMT cs" "list_all2 (onDoc L d D e) cs0 cs" using OrMT.prems(3) by (auto elim: on_OrE)
  have "childrenGood L d D e nl b R cost cs0" using OrMT.IH OrMT.prems(1) unfolding childrenGood_def by simp
  from orLoop_good [of p R "[]" cs0, OF _ this cs(2) OrMT.prems(4), of True False] show ?case
    using OrMT.prems(2) cs(1) by (auto intro!: onDoc.on_Or simp: settled_def)
next
  case (NotMT c0)
  obtain c where c: "t = NotMT c" "onDoc L d D e c0 c" using NotMT.prems(3) by (auto elim: onDoc.cases)
  have "childrenGood L d D e nl b R cost [c0]" using NotMT unfolding childrenGood_def by simp
  from child_good [OF this _ c(2) NotMT.prems(4), of "p @ [0]"] show ?case
    using subAt_snoc [OF NotMT.prems(2), of 0] c(1) by (auto simp: settled_def on_Not_iff)
next
  case (NoVisitMT c0)
  obtain c where c: "t = NoVisitMT c" "onDoc L d D e c0 c" using NoVisitMT.prems(3) by (auto elim: onDoc.cases)
  from NoVisitMT.IH [of "p @ [0]", OF _ _ c(2) NoVisitMT.prems(4)] show ?case
    using subAt_snoc [OF NoVisitMT.prems(2), of 0] NoVisitMT.prems(1) c(1) by (auto simp: settled_def on_NoVisit_iff)
next
  case (RegexpMT t0)
  obtain t1 where t1: "t = RegexpMT t1" using RegexpMT.prems(3) by (auto elim: onDoc.cases)
  from regexpMatches_good [OF RegexpMT.prems(3) [unfolded t1] RegexpMT.prems(1) D(1), of nl b "evCp s" cost]
  show ?case using RegexpMT.prems(4) t1 by (auto simp: evalOk_def settled_def)
next
  case (SubstrMT t0)
  obtain t1 where t1: "t = SubstrMT t1" using SubstrMT.prems(3) by (auto elim: onDoc.cases)
  from substrMatches_good [OF SubstrMT.prems(3) [unfolded t1] SubstrMT.prems(1) D(1), of nl b "evCp s" cost]
  show ?case using SubstrMT.prems(4) t1 by (auto simp: evalOk_def settled_def)
next
  case (BranchMT t0)
  obtain t1 where t1: "t = BranchMT t1" using BranchMT.prems(3) by (auto elim: onDoc.cases)
  from branchMatches_good [OF BranchMT.prems(3) [unfolded t1] _ D] show ?case
    using BranchMT.prems t1 by (auto simp: settled_def)
next
  case (NoMT why)
  then have "t = NoMT why" by (auto elim: onDoc.cases)
  then show ?case using NoMT.prems by (auto simp: settled_def)
qed

section \<open>Properties\<close>

text \<open>C22: the iteration over documents never passes a document that matches. Between two documents,
  \<^verbatim>\<open>nextDoc\<close> returns, leaves the tree ready for the same documents, and gives a document that is not
  behind any later document on which the tree holds.\<close>

theorem nextDoc_never_skips:
  assumes "D < 4294967295" and "ready D k t0 t" and "treeSafe L d D t0"
  shows "\<exists>n t'. nextDoc t = Some (n, t') \<and> ready D k t0 t' \<and>
    (\<forall>e. k \<le> e \<and> e < D \<and> treeSem L d t0 e \<longrightarrow> unat n \<le> e)"
  using nextDoc_good [OF assms] by blast

definition sampleDocs :: "u32 list \<Rightarrow> u32 list \<Rightarrow> matchTree" where
  "sampleDocs ds cur = DocMT \<lparr>mtDocs = ds, dmCurrent = cur\<rparr>"

lemma sampleDocs_ready: "ready D k (sampleDocs ds c0) (sampleDocs (filter (\<lambda>x. k \<le> unat x) ds) c)"
  unfolding sampleDocs_def by (intro ready.ready_Doc) simp

theorem nextDoc_never_skips_witness:
  "let t0 = OrMT [sampleDocs [1, 3] [], NoMT []]; t = OrMT [sampleDocs [3] [], NoMT []] in
   ready 4 2 t0 t \<and> (\<exists>n t'. nextDoc t = Some (n, t') \<and> unat n \<le> 3)"
proof -
  have "ready 4 2 (sampleDocs [1, 3] []) (sampleDocs [3] [])" using sampleDocs_ready [of 4 2 "[1, 3]"] by simp
  then have r: "ready 4 2 (OrMT [sampleDocs [1, 3] [], NoMT []]) (OrMT [sampleDocs [3] [], NoMT []])"
    by (intro ready.ready_Or) (simp add: ready.ready_No)
  then show ?thesis
    using nextDoc_never_skips [OF _ r, of sampleLib sampleIndex] by (auto simp: sampleDocs_def Let_def)
qed

end
