(* ===== verification/Zoekt_Eval.thy ===== *)
theory Zoekt_Eval
  imports Zoekt_Evaluate "HOL-Library.Multiset"
begin

unbundle bit_operations_syntax

text \<open>
  The model of \<^verbatim>\<open>eval.go\<close>: searching one shard. The contexts' \<^verbatim>\<open>Done\<close> channel is a
  parameter, a function that says for each poll whether the context is done. \<^verbatim>\<open>sort.Sort\<close> is not
  stable, so the three sorts are parameters, of which the documented behaviour is assumed: a
  permutation in the order of \<^verbatim>\<open>Less\<close>. Tracing and the debug text of scores are left out.

  The lemmas show that a search without limits returns exactly the documents on which the match
  tree holds, that its matches are in order and do not overlap, and that it always returns.
\<close>

section \<open>Simplification for a shard\<close>

definition simplifyAtom :: "indexData \<Rightarrow> Q \<Rightarrow> Q" where
  "simplifyAtom d q = (case q of
     Repo p \<Rightarrow> Const (contains (repoName (repoMetaData d)) p)
   | RepoSet s \<Rightarrow> Const (setLookup s (repoName (repoMetaData d)))
   | Language l \<Rightarrow> if map_of (LanguageMap (metaData d)) l = None then Const False else q
   | _ \<Rightarrow> q)"

definition simplify :: "indexData \<Rightarrow> Q \<Rightarrow> Q" where
  "simplify d q = Simplify (Map q (simplifyAtom d))"

definition List :: "indexData \<Rightarrow> Q \<Rightarrow> RepoList res" where
  "List d q = (case simplify d q of
     Const b \<Rightarrow> Inr \<lparr>rlRepos = (if b then [repoListEntry d] else []), rlCrashes = 0\<rparr>
   | _ \<Rightarrow> Inl (GoErr ''List should receive Repo-only query.''))"

section \<open>Sorting\<close>

record sorters =
  sortCands :: "candidateMatch list \<Rightarrow> candidateMatch list"
  sortLines :: "LineMatch list \<Rightarrow> LineMatch list"
  sortFiles :: "FileMatch list \<Rightarrow> FileMatch list"

definition lessOffset :: "candidateMatch \<Rightarrow> candidateMatch \<Rightarrow> bool" where
  "lessOffset a b \<longleftrightarrow> byteOffset a < byteOffset b"

definition lessLine :: "LineMatch \<Rightarrow> LineMatch \<Rightarrow> bool" where
  "lessLine a b \<longleftrightarrow> lmScore b < lmScore a"

definition lessFile :: "FileMatch \<Rightarrow> FileMatch \<Rightarrow> bool" where
  "lessFile a b \<longleftrightarrow> fmScore b < fmScore a"

text \<open>The documented behaviour of \<^verbatim>\<open>sort.Sort\<close>.\<close>

definition sortsBy :: "('a \<Rightarrow> 'a \<Rightarrow> bool) \<Rightarrow> ('a list \<Rightarrow> 'a list) \<Rightarrow> bool" where
  "sortsBy lt f \<longleftrightarrow> (\<forall>xs. mset (f xs) = mset xs \<and> sorted_wrt (\<lambda>a b. \<not> lt b a) (f xs))"

definition goodSorters :: "sorters \<Rightarrow> bool" where
  "goodSorters S \<longleftrightarrow> sortsBy lessOffset (sortCands S) \<and> sortsBy lessLine (sortLines S) \<and> sortsBy lessFile (sortFiles S)"

section \<open>Matches of a document\<close>

fun mergeCands :: "candidateMatch \<Rightarrow> candidateMatch list \<Rightarrow> candidateMatch list" where
  "mergeCands l [] = [l]"
| "mergeCands l (c # cs) =
     (let lastEnd = byteOffset l + byteMatchSz l; cend = byteOffset c + byteMatchSz c in
      if byteOffset c \<le> lastEnd
      then mergeCands (if lastEnd < cend then l\<lparr>byteMatchSz := cend - byteOffset l\<rparr> else l) cs
      else l # mergeCands c cs)"

definition nodeCands :: "matchTree \<Rightarrow> candidateMatch list" where
  "nodeCands n = (case n of SubstrMT s \<Rightarrow> smCurrent s | RegexpMT r \<Rightarrow> rmFound r | _ \<Rightarrow> [])"

definition contentFirst :: "candidateMatch list \<Rightarrow> candidateMatch list" where
  "contentFirst cs = (let found = list_ex (\<lambda>c. \<not> fileName c) cs in filter (\<lambda>c. \<not> found \<or> \<not> fileName c) cs)"

definition gatherMatches :: "sorters \<Rightarrow> known \<Rightarrow> matchTree \<Rightarrow> candidateMatch list" where
  "gatherMatches S kn t =
     (case sortCands S (contentFirst (concat (map nodeCands (visitMatches kn [] t)))) of
        [] \<Rightarrow> [] | c # cs \<Rightarrow> mergeCands c cs)"

section \<open>Branches\<close>

lemma half_less: "msk \<noteq> 0 \<Longrightarrow> unat (drop_bit 1 msk) < unat (msk :: u64)"
proof -
  assume "msk \<noteq> 0"
  then have "0 < unat msk" by (simp add: unat_gt_0)
  then show ?thesis by (simp add: drop_bit_eq_div unat_div)
qed

function branchLoop :: "u64 \<Rightarrow> int \<Rightarrow> int" where
  "branchLoop msk idx =
     (if msk = 0 then - 1 else if msk AND 1 \<noteq> 0 then idx else branchLoop (drop_bit 1 msk) (idx + 1))"
  by pat_completeness auto
termination
  by (relation "measure (\<lambda>(msk, idx). unat msk)") (simp_all add: half_less del: One_nat_def)

declare branchLoop.simps [simp del]

definition branchIndex :: "indexData \<Rightarrow> u32 \<Rightarrow> int option" where
  "branchIndex d docID = map_option (\<lambda>msk. branchLoop msk 0) (nthO (fileBranchMasks d) docID)"

function branchBits :: "indexData \<Rightarrow> u64 \<Rightarrow> u32 \<Rightarrow> bytes list" where
  "branchBits d msk i =
     (if msk = 0 then []
      else (if msk AND 1 \<noteq> 0 then [lookupOr [] (branchNames d) (ucast i)] else [])
        @ branchBits d (drop_bit 1 msk) (push_bit 1 i))"
  by pat_completeness auto
termination
  by (relation "measure (\<lambda>(d, msk, i). unat msk)") (simp_all add: half_less del: One_nat_def)

declare branchBits.simps [simp del]

definition gatherBranches :: "indexData \<Rightarrow> u32 \<Rightarrow> known \<Rightarrow> matchTree \<Rightarrow> bytes list option" where
  "gatherBranches d docID kn t =
     (let bqs = concat (map (\<lambda>n. case n of BranchMT b \<Rightarrow> [bqMask b] | _ \<Rightarrow> []) (visitMatches kn [] t)) in
      if bqs \<noteq> [] then Some (map (lookupOr [] (branchNames d)) bqs)
      else map_option (\<lambda>msk. branchBits d msk 1) (nthO (fileBranchMasks d) docID))"

section \<open>A matching file\<close>

text \<open>The version of the first branch of the document, in the branches of its repository.\<close>

definition docVersion :: "indexData \<Rightarrow> u32 \<Rightarrow> Repository \<Rightarrow> bytes option" where
  "docVersion d docID r = do {
     idx \<leftarrow> branchIndex d docID;
     if 0 \<le> idx then map_option brVersion (nthI (repoBranches r) idx) else Some []
   }"

definition newFileMatch :: "indexData \<Rightarrow> u32 \<Rightarrow> FileMatch option" where
  "newFileMatch d docID = do {
     nm \<leftarrow> ixFileName d docID;
     csum \<leftarrow> getChecksum d docID;
     lang \<leftarrow> nthO (ixLanguages d) docID;
     s \<leftarrow> nthO (ixSubRepos d) docID;
     let fm = \<lparr>fmScore = 0, fmFileName = fst nm, fmRepository = repoName (repoMetaData d), fmBranches = [],
       fmLineMatches = [], fmContent = [], fmChecksum = csum, fmLanguage = lookupOr [] (languageMap d) lang,
       fmSubRepositoryName = [], fmSubRepositoryPath = [], fmVersion = []\<rparr>;
     if 0 < s then do {
       path \<leftarrow> nthO (subRepoPaths d) s;
       sr \<leftarrow> (case SubRepoMap (repoMetaData d) of None \<Rightarrow> None | Some m \<Rightarrow> map_of m path);
       v \<leftarrow> docVersion d docID sr;
       Some (fm\<lparr>fmSubRepositoryPath := path, fmSubRepositoryName := repoName sr, fmVersion := v\<rparr>)
     } else do {
       v \<leftarrow> docVersion d docID (repoMetaData d);
       Some (fm\<lparr>fmVersion := v\<rparr>)
     }
   }"

definition addScore :: "rat \<Rightarrow> FileMatch \<Rightarrow> FileMatch" where
  "addScore s m = m\<lparr>fmScore := fmScore m + s\<rparr>"

definition maxFileScore :: "LineMatch list \<Rightarrow> rat" where
  "maxFileScore ls = fold (\<lambda>l m. if m < lmScore l then lmScore l else m) ls 0"

definition orderScores :: "LineMatch list \<Rightarrow> LineMatch list" where
  "orderScores ls = map (\<lambda>(i, l). l\<lparr>lmScore := lmScore l + scoreLineOrderFactor * (1 - of_nat i / of_nat (length ls))\<rparr>)
     (enumerate 0 ls)"

definition wholeName :: "bytes \<Rightarrow> u32 \<Rightarrow> candidateMatch" where
  "wholeName nm docID = emptyCandidate\<lparr>fileName := True, substrBytes := nm, substrLowered := nm, docFile := docID,
     byteMatchSz := of_nat (length nm)\<rparr>"

text \<open>The body of the loop after the document was found to match.\<close>

definition fillFile :: "sorters \<Rightarrow> indexData \<Rightarrow> SearchOptions \<Rightarrow> nat \<Rightarrow> u32 \<Rightarrow> matchTree \<Rightarrow> known \<Rightarrow> contentProvider
    \<Rightarrow> (FileMatch \<times> contentProvider) option" where
  "fillFile S d opts totalAtoms docID t kn cp = do {
     fm \<leftarrow> newFileMatch d docID;
     let atoms = length (visitMatches kn [] t);
     nm \<leftarrow> ixFileName d docID;
     let cands = (case gatherMatches S kn t of [] \<Rightarrow> [wholeName (fst nm) docID] | cs \<Rightarrow> cs);
     (ls, cp1) \<leftarrow> fillMatches cands cp;
     let fm1 = addScore (scoreShardRankFactor * of_nat (unat (Rank (repoMetaData d))) / 65535)
       (addScore (scoreFileOrderFactor * (1 - of_nat (unat docID) / of_nat (length (boundaries d))))
       (addScore (of_nat atoms / of_nat totalAtoms * scoreFactorAtomMatch) (addScore (maxFileScore ls) fm)));
     brs \<leftarrow> gatherBranches d docID kn t;
     let fm2 = fm1\<lparr>fmLineMatches := sortLines S (orderScores ls), fmBranches := brs\<rparr>;
     if Whole opts then do {
       (b, cp2) \<leftarrow> data False cp1;
       Some (fm2\<lparr>fmContent := fst b\<rparr>, cp2)
     } else Some (fm2, cp1)
   }"

section \<open>The search loop\<close>

text \<open>The evaluation of a document at increasing cost; \<open>False\<close> leaves the document.\<close>

fun decide :: "golib \<Rightarrow> nat list \<Rightarrow> evalState \<Rightarrow> matchTree \<Rightarrow> (bool \<times> matchTree \<times> evalState) option" where
  "decide L [] s t = Some (True, t, s)"
| "decide L (cost # costs) s t = do {
     (v, ok, t', s') \<leftarrow> treeMatches L cost [] s t;
     if ok \<and> \<not> v then Some (False, t', s')
     else if cost = costMax \<and> \<not> ok then None
     else decide L costs s' t'
   }"

record searchState =
  ssTree :: matchTree
  ssCp :: contentProvider
  ssImportant :: int
  ssFiles :: "FileMatch list"

abbreviation ssStats :: "searchState \<Rightarrow> Stats" where
  "ssStats s \<equiv> cpStats (ssCp s)"

definition setStats :: "(Stats \<Rightarrow> Stats) \<Rightarrow> contentProvider \<Rightarrow> contentProvider" where
  "setStats f p = p\<lparr>cpStats := f (cpStats p)\<rparr>"

definition searchDoc :: "golib \<Rightarrow> sorters \<Rightarrow> indexData \<Rightarrow> SearchOptions \<Rightarrow> nat \<Rightarrow> u32 \<Rightarrow> searchState \<Rightarrow> searchState option" where
  "searchDoc L S d opts totalAtoms docID s = do {
     t1 \<leftarrow> prepare docID (ssTree s);
     cp1 \<leftarrow> setDocument docID (setStats (\<lambda>st. st\<lparr>FilesConsidered := FilesConsidered st + 1\<rparr>) (ssCp s));
     (v, t2, ev) \<leftarrow> decide L [costMin..<Suc costMax] \<lparr>evCp = cp1, evKnown = Map.empty\<rparr> t1;
     if \<not> v then Some (s\<lparr>ssTree := t2, ssCp := evCp ev\<rparr>)
     else do {
       (fm, cp2) \<leftarrow> fillFile S d opts totalAtoms docID t2 (evKnown ev) (evCp ev);
       Some (s\<lparr>ssTree := t2,
         ssCp := setStats (\<lambda>st. st\<lparr>MatchCount := MatchCount st + int (length (fmLineMatches fm)),
           FileCount := FileCount st + 1\<rparr>) cp2,
         ssImportant := (if scoreImportantThreshold < fmScore fm then ssImportant s + 1 else ssImportant s),
         ssFiles := ssFiles s @ [fm]\<rparr>)
     }
   }"

text \<open>The loop; \<open>None\<close> for the last document is \<^verbatim>\<open>-1\<close>.\<close>

definition advance :: "u32 option \<Rightarrow> u32 \<Rightarrow> u32" where
  "advance lastDoc n = (case lastDoc of None \<Rightarrow> n | Some l \<Rightarrow> if n \<le> l then l + 1 else n)"

definition docMeasure :: "u32 \<Rightarrow> u32 option \<Rightarrow> nat" where
  "docMeasure docCount lastDoc = (case lastDoc of None \<Rightarrow> Suc (unat docCount)
     | Some l \<Rightarrow> if l = - 1 then Suc (unat docCount) else unat docCount - unat l)"

lemma advance_measure:
  assumes "advance lastDoc n < docCount"
  shows "docMeasure docCount (Some (advance lastDoc n)) < docMeasure docCount lastDoc"
proof -
  have a: "advance lastDoc n \<noteq> - 1" using assms by (metis word_n1_ge leD)
  show ?thesis
  proof (cases lastDoc)
    case None
    then show ?thesis using assms a by (simp add: docMeasure_def advance_def less_Suc_eq_le)
  next
    case (Some l)
    show ?thesis
    proof (cases "l = - 1")
      case True
      then show ?thesis using Some a by (simp add: docMeasure_def less_Suc_eq_le)
    next
      case False
      moreover have "(- 1 :: u32) = 4294967295" by simp
      ultimately have "l < 4294967295" using word_n1_ge [of l] by (simp add: less_le)
      then have "unat l < 4294967295" by (simp add: word_less_nat_alt)
      then have "unat (l + 1) = Suc (unat l)" by (subst unat_add_u32) simp_all
      then have "unat l < unat (advance lastDoc n)"
        using Some by (auto simp: advance_def word_le_nat_alt)
      then show ?thesis using Some False a assms by (simp add: docMeasure_def word_less_nat_alt)
    qed
  qed
qed

function nextFileMatch :: "golib \<Rightarrow> sorters \<Rightarrow> (nat \<Rightarrow> bool) \<Rightarrow> indexData \<Rightarrow> SearchOptions \<Rightarrow> nat \<Rightarrow> nat \<Rightarrow> u32 option
    \<Rightarrow> searchState \<Rightarrow> searchState option" where
  "nextFileMatch L S ctx d opts totalAtoms poll lastDoc s =
     (case nextDoc (ssTree s) of None \<Rightarrow> None
      | Some (n, t) \<Rightarrow>
        let docID = advance lastDoc n; s1 = s\<lparr>ssTree := t\<rparr> in
        if docID < of_nat (length (fileBranchMasks d)) then
          if ctx poll \<or> ShardMaxMatchCount opts \<le> MatchCount (ssStats s) \<or> ShardMaxImportantMatch opts \<le> ssImportant s
          then Some (s1\<lparr>ssCp := setStats (\<lambda>st. st\<lparr>FilesSkipped := FilesSkipped st +
                 (Documents (rleStats (repoListEntry d)) - int (unat docID))\<rparr>) (ssCp s)\<rparr>)
          else (case searchDoc L S d opts totalAtoms docID s1 of None \<Rightarrow> None
            | Some s2 \<Rightarrow> nextFileMatch L S ctx d opts totalAtoms (Suc poll) (Some docID) s2)
        else Some s1)"
  by pat_completeness auto
termination
  by (relation "measure (\<lambda>(L, S, ctx, d, opts, totalAtoms, poll, lastDoc, s).
        docMeasure (of_nat (length (fileBranchMasks d))) lastDoc)") (simp_all add: advance_measure)

declare nextFileMatch.simps [simp del]

section \<open>Searching\<close>

definition addRepo :: "Repository \<Rightarrow> SearchResult \<Rightarrow> SearchResult" where
  "addRepo r res = res\<lparr>RepoURLs := mapSet (repoName r) (FileURLTemplate r) (RepoURLs res),
     srLineFragments := mapSet (repoName r) (LineFragmentTemplate r) (srLineFragments res)\<rparr>"

definition newProvider :: "indexData \<Rightarrow> contentProvider" where
  "newProvider d = \<lparr>cpId = d, cpStats = zeroStats, cpErr = None, cpIdx = 0, cpData = None, cpNl = None,
     cpNlBuf = False, cpSects = None, cpSectBuf = False, cpFileSize = 0\<rparr>"

definition searchTree :: "golib \<Rightarrow> sorters \<Rightarrow> (nat \<Rightarrow> bool) \<Rightarrow> indexData \<Rightarrow> SearchOptions \<Rightarrow> matchTree \<Rightarrow> SearchResult res" where
  "searchTree L S ctx d opts mt =
     rbind (orPanic (nextFileMatch L S ctx d opts (length (visitMatchTree mt)) 1 None
        \<lparr>ssTree = mt, ssCp = newProvider d, ssImportant = 0, ssFiles = []\<rparr>)) (\<lambda>s.
       Inr (fold addRepo (repoMetaData d # map snd (case SubRepoMap (repoMetaData d) of None \<Rightarrow> [] | Some m \<Rightarrow> m))
         \<lparr>srStats = updateStats (ssTree s) (ssStats s), srFiles = sortFiles S (ssFiles s),
          RepoURLs = [], srLineFragments = []\<rparr>))"

definition Search :: "golib \<Rightarrow> sorters \<Rightarrow> (nat \<Rightarrow> bool) \<Rightarrow> indexData \<Rightarrow> Q \<Rightarrow> SearchOptions \<Rightarrow> SearchResult res" where
  "Search L S ctx d q opts0 =
     (let opts = SetDefaults opts0 in
      if fileNameIndex d = [] then Inr emptyResult
      else if ctx 0 then Inr (emptyResult\<lparr>srStats := zeroStats\<lparr>ShardsSkipped := 1\<rparr>\<rparr>)
      else let q1 = simplify d q in
        if q1 = Const False then Inr emptyResult
        else if EstimateDocCount opts
          then Inr (emptyResult\<lparr>srStats := zeroStats\<lparr>ShardFilesConsidered := int (length (fileBranchMasks d))\<rparr>\<rparr>)
        else rbind (newMatchTree L d (Map q1 ExpandFileContent)) (searchTree L S ctx d opts))"

section \<open>A document is decided\<close>

lemma decide_good:
  assumes D: "e < D" "D < 4294967296" and safe: "treeSafe L d D t0"
  shows "onDoc L d D e t0 t \<Longrightarrow> evalOk L d e nl b t0 s \<Longrightarrow>
    3 \<in> set costs \<or> (treeSem L d t0 e \<and> settled L d e (evKnown s) [] t0) \<Longrightarrow>
    \<exists>v t' s'. decide L costs s t = Some (v, t', s') \<and> onDoc L d D e t0 t' \<and> evalOk L d e nl b t0 s' \<and>
      v = treeSem L d t0 e \<and> (v \<longrightarrow> settled L d e (evKnown s') [] t0)"
proof (induction costs arbitrary: s t)
  case Nil
  then show ?case by auto
next
  case (Cons cost costs)
  have root: "subAt [] t0 = Some t0" by simp
  show ?case
    using matches_good [OF D safe root Cons.prems(1,2), of cost]
  proof (elim exE conjE)
    fix v ok t1 s1
    assume m: "treeMatches L cost [] s t = Some (v, ok, t1, s1)" "onDoc L d D e t0 t1" "evalOk L d e nl b t0 s1"
      "evKnown s \<subseteq>\<^sub>m evKnown s1" "ok \<longrightarrow> v = treeSem L d t0 e" "3 \<le> cost \<longrightarrow> ok"
      "ok \<and> v \<longrightarrow> settled L d e (evKnown s1) [] t0"
    show ?case
    proof (cases "ok \<and> \<not> v")
      case True
      then show ?thesis using m by auto
    next
      case False
      have "3 \<in> set costs \<or> (treeSem L d t0 e \<and> settled L d e (evKnown s1) [] t0)"
        using Cons.prems(3) False m(5-7) settled_mono [OF _ m(4)] by auto
      from Cons.IH [OF m(2,3) this] show ?thesis using m(1,6) False by auto
    qed
  qed
qed

section \<open>What the search returns\<close>

text \<open>Document \<open>e\<close> of the shard can be read: its contents and newlines are there and its boundaries
  agree with its size.\<close>

definition docOpens :: "indexData \<Rightarrow> nat \<Rightarrow> bool" where
  "docOpens d e \<longleftrightarrow> (\<exists>a nl sz b. nthO (boundaries d) (of_nat e) = Some a \<and>
     nthO (boundaries d) (of_nat e + 1) = Some (a + of_nat (length (fst b))) \<and>
     readNewlines d (of_nat e) = Inr (nl, sz) \<and> readContents d (of_nat e) = Inr b)"

definition docName :: "indexData \<Rightarrow> nat \<Rightarrow> bytes" where
  "docName d e = (case ixFileName d (of_nat e) of Some nm \<Rightarrow> fst nm | None \<Rightarrow> [])"

text \<open>Every document the tree matches can be shown: building its \<^verbatim>\<open>FileMatch\<close> does not panic.\<close>

definition renders :: "golib \<Rightarrow> sorters \<Rightarrow> indexData \<Rightarrow> SearchOptions \<Rightarrow> nat \<Rightarrow> matchTree \<Rightarrow> bool" where
  "renders L S d opts n t0 \<longleftrightarrow> (\<forall>e < length (fileBranchMasks d). treeSem L d t0 e \<longrightarrow>
     (\<forall>t ev nl b. onDoc L d (length (fileBranchMasks d)) e t0 t \<longrightarrow> evalOk L d e nl b t0 ev \<longrightarrow>
        settled L d e (evKnown ev) [] t0 \<longrightarrow> fillFile S d opts n (of_nat e) t (evKnown ev) (evCp ev) \<noteq> None))"

lemma rendersD:
  assumes "renders L S d opts n t0" and "e < length (fileBranchMasks d)" and "treeSem L d t0 e"
    and "onDoc L d (length (fileBranchMasks d)) e t0 t" and "evalOk L d e nl b t0 ev" and "settled L d e (evKnown ev) [] t0"
  shows "\<exists>fm p. fillFile S d opts n (of_nat e) t (evKnown ev) (evCp ev) = Some (fm, p)"
proof -
  have "fillFile S d opts n (of_nat e) t (evKnown ev) (evCp ev) \<noteq> None"
    by (rule assms(1) [unfolded renders_def, rule_format, OF assms(2-6)])
  then show ?thesis by (simp only: not_None_eq split_paired_Ex)
qed

lemma setDocument_docIs:
  assumes "docOpens d e" and "cpId p = d"
  shows "\<exists>p' nl b. setDocument (of_nat e) p = Some p' \<and> docIs d (of_nat e) nl b p'"
  using assms unfolding docOpens_def by (auto simp: setDocument_def docIs_def)

lemma setStats_id [simp]: "cpId (setStats f p) = cpId p"
  by (simp add: setStats_def)

lemma docSections_id: "docSections p = Some (x, p') \<Longrightarrow> cpId p' = cpId p"
  by (auto simp: docSections_def Let_def split: option.splits sum.splits go_error.splits)

lemma newlines_id: "newlines p = Some (x, p') \<Longrightarrow> cpId p' = cpId p"
  by (auto simp: newlines_def Let_def split: option.splits sum.splits go_error.splits)

lemma data_id: "data fn p = Some (x, p') \<Longrightarrow> cpId p' = cpId p"
  by (auto simp: data_def bind_eq_Some_conv split: if_splits option.splits prod.splits)

lemma fillContentMatches_id: "fillContentMatches ms p = Some (x, p') \<Longrightarrow> cpId p' = cpId p"
proof (induction ms arbitrary: p x p' rule: length_induct)
  case (1 ms)
  show ?case
  proof (cases ms)
    case Nil
    then show ?thesis using 1(2) by (simp add: fillContentMatches.simps)
  next
    case (Cons m ms')
    note u = 1(2) [unfolded Cons, unfolded fillContentMatches.simps [of "m # ms'" p] list.case]
    obtain nl p1 where nl: "newlines p = Some (nl, p1)"
      using u by (auto simp: bind_eq_Some_conv)
    obtain num ls le where l: "line m nl (cpFileSize p) = (num, ls, le)" using prod_cases3 by blast
    define lc where "lc = takeWhile (\<lambda>m. unat (byteOffset m) \<le> le) ms"
    have lc: "lc \<noteq> []" using u nl l by (auto simp: lc_def Cons Let_def split: if_splits)
    obtain b p2 where b: "data False p1 = Some (b, p2)"
      using u nl l lc by (auto simp: lc_def Cons bind_eq_Some_conv Let_def simp del: takeWhile.simps split: if_splits)
    obtain y where "fillContentMatches (drop (length lc) ms) p2 = Some (y, p')"
      using u nl l lc b by (auto simp: lc_def Cons bind_eq_Some_conv Let_def simp del: takeWhile.simps split: if_splits)
    then have "cpId p' = cpId p2" using 1(1) lc Cons by (metis length_drop length_greater_0_conv diff_less list.distinct(1))
    then show ?thesis using newlines_id [OF nl] data_id [OF b] by simp
  qed
qed

lemma fillMatches_id: "fillMatches ms p = Some (x, p') \<Longrightarrow> cpId p' = cpId p"
  by (auto simp: fillMatches_def bind_eq_Some_conv dest!: docSections_id fillContentMatches_id split: list.splits if_splits)

lemma fillFile_id: "fillFile S d opts n i t kn p = Some (fm, p') \<Longrightarrow> cpId p' = cpId p"
  by (auto simp: fillFile_def Let_def bind_eq_Some_conv dest!: fillMatches_id data_id split: if_splits)

lemma newFileMatch_name: "newFileMatch d (of_nat e) = Some fm \<Longrightarrow> fmFileName fm = docName d e"
  by (auto simp: newFileMatch_def docName_def bind_eq_Some_conv Let_def split: if_splits)

lemma fillFile_name: "fillFile S d opts n (of_nat e) t kn p = Some (fm, p') \<Longrightarrow> fmFileName fm = docName d e"
  by (auto simp: fillFile_def Let_def bind_eq_Some_conv addScore_def dest!: newFileMatch_name split: if_splits)

abbreviation important :: "FileMatch \<Rightarrow> bool" where
  "important f \<equiv> scoreImportantThreshold < fmScore f"

lemma searchDoc_good:
  assumes D: "D = length (fileBranchMasks d)" "D < 4294967295" and safe: "treeSafe L d D t0"
    and opens: "docOpens d e" and rend: "renders L S d opts n t0" and e: "k \<le> e" "e < D"
    and rdy: "ready D k t0 (ssTree s)" and cp: "cpId (ssCp s) = d"
  shows "\<exists>s' fs. searchDoc L S d opts n (of_nat e) s = Some s' \<and> ready D (Suc e) t0 (ssTree s') \<and> cpId (ssCp s') = d \<and>
     ssFiles s' = ssFiles s @ fs \<and> ssImportant s' = ssImportant s + int (length (filter important fs)) \<and>
     map fmFileName fs = (if treeSem L d t0 e then [docName d e] else [])"
proof -
  have D': "D < 4294967296" "e < 4294967296" using D e by simp_all
  obtain t1 where t1: "prepare (of_nat e) (ssTree s) = Some t1" "onDoc L d D e t0 t1"
    using prepare_onDoc [OF e D'(1) rdy safe] by blast
  define cp0 where "cp0 = setStats (\<lambda>st. st\<lparr>FilesConsidered := FilesConsidered st + 1\<rparr>) (ssCp s)"
  have "cpId cp0 = d" by (simp add: cp0_def cp)
  then obtain cp1 nl b where cp1: "setDocument (of_nat e) cp0 = Some cp1" "docIs d (of_nat e) nl b cp1"
    using setDocument_docIs [OF opens] by blast
  have ev0: "evalOk L d e nl b t0 \<lparr>evCp = cp1, evKnown = Map.empty\<rparr>"
    using cp1(2) by (simp add: evalOk_def knownOk_def)
  obtain v t2 ev where dec: "decide L [costMin..<Suc costMax] \<lparr>evCp = cp1, evKnown = Map.empty\<rparr> t1 = Some (v, t2, ev)"
    "onDoc L d D e t0 t2" "evalOk L d e nl b t0 ev" "v = treeSem L d t0 e" "v \<longrightarrow> settled L d e (evKnown ev) [] t0"
    using decide_good [OF e(2) D'(1) safe t1(2) ev0, of "[costMin..<Suc costMax]"] by auto
  have id: "cpId (evCp ev) = d" using dec(3) by (simp add: evalOk_def docIs_def)
  have rdy': "ready D (Suc e) t0 t2" by (rule onDoc_ready [OF dec(2) D'(2)])
  note step = t1(1) cp0_def [symmetric] cp1(1) dec(1)
  show ?thesis
  proof (cases v)
    case False
    have "searchDoc L S d opts n (of_nat e) s = Some (s\<lparr>ssTree := t2, ssCp := evCp ev\<rparr>)"
      unfolding searchDoc_def step Option.bind.simps prod.case using False by simp
    then show ?thesis using False rdy' id dec(4) by simp
  next
    case True
    then obtain fm cp2 where f: "fillFile S d opts n (of_nat e) t2 (evKnown ev) (evCp ev) = Some (fm, cp2)"
      using rendersD [OF rend e(2) [unfolded D(1)] _ dec(2) [unfolded D(1)] dec(3)] dec(4,5) by blast
    have "\<exists>s'. searchDoc L S d opts n (of_nat e) s = Some s' \<and> ssTree s' = t2 \<and> cpId (ssCp s') = cpId cp2 \<and>
        ssFiles s' = ssFiles s @ [fm] \<and> ssImportant s' = ssImportant s + int (length (filter important [fm]))"
      unfolding searchDoc_def step f Option.bind.simps prod.case using True by simp
    then show ?thesis using True rdy' id dec(4) fillFile_id [OF f] fillFile_name [OF f]
      by (auto intro!: exI [of _ "[fm]"] simp del: filter.simps)
  qed
qed

definition fromDoc :: "u32 option \<Rightarrow> nat" where
  "fromDoc lastDoc = (case lastDoc of None \<Rightarrow> 0 | Some l \<Rightarrow> Suc (unat l))"

lemma advance_max:
  "fromDoc lastDoc < 4294967296 \<Longrightarrow> unat (advance lastDoc n) = max (fromDoc lastDoc) (unat n)"
proof (cases lastDoc)
  case (Some l)
  assume "fromDoc lastDoc < 4294967296"
  then have "unat (l + 1) = Suc (unat l)" using Some by (subst unat_add_u32) (simp_all add: fromDoc_def)
  then show ?thesis using Some by (auto simp: advance_def fromDoc_def word_le_nat_alt max_def)
qed (simp add: advance_def fromDoc_def)

lemma nextFileMatch_good:
  assumes D: "D = length (fileBranchMasks d)" "D < 4294967295" and safe: "treeSafe L d D t0"
    and opens: "\<And>e. e < D \<Longrightarrow> docOpens d e" and rend: "renders L S d opts n t0"
  shows "fromDoc lastDoc \<le> D \<Longrightarrow> ready D (fromDoc lastDoc) t0 (ssTree s) \<Longrightarrow> cpId (ssCp s) = d \<Longrightarrow>
    \<exists>s' fs K. nextFileMatch L S ctx d opts n poll lastDoc s = Some s' \<and> fromDoc lastDoc \<le> K \<and> K \<le> D \<and> ssFiles s' = ssFiles s @ fs \<and>
      ssImportant s' = ssImportant s + int (length (filter important fs)) \<and>
      map fmFileName fs = map (docName d) (filter (treeSem L d t0) [fromDoc lastDoc..<K]) \<and>
      (K = D \<or> (\<exists>p. ctx p) \<or> ShardMaxMatchCount opts \<le> MatchCount (ssStats s') \<or> ShardMaxImportantMatch opts \<le> ssImportant s')"
proof (induction "D - fromDoc lastDoc" arbitrary: lastDoc poll s rule: less_induct)
  case less
  define k where "k = fromDoc lastDoc"
  obtain m t1 where t1: "nextDoc (ssTree s) = Some (m, t1)" "ready D k t0 t1"
    "\<And>e. k \<le> e \<Longrightarrow> e < D \<Longrightarrow> treeSem L d t0 e \<Longrightarrow> unat m \<le> e"
    using nextDoc_good [OF D(2) less.prems(2) safe] unfolding k_def by blast
  define i where "i = advance lastDoc m"
  have i: "unat i = max k (unat m)" using advance_max [of lastDoc m] less.prems(1) D(2) by (simp add: i_def k_def)
  have skip: "\<not> treeSem L d t0 e" if "k \<le> e" "e < unat i" "e < D" for e using t1(3) that i by fastforce
  have lt: "i < of_nat (length (fileBranchMasks d)) \<longleftrightarrow> unat i < D"
    using D by (simp add: word_less_nat_alt unat_of_nat_u32)
  define s1 where "s1 = s\<lparr>ssTree := t1\<rparr>"
  note step = nextFileMatch.simps [of L S ctx d opts n poll lastDoc s] t1(1) i_def [symmetric] s1_def [symmetric] lt Let_def
  show ?case
  proof (cases "unat i < D")
    case False
    have "filter (treeSem L d t0) [k..<D] = []" using skip False by (auto simp: filter_empty_conv)
    then show ?thesis using False by (intro exI [of _ s1] exI [of _ "[]"] exI [of _ D]) (use less.prems(1) in \<open>simp add: step, simp add: s1_def k_def\<close>)
  next
    case True
    show ?thesis
    proof (cases "ctx poll \<or> ShardMaxMatchCount opts \<le> MatchCount (ssStats s) \<or> ShardMaxImportantMatch opts \<le> ssImportant s")
      case stop: True
      have "filter (treeSem L d t0) [k..<unat i] = []" using skip True by (auto simp: filter_empty_conv)
      moreover have "(\<exists>p. ctx p) \<or> ShardMaxMatchCount opts \<le> MatchCount (ssStats s) \<or> ShardMaxImportantMatch opts \<le> ssImportant s"
        using stop by blast
      moreover have "k \<le> unat i" using i by simp
      ultimately show ?thesis using True stop
        by (simp add: step) (intro exI [of _ "[]"] exI [of _ "unat i"], simp add: s1_def k_def setStats_def)
    next
      case go: False
      have e: "k \<le> unat i" "unat i < D" using i True by simp_all
      have "ready D k t0 (ssTree s1)" "cpId (ssCp s1) = d" using t1(2) less.prems(3) by (simp_all add: s1_def)
      from searchDoc_good [OF D safe opens [OF True] rend e this]
      obtain s2 fs2 where s2: "searchDoc L S d opts n i s1 = Some s2" "ready D (Suc (unat i)) t0 (ssTree s2)"
        "cpId (ssCp s2) = d" "ssFiles s2 = ssFiles s1 @ fs2"
        "ssImportant s2 = ssImportant s1 + int (length (filter important fs2))"
        "map fmFileName fs2 = (if treeSem L d t0 (unat i) then [docName d (unat i)] else [])" by auto
      have frm: "fromDoc (Some i) = Suc (unat i)" by (simp add: fromDoc_def)
      have h: "D - fromDoc (Some i) < D - fromDoc lastDoc" "fromDoc (Some i) \<le> D" "ready D (fromDoc (Some i)) t0 (ssTree s2)"
        using e s2(2) by (simp_all add: frm k_def [symmetric])
      obtain s' fs K where r: "nextFileMatch L S ctx d opts n (Suc poll) (Some i) s2 = Some s'" "Suc (unat i) \<le> K" "K \<le> D"
        "ssFiles s' = ssFiles s2 @ fs" "ssImportant s' = ssImportant s2 + int (length (filter important fs))"
        "map fmFileName fs = map (docName d) (filter (treeSem L d t0) [Suc (unat i)..<K])"
        "K = D \<or> (\<exists>p. ctx p) \<or> ShardMaxMatchCount opts \<le> MatchCount (ssStats s') \<or> ShardMaxImportantMatch opts \<le> ssImportant s'"
        using less.hyps [OF h(1) h(2,3) s2(3), of "Suc poll", unfolded frm] by blast
      have "[k..<K] = [k..<unat i] @ unat i # [Suc (unat i)..<K]"
        using e(1) r(2) by (metis Suc_le_lessD le_add_diff_inverse less_imp_le upt_add_eq_append upt_conv_Cons)
      moreover have "filter (treeSem L d t0) [k..<unat i] = []" using skip True by (auto simp: filter_empty_conv)
      ultimately have "map fmFileName (fs2 @ fs) = map (docName d) (filter (treeSem L d t0) [k..<K])"
        using s2(6) r(6) by simp
      moreover have "nextFileMatch L S ctx d opts n poll lastDoc s = Some s'" using True go s2(1) r(1) by (simp add: step)
      moreover have "fromDoc lastDoc \<le> K" "ssFiles s' = ssFiles s @ (fs2 @ fs)"
        "ssImportant s' = ssImportant s + int (length (filter important (fs2 @ fs)))"
        using e(1) r(2,4,5) s2(4,5) by (simp_all add: k_def s1_def)
      ultimately show ?thesis unfolding k_def using r(3,7) by blast
    qed
  qed
qed

section \<open>Gathered matches\<close>

abbreviation covered :: "candidateMatch list \<Rightarrow> nat set" where
  "covered cs \<equiv> (\<Union>c \<in> set cs. {unat (byteOffset c)..<matchEnd c})"

lemma mergeCands_good:
  assumes "n < 4294967296"
  shows "sorted_wrt (\<lambda>a b. byteOffset a \<le> byteOffset b) (l # cs) \<Longrightarrow> \<forall>c \<in> set (l # cs). matchEnd c \<le> n \<Longrightarrow>
    sorted_wrt (\<lambda>a b. matchEnd a < unat (byteOffset b)) (mergeCands l cs) \<and> (\<forall>c \<in> set (mergeCands l cs). matchEnd c \<le> n) \<and>
    covered (mergeCands l cs) = covered (l # cs) \<and>
    (\<forall>c \<in> set (mergeCands l cs). byteOffset l \<le> byteOffset c \<and> fileName c \<in> fileName ` set (l # cs))"
proof (induction cs arbitrary: l)
  case (Cons c cs)
  have le: "unat (byteOffset l) \<le> unat (byteOffset c)" "matchEnd l \<le> n" "matchEnd c \<le> n"
    using Cons.prems by (simp_all add: word_le_nat_alt)
  have lend: "unat (byteOffset l + byteMatchSz l) = matchEnd l" and cend: "unat (byteOffset c + byteMatchSz c) = matchEnd c"
    using le assms by (simp_all add: unat_add_u32)
  show ?case
  proof (cases "byteOffset c \<le> byteOffset l + byteMatchSz l")
    case True
    define l' where "l' = (if byteOffset l + byteMatchSz l < byteOffset c + byteMatchSz c
      then l\<lparr>byteMatchSz := byteOffset c + byteMatchSz c - byteOffset l\<rparr> else l)"
    have "byteOffset l \<le> byteOffset c + byteMatchSz c" using le cend by (simp add: word_le_nat_alt)
    then have "unat (byteOffset c + byteMatchSz c - byteOffset l) = matchEnd c - unat (byteOffset l)"
      using cend by (simp add: unat_sub_u32)
    then have l': "byteOffset l' = byteOffset l" "matchEnd l' = max (matchEnd l) (matchEnd c)" "fileName l' = fileName l"
      using le lend cend by (auto simp: l'_def word_less_nat_alt)
    have c: "unat (byteOffset c) \<le> matchEnd l" using True lend by (simp add: word_le_nat_alt)
    have cov: "covered (l' # cs) = covered (l # c # cs)" using l' le c by auto
    have m: "mergeCands l (c # cs) = mergeCands l' cs" using True by (simp add: l'_def Let_def)
    show ?thesis using Cons.IH [of l'] Cons.prems l' unfolding m cov by auto
  next
    case False
    then have lt: "matchEnd l < unat (byteOffset c)" using lend by (simp add: word_le_nat_alt)
    have m: "mergeCands l (c # cs) = l # mergeCands c cs" using False by (simp add: Let_def)
    have ih: "sorted_wrt (\<lambda>a b. matchEnd a < unat (byteOffset b)) (mergeCands c cs)"
      "\<forall>c \<in> set (mergeCands c cs). matchEnd c \<le> n" "covered (mergeCands c cs) = covered (c # cs)"
      "\<forall>x \<in> set (mergeCands c cs). byteOffset c \<le> byteOffset x \<and> fileName x \<in> fileName ` set (c # cs)"
      using Cons.IH [of c] Cons.prems by auto
    have "\<forall>x \<in> set (mergeCands c cs). matchEnd l < unat (byteOffset x) \<and> byteOffset l \<le> byteOffset x"
      using ih(4) lt le(1) by (fastforce simp: word_le_nat_alt)
    then show ?thesis using ih le(2) unfolding m by auto
  qed
qed simp

lemma gatherMatches_good:
  assumes S: "goodSorters S" and n: "n < 4294967296"
    and cands: "cands = concat (map nodeCands (visitMatches kn [] t))" "\<forall>c \<in> set cands. matchEnd c \<le> n"
  shows "sorted_wrt (\<lambda>a b. matchEnd a < unat (byteOffset b)) (gatherMatches S kn t) \<and>
    (\<forall>c \<in> set (gatherMatches S kn t). matchEnd c \<le> n) \<and>
    covered (gatherMatches S kn t) = covered (contentFirst cands) \<and>
    fileName ` set (gatherMatches S kn t) \<subseteq> {\<forall>c \<in> set cands. fileName c}"
proof -
  define xs where "xs = sortCands S (contentFirst cands)"
  have xs: "mset xs = mset (contentFirst cands)" "sorted_wrt (\<lambda>a b. byteOffset a \<le> byteOffset b) xs"
    using S unfolding goodSorters_def sortsBy_def xs_def by (auto simp: lessOffset_def not_less)
  then have set: "set xs = set (contentFirst cands)" by (metis set_mset_mset)
  have sub: "\<forall>c \<in> set xs. matchEnd c \<le> n" using set cands(2) by (auto simp: contentFirst_def Let_def)
  have fn: "fileName ` set xs \<subseteq> {\<forall>c \<in> set cands. fileName c}"
    unfolding set by (auto simp: contentFirst_def Let_def list_ex_iff)
  have g: "gatherMatches S kn t = (case xs of [] \<Rightarrow> [] | c # cs \<Rightarrow> mergeCands c cs)"
    by (simp add: gatherMatches_def xs_def cands(1))
  show ?thesis
  proof (cases xs)
    case Nil
    then have "contentFirst cands = []" using set by simp
    then show ?thesis using g Nil by simp
  next
    case (Cons c cs)
    note m = mergeCands_good [OF n, of c cs, OF xs(2) [unfolded Cons] sub [unfolded Cons]]
    then have "fileName ` set (mergeCands c cs) \<subseteq> fileName ` set xs" unfolding Cons by blast
    then have f: "fileName ` set (mergeCands c cs) \<subseteq> {\<forall>c \<in> set cands. fileName c}" using fn by (rule order_trans)
    have e: "gatherMatches S kn t = mergeCands c cs" "covered (contentFirst cands) = covered (c # cs)"
      using g set Cons by simp_all
    show ?thesis unfolding e by (intro conjI f) (insert m, blast+)
  qed
qed

section \<open>Lowest branch\<close>

lemma branchLoop_least:
  "msk \<noteq> 0 \<Longrightarrow> branchLoop msk i = i + int (LEAST j. bit msk j)"
proof (induction msk i rule: branchLoop.induct)
  case (1 msk i)
  show ?case
  proof (cases "bit msk 0")
    case True
    then have "(LEAST j. bit msk j) = 0" by (intro Least_equality) simp_all
    moreover have "msk AND 1 \<noteq> 0" using True by (simp add: bit_0 and_one_eq odd_iff_mod_2_eq_one)
    ultimately show ?thesis using 1(2) by (simp add: branchLoop.simps)
  next
    case False
    have a: "msk AND 1 = 0" using False by (simp add: bit_0 and_one_eq even_iff_mod_2_eq_zero)
    have "\<exists>j. bit msk j" using 1(2) by (auto simp: bit_eq_iff)
    then obtain j where j: "bit msk j" by blast
    then obtain j' where "j = Suc j'" using False by (cases j) auto
    then have "bit (drop_bit 1 msk) j'" using j by (simp add: bit_drop_bit_eq)
    then have "drop_bit 1 msk \<noteq> 0" by (metis bit_word_eqI bit_0_eq bot_apply bot_bool_def)
    then have "branchLoop msk i = i + 1 + int (LEAST j. bit (drop_bit 1 msk) j)"
      using 1 a by (subst branchLoop.simps) simp
    moreover have "(LEAST j. bit msk j) = Suc (LEAST j. bit msk (Suc j))" using j False by (intro Least_Suc) simp_all
    ultimately show ?thesis by (simp add: bit_drop_bit_eq)
  qed
qed

section \<open>Repository queries\<close>

fun constOnly :: "Q \<Rightarrow> bool" where
  "constOnly (And qs) \<longleftrightarrow> (\<forall>q \<in> set qs. constOnly q)"
| "constOnly (Or qs) \<longleftrightarrow> (\<forall>q \<in> set qs. constOnly q)"
| "constOnly (Not q) \<longleftrightarrow> constOnly q"
| "constOnly (Const b) \<longleftrightarrow> True"
| "constOnly q \<longleftrightarrow> False"

fun repoOnly :: "Q \<Rightarrow> bool" where
  "repoOnly (And qs) \<longleftrightarrow> (\<forall>q \<in> set qs. repoOnly q)"
| "repoOnly (Or qs) \<longleftrightarrow> (\<forall>q \<in> set qs. repoOnly q)"
| "repoOnly (Not q) \<longleftrightarrow> repoOnly q"
| "repoOnly (Const b) \<longleftrightarrow> True"
| "repoOnly (Repo p) \<longleftrightarrow> True"
| "repoOnly (RepoSet s) \<longleftrightarrow> True"
| "repoOnly q \<longleftrightarrow> False"

text \<open>The repository of the shard has the property the atom asks for.\<close>

fun repoHolds :: "indexData \<Rightarrow> Q \<Rightarrow> bool" where
  "repoHolds d (Repo p) \<longleftrightarrow> contains (repoName (repoMetaData d)) p"
| "repoHolds d (RepoSet s) \<longleftrightarrow> setLookup s (repoName (repoMetaData d))"
| "repoHolds d q \<longleftrightarrow> False"

lemma dropConsts_consts: "\<forall>q \<in> set qs. \<exists>b. q = Const b \<Longrightarrow> \<exists>b. dropConsts c qs [] = Const b"
  by (induction qs) auto

lemma evalConstants_consts: "constOnly q \<Longrightarrow> \<exists>b. evalConstants q = Const b" "constOnly q \<Longrightarrow> \<exists>b. mapEval q = Const b"
proof (induction q and q rule: evalConstants_mapEval.induct)
  case (1 qs)
  then show ?case by (simp add: dropConsts_consts)
next
  case (2 qs)
  then show ?case by (simp add: dropConsts_consts)
next
  case (3 q)
  then show ?case by (auto simp: invertConst_def)
next
  case (14 qs)
  then have "\<forall>x \<in> set qs. constOnly (mapEval x)" by fastforce
  then show ?case using 14(2) by simp
next
  case (15 qs)
  then have "\<forall>x \<in> set qs. constOnly (mapEval x)" by fastforce
  then show ?case using 15(2) by simp
qed (auto simp: evalAtom_def)

lemma simplify_repo:
  assumes "repoOnly q"
  shows "simplify d q = Const (qsem (repoHolds d) q)"
proof -
  define v where "v = (\<lambda>q. \<not> repoOnly q \<or> repoHolds d q \<or> q = RepoSet [])"
  have c: "constOnly (Map q (simplifyAtom d)) \<and> qsem v (Map q (simplifyAtom d)) = qsem (repoHolds d) q"
    using assms by (induction q) (auto simp: simplifyAtom_def)
  obtain b where b: "evalConstants (Map q (simplifyAtom d)) = Const b" using evalConstants_consts(1) c by blast
  then have "Simplify (Map q (simplifyAtom d)) = Const b" using simplifyLoop_step [of "Const b"] by (simp add: Simplify_def)
  moreover have "coherent v" by (simp add: coherent_def v_def)
  ultimately show ?thesis using Simplify_sem [of v "Map q (simplifyAtom d)"] c by (simp add: simplify_def)
qed

section \<open>Searching a tree\<close>

lemma MatchCount_updateStats [simp]:
  shows pi_MatchCount: "MatchCount (piUpdateStats pit s) = MatchCount s"
    and "MatchCount (tiUpdateStats ti s) = MatchCount s"
    and "MatchCount (hiUpdateStats hi s) = MatchCount s"
    and "MatchCount (baseUpdateStats bi s) = MatchCount s"
    and "MatchCount (miUpdateStats mi s) = MatchCount s"
proof -
  show p: "MatchCount (piUpdateStats pit s) = MatchCount s" for pit s by (cases pit) simp_all
  have f: "MatchCount (fold piUpdateStats xs s) = MatchCount s" for xs s by (induction xs arbitrary: s) (simp_all add: p)
  show t: "MatchCount (tiUpdateStats ti s) = MatchCount s" for ti s by (cases ti) (simp_all add: p f)
  show h: "MatchCount (hiUpdateStats hi s) = MatchCount s" for hi s by (cases hi) (simp_all add: t)
  show b: "MatchCount (baseUpdateStats bi s) = MatchCount s" for bi s by (cases bi) (simp_all add: h Let_def)
  show "MatchCount (miUpdateStats mi s) = MatchCount s" for mi s by (cases mi) (simp_all add: b)
qed

lemma updateStats_MatchCount: "MatchCount (updateStats t s) = MatchCount s"
proof (induction t arbitrary: s)
  case (AndMT cs)
  then show ?case by (induction cs arbitrary: s) simp_all
next
  case (OrMT cs)
  then show ?case by (induction cs arbitrary: s) simp_all
qed simp_all

lemma fold_addRepo [simp]: "srStats (fold addRepo rs r) = srStats r" "srFiles (fold addRepo rs r) = srFiles r"
  by (induction rs arbitrary: r) (simp_all add: addRepo_def)

section \<open>A shard with one document\<close>

definition stdSorters :: sorters where
  "stdSorters = \<lparr>sortCands = sort_key byteOffset, sortLines = sort_key (\<lambda>l. - lmScore l), sortFiles = sort_key (\<lambda>f. - fmScore f)\<rparr>"

lemma sorted_wrt_sort_key: "sorted_wrt (\<lambda>a b. f a \<le> f b) (sort_key f xs)"
  using sorted_sort_key [of f xs] by (simp add: sorted_map)

lemma stdSorters_good: "goodSorters stdSorters"
  unfolding goodSorters_def sortsBy_def stdSorters_def
  using sorted_wrt_sort_key [of byteOffset] sorted_wrt_sort_key [of "\<lambda>l. - lmScore l"]
    sorted_wrt_sort_key [of "\<lambda>f. - fmScore f"]
  by (auto simp: lessOffset_def lessLine_def lessFile_def not_less)

definition demoRepo :: Repository where
  "demoRepo = Repository [0x72] [] [\<lparr>brName = [0x6D], brVersion = [0x31]\<rparr>] None [] [] [] [] 0"

definition demoShard :: indexData where
  "demoShard = (oneDoc [0x61] [0])\<lparr>newlinesIndex := [0, 1], docSectionsStart := 1, docSectionsIndex := [0, 1],
     fileNameContent := ([0x66], []), fileNameIndex := [0, 1], fileBranchMasks := [1], repoMetaData := demoRepo,
     ixSubRepos := [0], ixChecksums := (replicate 8 0, []), ixLanguages := [0]\<rparr>"

definition demoTree :: matchTree where
  "demoTree = BruteMT \<lparr>bfFirstDone = False, bfDocID = 0\<rparr>"

definition demoOptions :: SearchOptions where
  "demoOptions = SetDefaults \<lparr>EstimateDocCount = False, Whole = False, ShardMaxMatchCount = 0, TotalMaxMatchCount = 0,
     ShardMaxImportantMatch = 0, TotalMaxImportantMatch = 0, MaxWallTime = 0, MaxDocDisplayCount = 0\<rparr>"

lemma demo_reads:
  "readContents demoShard 0 = Inr ([0x61], [])" "readNewlines demoShard 0 = Inr ([], 1)"
  "readDocSections demoShard 0 = Inr ([], 1)" "ixFileName demoShard 0 = Some ([0x66], [])"
  by (simp_all add: demoShard_def oneDoc_def docStarts_single readContents_def readNewlines_def readDocSections_def itemSection_def
      nthO_def readSectionBlob_def osRead_def ixFileName_def goReslice_def goSlice_def slice_def fromSizedDeltas_def
      unmarshalDocSections_def fromDeltas_def uvarint_def undeltasLoop.simps orPanic_def)

lemma demo_opens: "docOpens demoShard 0"
  unfolding docOpens_def using demo_reads(1,2) by (simp add: demoShard_def oneDoc_def docStarts_single nthO_def)

lemma demo_fileMatch: "\<exists>fm. newFileMatch demoShard 0 = Some fm"
  unfolding newFileMatch_def demo_reads
  by (simp add: getChecksum_def demoShard_def oneDoc_def nthO_def goSlice_def docVersion_def branchIndex_def nthI_def demoRepo_def
      branchLoop.simps)

lemma onDoc_Brute_cases: "onDoc L d D e (BruteMT t0) t \<Longrightarrow> \<exists>t1. t = BruteMT t1"
  by (auto elim: onDoc.cases)

lemma demo_cands: "gatherMatches stdSorters kn (BruteMT t) = []"
  by (simp add: gatherMatches_def nodeCands_def contentFirst_def stdSorters_def)

lemma demo_fill:
  assumes "cpId p = demoShard" "cpIdx p = 0"
  shows "fillMatches [wholeName [0x66] 0] p \<noteq> None"
proof -
  define l where "l = \<lparr>lmLine = [0x66], lmLineStart = 0, lmLineEnd = 0, lmLineNumber = 0, lmFileName = True,
    lmScore = 0, lmLineFragments = map (fragmentAt 0) [wholeName [0x66] 0]\<rparr>"
  have g: "list_all (\<lambda>l. list_all (goodFragment (lmLine l)) (lmLineFragments l)) [l]"
    by (simp add: l_def goodFragment_def fragmentAt_def wholeName_def emptyCandidate_def)
  have "\<exists>secs p2. docSections p = Some (secs, p2)"
    using demo_reads(3) assms by (auto simp: docSections_def Let_def split: option.splits)
  then obtain secs p2 where "docSections p = Some (secs, p2)" by blast
  moreover obtain ls where "scoreLines secs [l] = Some ls" using scoreLines_bounds [OF g, of secs] by blast
  moreover have "fileName (wholeName [0x66] 0)" by (simp add: wholeName_def)
  ultimately show ?thesis using demo_reads(4) assms unfolding fillMatches_def l_def by (simp del: scoreLines.simps)
qed

lemma demo_renders: "renders L stdSorters demoShard demoOptions 1 demoTree"
  unfolding renders_def
proof (intro allI impI)
  fix e t ev nl b
  assume e: "e < length (fileBranchMasks demoShard)" and on: "onDoc L demoShard (length (fileBranchMasks demoShard)) e demoTree t"
    and ev: "evalOk L demoShard e nl b demoTree ev"
  have e0: "e = 0" using e by (simp add: demoShard_def)
  obtain t1 where t: "t = BruteMT t1" using on unfolding demoTree_def by (blast dest: onDoc_Brute_cases)
  obtain fm where fm: "newFileMatch demoShard 0 = Some fm" using demo_fileMatch by blast
  have "cpId (evCp ev) = demoShard" "cpIdx (evCp ev) = 0" using ev e0 by (simp_all add: evalOk_def docIs_def)
  then obtain ls p where fill: "fillMatches [wholeName [0x66] 0] (evCp ev) = Some (ls, p)" using demo_fill by fastforce
  have "gatherBranches demoShard 0 (evKnown ev) t \<noteq> None"
    by (simp add: gatherBranches_def t nthO_def demoShard_def oneDoc_def)
  then obtain brs where brs: "gatherBranches demoShard 0 (evKnown ev) t = Some brs" by blast
  have "\<not> Whole demoOptions" by (simp add: demoOptions_def SetDefaults_def Let_def)
  then show "fillFile stdSorters demoShard demoOptions 1 (of_nat e) t (evKnown ev) (evCp ev) \<noteq> None"
    unfolding e0 fillFile_def using fm fill brs demo_reads(4) demo_cands [of "evKnown ev" t1] t by (simp add: Let_def)
qed

section \<open>Properties\<close>

text \<open>C20: searching a shard with a match tree returns, and the files of the result are, up to their
  order, exactly the documents on which the tree holds, among the first \<open>K\<close> documents; \<open>K\<close> is the
  number of documents unless the context was done or a limit on matches was reached. The files come
  with falling scores. The tree must be fresh, the documents readable, and the matching ones
  presentable.\<close>

theorem searchTree_correct:
  assumes "length (fileBranchMasks d) < 4294967295" and "treeSafe L d (length (fileBranchMasks d)) mt"
    and "ready (length (fileBranchMasks d)) 0 mt mt" and "\<And>e. e < length (fileBranchMasks d) \<Longrightarrow> docOpens d e"
    and "renders L S d opts (length (visitMatchTree mt)) mt" and "goodSorters S"
  shows "\<exists>res K. searchTree L S ctx d opts mt = Inr res \<and> K \<le> length (fileBranchMasks d) \<and>
    mset (map fmFileName (srFiles res)) = mset (map (docName d) (filter (treeSem L d mt) [0..<K])) \<and>
    sorted_wrt (\<lambda>a b. fmScore b \<le> fmScore a) (srFiles res) \<and>
    (K = length (fileBranchMasks d) \<or> (\<exists>p. ctx p) \<or> ShardMaxMatchCount opts \<le> MatchCount (srStats res) \<or>
     ShardMaxImportantMatch opts \<le> int (length (filter (\<lambda>f. 2000 < fmScore f) (srFiles res))))"
proof -
  define s0 where "s0 = \<lparr>ssTree = mt, ssCp = newProvider d, ssImportant = 0, ssFiles = []\<rparr>"
  have init: "fromDoc None \<le> length (fileBranchMasks d)" "ready (length (fileBranchMasks d)) (fromDoc None) mt (ssTree s0)"
    "cpId (ssCp s0) = d" using assms(3) by (simp_all add: fromDoc_def s0_def newProvider_def)
  obtain s' fs K where r: "nextFileMatch L S ctx d opts (length (visitMatchTree mt)) 1 None s0 = Some s'"
    "K \<le> length (fileBranchMasks d)" "ssFiles s' = ssFiles s0 @ fs" "ssImportant s' = ssImportant s0 + int (length (filter important fs))"
    "map fmFileName fs = map (docName d) (filter (treeSem L d mt) [fromDoc None..<K])"
    "K = length (fileBranchMasks d) \<or> (\<exists>p. ctx p) \<or> ShardMaxMatchCount opts \<le> MatchCount (ssStats s') \<or> ShardMaxImportantMatch opts \<le> ssImportant s'"
    using nextFileMatch_good [OF refl assms(1,2,4,5) init, of ctx 1] by blast
  have srt: "mset (sortFiles S fs) = mset fs" "sorted_wrt (\<lambda>a b. fmScore b \<le> fmScore a) (sortFiles S fs)"
    using assms(6) by (auto simp: goodSorters_def sortsBy_def lessFile_def not_less)
  have "length (filter important (sortFiles S fs)) = length (filter important fs)"
    using srt(1) by (metis mset_filter size_mset)
  moreover have "mset (map fmFileName (sortFiles S fs)) = mset (map fmFileName fs)" using srt(1) by simp
  moreover obtain res where "searchTree L S ctx d opts mt = Inr res" "srFiles res = sortFiles S fs"
    "MatchCount (srStats res) = MatchCount (ssStats s')"
  proof -
    have "\<exists>res. searchTree L S ctx d opts mt = Inr res \<and> srFiles res = sortFiles S fs \<and> MatchCount (srStats res) = MatchCount (ssStats s')"
    using r(1,3) unfolding searchTree_def s0_def [symmetric] by (simp add: updateStats_MatchCount) (simp add: s0_def addRepo_def updateStats_MatchCount)
    then show ?thesis using that by blast
  qed
  moreover have "ssImportant s' = int (length (filter important fs))" using r(4) by (simp add: s0_def)
  ultimately show ?thesis using r(2,5,6) srt(2) by (intro exI [of _ res] exI [of _ K]) (simp add: fromDoc_def)
qed

theorem searchTree_correct_witness:
  "let L = sampleLib in goodSorters stdSorters \<and> (\<exists>res. searchTree L stdSorters (\<lambda>i. False) demoShard demoOptions demoTree = Inr res \<and>
     (mset (map fmFileName (srFiles res)) = {#[0x66]#} \<or> 100000 \<le> MatchCount (srStats res)))"
proof -
  have one: "length (fileBranchMasks demoShard) = 1" "length (visitMatchTree demoTree) = 1" by (simp_all add: demoShard_def demoTree_def)
  have safe: "treeSafe sampleLib demoShard (length (fileBranchMasks demoShard)) demoTree" by (simp add: demoTree_def)
  have rdy: "ready (length (fileBranchMasks demoShard)) 0 demoTree demoTree" by (simp add: demoTree_def ready.ready_Brute)
  have op: "e < length (fileBranchMasks demoShard) \<Longrightarrow> docOpens demoShard e" for e using demo_opens one by simp
  have rn: "renders sampleLib stdSorters demoShard demoOptions (length (visitMatchTree demoTree)) demoTree"
    unfolding one(2) by (rule demo_renders)
  have small: "length (fileBranchMasks demoShard) < 4294967295" using one by simp
  obtain res K where r: "searchTree sampleLib stdSorters (\<lambda>i. False) demoShard demoOptions demoTree = Inr res"
    "mset (map fmFileName (srFiles res)) = mset (map (docName demoShard) (filter (treeSem sampleLib demoShard demoTree) [0..<K]))"
    "K \<le> length (fileBranchMasks demoShard)"
    "K = length (fileBranchMasks demoShard) \<or> ShardMaxMatchCount demoOptions \<le> MatchCount (srStats res) \<or>
     ShardMaxImportantMatch demoOptions \<le> int (length (filter (\<lambda>f. 2000 < fmScore f) (srFiles res)))"
    using searchTree_correct [OF small safe rdy op rn stdSorters_good, of "\<lambda>i. False"] by auto
  have opts: "ShardMaxMatchCount demoOptions = 100000" "ShardMaxImportantMatch demoOptions = 10"
    by (simp_all add: demoOptions_def SetDefaults_def Let_def)
  have "size (mset (map fmFileName (srFiles res))) \<le> 1"
    unfolding r(2) size_mset length_map using r(3) one(1) by (intro order_trans [OF length_filter_le]) simp
  then have "\<not> 10 \<le> int (length (filter (\<lambda>f. 2000 < fmScore f) (srFiles res)))"
    using order_trans [OF length_filter_le [of "\<lambda>f. 2000 < fmScore f" "srFiles res"], of 1] by simp
  moreover have "K = 1 \<Longrightarrow> mset (map fmFileName (srFiles res)) = {#[0x66]#}"
    using r(2) demo_reads(4) by (simp add: demoTree_def docName_def)
  ultimately show ?thesis using r(1,4) one(1) stdSorters_good opts by (auto simp: Let_def simp del: mset_map)
qed

text \<open>C23: the matches gathered from a document are in document order, do not overlap or touch, cover
  exactly the bytes of the candidates, and are never a mixture of file name and content matches: when
  there is a content match, the file name matches are dropped.\<close>

theorem gatherMatches_ordered:
  assumes "goodSorters S" and "cands = concat (map nodeCands (visitMatches kn [] t))"
    and "\<forall>c \<in> set cands. matchEnd c < 4294967296"
  shows "sorted_wrt (\<lambda>a b. matchEnd a < unat (byteOffset b)) (gatherMatches S kn t) \<and>
    covered (gatherMatches S kn t) = covered (filter (\<lambda>c. fileName c = (\<forall>c \<in> set cands. fileName c)) cands) \<and>
    (\<forall>c \<in> set (gatherMatches S kn t). fileName c = (\<forall>c \<in> set cands. fileName c))"
proof -
  have "\<forall>c \<in> set cands. matchEnd c \<le> 4294967295" using assms(3) by auto
  note g = gatherMatches_good [OF assms(1) _ assms(2) this]
  have "contentFirst cands = filter (\<lambda>c. fileName c = (\<forall>c \<in> set cands. fileName c)) cands"
    by (auto simp: contentFirst_def Let_def list_ex_iff intro!: filter_cong)
  then show ?thesis using g by (auto simp del: UN_simps)
qed

definition demoCand :: "bool \<Rightarrow> u32 \<Rightarrow> u32 \<Rightarrow> candidateMatch" where
  "demoCand fn off sz = emptyCandidate\<lparr>fileName := fn, byteOffset := off, byteMatchSz := sz\<rparr>"

definition demoFound :: matchTree where
  "demoFound = RegexpMT ((newRegexp (\<lambda>b. []) False)\<lparr>rmFound := [demoCand True 0 1, demoCand False 6 2, demoCand False 2 4]\<rparr>)"

theorem gatherMatches_ordered_witness:
  "let ms = gatherMatches stdSorters Map.empty demoFound in
   map byteOffset ms = [2] \<and> covered ms = {2..<8} \<and> map fileName ms = [False]"
proof -
  have c: "[demoCand True 0 1, demoCand False 6 2, demoCand False 2 4] = concat (map nodeCands (visitMatches Map.empty [] demoFound))"
    by (simp add: demoFound_def nodeCands_def)
  have b: "\<forall>c \<in> set [demoCand True 0 1, demoCand False 6 2, demoCand False 2 4]. matchEnd c < 4294967296"
    by (simp add: demoCand_def emptyCandidate_def)
  note g = gatherMatches_ordered [OF stdSorters_good c b]
  have ms: "gatherMatches stdSorters Map.empty demoFound = [demoCand False 2 6]"
    by (simp add: gatherMatches_def demoFound_def nodeCands_def contentFirst_def stdSorters_def demoCand_def emptyCandidate_def)
  show ?thesis using g unfolding Let_def ms by (auto simp: demoCand_def emptyCandidate_def)
qed

text \<open>C24: \<^verbatim>\<open>branchIndex\<close> is the lowest branch of the document, -1 for a document on no branch, and
  panics for an unknown document; its loop always ends.\<close>

theorem branchIndex_lowest:
  "branchIndex d docID = (if unat docID < length (fileBranchMasks d)
     then Some (let m = fileBranchMasks d ! unat docID in if m = 0 then - 1 else int (LEAST j. bit m j)) else None)"
  using branchLoop_least [of "fileBranchMasks d ! unat docID" 0]
  by (simp add: branchIndex_def nthO_def Let_def branchLoop.simps [of 0])

text \<open>C25: on a query about repositories only, \<^verbatim>\<open>List\<close> returns without an error, and lists the
  repository of the shard exactly when the query holds for it.\<close>

theorem List_repo:
  assumes "repoOnly q"
  shows "List d q = Inr \<lparr>rlRepos = (if qsem (repoHolds d) q then [repoListEntry d] else []), rlCrashes = 0\<rparr>"
  using simplify_repo [OF assms] by (simp add: List_def)

theorem List_repo_witness:
  "let q = And [Repo [0x72], Not (Repo [0x7A])] in
   repoOnly q \<and> List demoShard q = Inr \<lparr>rlRepos = [repoListEntry demoShard], rlCrashes = 0\<rparr>"
  using List_repo [of "And [Repo [0x72], Not (Repo [0x7A])]" demoShard]
  by (simp add: demoShard_def demoRepo_def contains_def indexOf_def hasPrefix_def indexFrom.simps)

end
