(* ===== verification/Go_Files.thy ===== *)
theory Go_Files
  imports Go_Std "HOL-Library.List_Lexorder"
begin

unbundle bit_operations_syntax

text \<open>
  More of the Go library: decimal numbers as \<^verbatim>\<open>%d\<close> prints them, the checksum of
  \<^verbatim>\<open>hash/crc64\<close> with the ISO polynomial, sorted strings, and file paths as \<^verbatim>\<open>path/filepath\<close>
  treats them on Unix. A text constant of the source is \<open>ascii\<close> of a string.
\<close>

section \<open>Text\<close>

definition ascii :: "string \<Rightarrow> bytes" where
  "ascii s = map of_char s"

function decimal :: "nat \<Rightarrow> bytes" where
  "decimal n = (if n < 10 then [0x30 + of_nat n] else decimal (n div 10) @ [0x30 + of_nat (n mod 10)])"
  by pat_completeness auto
termination by (relation "measure id") auto

declare decimal.simps [simp del]

section \<open>Checksums\<close>

definition crcStep :: "u64 \<Rightarrow> u64" where
  "crcStep c = (if c AND 1 = 1 then drop_bit 1 c XOR 0xD800000000000000 else drop_bit 1 c)"

definition crcTable :: "u8 \<Rightarrow> u64" where
  "crcTable i = (crcStep ^^ 8) (ucast i)"

fun crcUpdate :: "u64 \<Rightarrow> bytes \<Rightarrow> u64" where
  "crcUpdate crc [] = crc"
| "crcUpdate crc (b # bs) = crcUpdate (crcTable (ucast crc XOR b) XOR drop_bit 8 crc) bs"

definition crc64 :: "bytes \<Rightarrow> u64" where
  "crc64 bs = NOT (crcUpdate (NOT 0) bs)"

text \<open>\<^verbatim>\<open>Sum(nil)\<close> of a fresh hasher to which \<open>bs\<close> was written.\<close>

definition crcSum :: "bytes \<Rightarrow> bytes" where
  "crcSum bs = putUint64 (crc64 bs)"

lemma length_crcSum [simp]: "length (crcSum bs) = 8"
  by (simp add: crcSum_def putUint64_def)

section \<open>Paths\<close>

abbreviation slash :: u8 where "slash \<equiv> 0x2F"

definition dotB :: bytes where "dotB = [0x2E]"
definition dotdotB :: bytes where "dotdotB = [0x2E, 0x2E]"

text \<open>\<^verbatim>\<open>strings.Split\<close> with a one-byte separator, and \<^verbatim>\<open>strings.Join\<close>.\<close>

fun splitByte :: "u8 \<Rightarrow> bytes \<Rightarrow> bytes list" where
  "splitByte c [] = [[]]"
| "splitByte c (b # bs) = (if b = c then [] # splitByte c bs
     else case splitByte c bs of [] \<Rightarrow> [[b]] | x # xs \<Rightarrow> (b # x) # xs)"

fun joinBytes :: "bytes \<Rightarrow> bytes list \<Rightarrow> bytes" where
  "joinBytes sep [] = []"
| "joinBytes sep [x] = x"
| "joinBytes sep (x # xs) = x @ sep @ joinBytes sep xs"

lemma splitByte_ne [simp]: "splitByte c bs \<noteq> []"
  by (induction bs) (auto split: list.splits)

lemma joinBytes_Cons: "xs \<noteq> [] \<Longrightarrow> joinBytes sep (x # xs) = x @ sep @ joinBytes sep xs"
  by (cases xs) auto

lemma join_split: "joinBytes [c] (splitByte c bs) = bs"
proof (induction bs)
  case (Cons b bs)
  show ?case
  proof (cases "b = c")
    case True
    then show ?thesis using Cons by (simp add: joinBytes_Cons)
  next
    case False
    obtain x xs where x: "splitByte c bs = x # xs" by (meson neq_Nil_conv splitByte_ne)
    show ?thesis using Cons False by (cases xs) (simp_all add: x)
  qed
qed simp

text \<open>\<^verbatim>\<open>filepath.Clean\<close>: the elements of a path are kept on a stack, the last one first.\<close>

fun cleanElems :: "bool \<Rightarrow> bytes list \<Rightarrow> bytes list \<Rightarrow> bytes list" where
  "cleanElems rooted st [] = rev st"
| "cleanElems rooted st (x # xs) =
     (if x = [] \<or> x = dotB then cleanElems rooted st xs
      else if x = dotdotB then
        (case st of
           [] \<Rightarrow> cleanElems rooted (if rooted then [] else [dotdotB]) xs
         | y # st' \<Rightarrow> if y = dotdotB then cleanElems rooted (dotdotB # st) xs else cleanElems rooted st' xs)
      else cleanElems rooted (x # st) xs)"

definition isRooted :: "bytes \<Rightarrow> bool" where
  "isRooted p \<longleftrightarrow> p \<noteq> [] \<and> hd p = slash"

definition Clean :: "bytes \<Rightarrow> bytes" where
  "Clean p = (let els = cleanElems (isRooted p) [] (splitByte slash p) in
     if isRooted p then slash # joinBytes [slash] els
     else if els = [] then dotB else joinBytes [slash] els)"

fun stripCommon :: "bytes list \<Rightarrow> bytes list \<Rightarrow> bytes list \<times> bytes list" where
  "stripCommon (x # xs) (y # ys) = (if x = y then stripCommon xs ys else (x # xs, y # ys))"
| "stripCommon xs ys = (xs, ys)"

definition pathElems :: "bytes \<Rightarrow> bytes list" where
  "pathElems p = filter (\<lambda>x. x \<noteq> []) (splitByte slash p)"

text \<open>\<^verbatim>\<open>filepath.Rel\<close>; \<open>None\<close> is its error.\<close>

definition relPath :: "bytes \<Rightarrow> bytes \<Rightarrow> bytes option" where
  "relPath basepath targpath =
     (let base = Clean basepath; targ = Clean targpath in
      if targ = base then Some dotB
      else if isRooted base \<noteq> isRooted targ then None
      else let (bs, ts) = stripCommon (if base = dotB then [] else pathElems base) (pathElems targ) in
        if bs \<noteq> [] \<and> hd bs = dotdotB then None
        else Some (joinBytes [slash] (replicate (length bs) dotdotB @ ts)))"

text \<open>\<^verbatim>\<open>filepath.Base\<close> and \<^verbatim>\<open>filepath.Join\<close> of two elements.\<close>

definition basePath :: "bytes \<Rightarrow> bytes" where
  "basePath p = (if p = [] then dotB else if pathElems p = [] then [slash] else last (pathElems p))"

definition joinPath :: "bytes \<Rightarrow> bytes \<Rightarrow> bytes" where
  "joinPath a b = (let els = filter (\<lambda>x. x \<noteq> []) [a, b] in if els = [] then [] else Clean (joinBytes [slash] els))"

end
