(* ===== verification/Zoekt_Indexbuilder.thy ===== *)
theory Zoekt_Indexbuilder
  imports Zoekt_Api Zoekt_Bits Go_Files
begin

unbundle bit_operations_syntax

text \<open>
  The model of \<^verbatim>\<open>indexbuilder.go\<close>: the posting lists of a shard under construction, and adding
  documents to it. An operation that fails may have changed the builder before, so \<open>Add\<close> returns
  the builder together with the error. The parsing of URL templates (\<^verbatim>\<open>html/template\<close>) and the sort
  of sections by their start, which is not stable, are parameters.
\<close>

record buildlib =
  tmplParse :: "bytes \<Rightarrow> string option"
  sortSecs :: "DocumentSection list \<Rightarrow> DocumentSection list"

section \<open>Posting lists\<close>

record postingsBuilder =
  pbPostings :: "(ngram \<times> bytes) list"
  pbLast :: "(ngram \<times> u32) list"
  pbRuneOffsets :: "u32 list"
  pbRuneCount :: u32
  pbPlainASCII :: bool
  pbEndRunes :: "u32 list"
  pbEndByte :: u32

definition newPostingsBuilder :: postingsBuilder where
  "newPostingsBuilder = \<lparr>pbPostings = [], pbLast = [], pbRuneOffsets = [], pbRuneCount = 0, pbPlainASCII = True,
     pbEndRunes = [], pbEndByte = 0\<rparr>"

definition zeroOr :: "'v \<Rightarrow> ('k \<times> 'v) list \<Rightarrow> 'k \<Rightarrow> 'v" where
  "zeroOr z m k = (case map_of m k of Some v \<Rightarrow> v | None \<Rightarrow> z)"

text \<open>One posting: the trigram \<open>ng\<close> at rune \<open>newOff\<close>.\<close>

definition addPosting :: "ngram \<Rightarrow> u32 \<Rightarrow> postingsBuilder \<Rightarrow> postingsBuilder" where
  "addPosting ng newOff s =
     s\<lparr>pbPostings := mapSet ng (zeroOr [] (pbPostings s) ng @ putUvarint (ucast (newOff - zeroOr 0 (pbLast s) ng))) (pbPostings s),
       pbLast := mapSet ng newOff (pbLast s)\<rparr>"

text \<open>The loop over the runes of the data; the boundaries of the sections before the rune are
  translated. \<open>endRune\<close> is the number of runes before this string.\<close>

fun searchableLoop :: "u32 \<Rightarrow> (rune \<times> nat) list \<Rightarrow> rune3 \<Rightarrow> u32 \<Rightarrow> nat \<Rightarrow> u32 list \<Rightarrow> u32 list \<Rightarrow> postingsBuilder
    \<Rightarrow> u32 \<times> nat \<times> u32 list \<times> u32 list \<times> postingsBuilder" where
  "searchableLoop endRune [] g runeIndex byteCount bounds runeBounds s = (runeIndex, byteCount, bounds, runeBounds, s)"
| "searchableLoop endRune ((c, sz) # rs) (g0, g1, g2) runeIndex byteCount bounds runeBounds s =
     (let s1 = (if 1 < sz then s\<lparr>pbPlainASCII := False\<rparr> else s);
          s2 = (if (pbRuneCount s + runeIndex) mod 100 = 0
                then s1\<lparr>pbRuneOffsets := pbRuneOffsets s1 @ [pbEndByte s1 + of_nat byteCount]\<rparr> else s1);
          here = takeWhile (\<lambda>b. b = of_nat byteCount) bounds;
          s3 = (if runeIndex < 2 then s2 else addPosting (runesToNGram (g1, g2, c)) (endRune + runeIndex - 2) s2)
      in searchableLoop endRune rs (g1, g2, c) (runeIndex + 1) (byteCount + sz) (drop (length here) bounds)
           (runeBounds @ replicate (length here) (endRune + runeIndex)) s3)"

definition newSearchableString ::
  "bytes \<Rightarrow> DocumentSection list \<Rightarrow> postingsBuilder \<Rightarrow> DocumentSection list res \<times> postingsBuilder" where
  "newSearchableString dat byteSections s0 =
     (let (runeIndex, byteCount, bounds, runeBounds, s1) =
            searchableLoop (pbRuneCount s0) (runesOf dat) (0, 0, 0) 0 0 (concat (map (\<lambda>s. [Start s, End s]) byteSections)) [] s0;
          s2 = s1\<lparr>pbRuneCount := pbRuneCount s1 + runeIndex\<rparr>
      in if bounds \<noteq> [] \<and> hd bounds < of_nat byteCount then (Inl (GoErr ''no rune for section boundary''), s2)
         else let atEnd = takeWhile (\<lambda>b. b = of_nat byteCount) bounds in
           case pairSections (runeBounds @ replicate (length atEnd) (pbRuneCount s0 + runeIndex)) of
             None \<Rightarrow> (Inl (GoPanic ''index out of range''), s2)
           | Some runeSecs \<Rightarrow> (Inr runeSecs, s2\<lparr>pbEndRunes := pbEndRunes s2 @ [pbRuneCount s2],
               pbEndByte := pbEndByte s2 + of_nat (length dat)\<rparr>))"

section \<open>The builder\<close>

record IndexBuilder =
  contentStrings :: "bytes list"
  nameStrings :: "bytes list"
  ibDocSections :: "DocumentSection list list"
  ibRuneDocSections :: "DocumentSection list"
  ibChecksums :: bytes
  ibBranchMasks :: "u64 list"
  ibSubRepos :: "u32 list"
  contentPostings :: postingsBuilder
  namePostings :: postingsBuilder
  ibRepo :: Repository
  subRepoIndices :: "(bytes \<times> u32) list option"
  ibLanguageMap :: "(bytes \<times> u8) list"
  ibLanguages :: bytes

definition ContentSize :: "IndexBuilder \<Rightarrow> u32" where
  "ContentSize b = pbEndByte (contentPostings b) + pbEndByte (namePostings b)"

definition verifyRepository :: "buildlib \<Rightarrow> Repository \<Rightarrow> string option" where
  "verifyRepository B d = (case List.map_filter (tmplParse B) [FileURLTemplate d, LineFragmentTemplate d, CommitURLTemplate d] of
     [] \<Rightarrow> None | e # _ \<Rightarrow> Some e)"

definition setSubRepos :: "(bytes \<times> Repository) list option \<Rightarrow> Repository \<Rightarrow> Repository" where
  "setSubRepos m r = Repository (repoName r) (repoURL r) (repoBranches r) m (CommitURLTemplate r) (FileURLTemplate r)
     (LineFragmentTemplate r) (RawConfig r) (Rank r)"

definition populateSubRepoIndices :: "IndexBuilder \<Rightarrow> IndexBuilder" where
  "populateSubRepoIndices b = (case subRepoIndices b of
     Some m \<Rightarrow> b
   | None \<Rightarrow> let paths = sort (map fst (case SubRepoMap (ibRepo b) of None \<Rightarrow> [] | Some m \<Rightarrow> m))
       in b\<lparr>subRepoIndices := Some (zip paths (map of_nat [0..<length paths]))\<rparr>)"

text \<open>The comparison of the branches of subrepositories has no effect in the source. The copy of the
  description shares its map of subrepositories with the caller, so the source also writes the entry of
  the empty path into the caller's map; only the builder's view of the map is modelled.\<close>

definition setRepository :: "buildlib \<Rightarrow> Repository \<Rightarrow> IndexBuilder \<Rightarrow> IndexBuilder res" where
  "setRepository B desc b =
     (if contentStrings b \<noteq> [] then Inl (GoErr ''AddSubRepository called after adding files.'')
      else case verifyRepository B desc of
        Some e \<Rightarrow> Inl (GoErr e)
      | None \<Rightarrow> if 64 < length (repoBranches desc) then Inl (GoErr ''too many branches.'')
          else let m = (case SubRepoMap desc of None \<Rightarrow> [] | Some m \<Rightarrow> m)
            in Inr (populateSubRepoIndices (b\<lparr>ibRepo := setSubRepos (Some (mapSet [] (setSubRepos None desc) m)) desc\<rparr>)))"

definition NewIndexBuilder :: "buildlib \<Rightarrow> Repository option \<Rightarrow> IndexBuilder res" where
  "NewIndexBuilder B r = setRepository B (case r of None \<Rightarrow> emptyRepository | Some r' \<Rightarrow> r')
     \<lparr>contentStrings = [], nameStrings = [], ibDocSections = [], ibRuneDocSections = [], ibChecksums = [],
      ibBranchMasks = [], ibSubRepos = [], contentPostings = newPostingsBuilder, namePostings = newPostingsBuilder,
      ibRepo = emptyRepository, subRepoIndices = None, ibLanguageMap = [], ibLanguages = []\<rparr>"

section \<open>Documents\<close>

record Document =
  dName :: bytes
  dContent :: bytes
  dBranches :: "bytes list"
  dSubRepositoryPath :: bytes
  dLanguage :: bytes
  dSkipReason :: bytes
  dSymbols :: "DocumentSection list"

abbreviation maxTrigramCount :: nat where "maxTrigramCount \<equiv> 20000"

function checkTextLoop :: "rune3 \<Rightarrow> ngram list \<Rightarrow> bytes \<Rightarrow> string option" where
  "checkTextLoop (g0, g1, g2) trigrams content =
     (if content = [] then None
      else if hd content = 0 then Some ''binary data''
      else let (r, sz) = decodeRune content; rest = drop sz content in
        if g1 = 0 then checkTextLoop (g1, g2, r) trigrams rest
        else let trigrams' = List.insert (runesToNGram (g1, g2, r)) trigrams in
          if maxTrigramCount < length trigrams' then Some ''number of trigrams exceeds the limit''
          else checkTextLoop (g1, g2, r) trigrams' rest)"
  by pat_completeness auto
termination
proof (relation "measure (\<lambda>(g, t, c). length c)")
  fix g0 g1 g2 :: rune and trigrams :: "ngram list" and content :: bytes and x r sz rest
  assume c: "content \<noteq> []" and x: "x = decodeRune content" "(r, sz) = x" and rest: "rest = drop sz content"
  have "length rest < length content" using c decodeRune_size_pos [OF c] rest by (simp flip: x)
  then show "(((g1, g2, r), trigrams, rest), (g0, g1, g2), trigrams, content) \<in> measure (\<lambda>(g, t, c). length c)"
    "(((g1, g2, r), t', rest), (g0, g1, g2), trigrams, content) \<in> measure (\<lambda>(g, t, c). length c)" for t' by simp_all
qed simp_all

declare checkTextLoop.simps [simp del]

definition CheckText :: "bytes \<Rightarrow> string option" where
  "CheckText content = (if content = [] then None
     else if length content < ngramSize then Some ''file size smaller than 3''
     else checkTextLoop (0, 0, 0) [] content)"

definition notIndexedMarker :: bytes where
  "notIndexedMarker = ascii ''NOT-INDEXED: ''"

text \<open>The first two steps of \<^verbatim>\<open>Add\<close>: documents with a zero byte or a reason to skip them keep
  only the reason.\<close>

definition skipBinary :: "Document \<Rightarrow> Document" where
  "skipBinary doc =
     (let i = indexByte (dContent doc) 0;
          doc1 = (if 0 \<le> i then doc\<lparr>dSkipReason := ascii ''binary content at byte offset '' @ decimal (nat i),
                                   dLanguage := ascii ''binary''\<rparr> else doc)
      in if dSkipReason doc1 \<noteq> [] then doc1\<lparr>dContent := notIndexedMarker @ dSkipReason doc1, dSymbols := []\<rparr> else doc1)"

fun sectionsOverlap :: "DocumentSection list \<Rightarrow> bool" where
  "sectionsOverlap (a # b # ss) \<longleftrightarrow> Start b < End a \<or> sectionsOverlap (b # ss)"
| "sectionsOverlap ss \<longleftrightarrow> False"

definition checkDocument :: "Document \<Rightarrow> string option" where
  "checkDocument doc =
     (if sectionsOverlap (dSymbols doc) then Some ''sections overlap''
      else if (if dSymbols doc = [] then 0 else End (last (dSymbols doc))) > of_nat (length (dContent doc))
        then Some ''section goes past end of content''
      else if dSubRepositoryPath doc \<noteq> [] \<and> relPath (dSubRepositoryPath doc) (dName doc) \<in> {None, Some (dName doc)}
        then Some ''path must start subrepo path''
      else None)"

fun branchMaskFrom :: "nat \<Rightarrow> RepositoryBranch list \<Rightarrow> bytes \<Rightarrow> u64" where
  "branchMaskFrom i [] br = 0"
| "branchMaskFrom i (b # bs) br = (if brName b = br then push_bit i 1 else branchMaskFrom (Suc i) bs br)"

definition branchMask :: "IndexBuilder \<Rightarrow> bytes \<Rightarrow> u64" where
  "branchMask b br = branchMaskFrom 0 (repoBranches (ibRepo b)) br"

fun branchesMask :: "IndexBuilder \<Rightarrow> bytes list \<Rightarrow> u64 \<Rightarrow> u64 option" where
  "branchesMask b [] m = Some m"
| "branchesMask b (br # brs) m = (let k = branchMask b br in if k = 0 then None else branchesMask b brs (m OR k))"

text \<open>The last step of \<^verbatim>\<open>Add\<close>: the code of the language, a new one if it has none yet.\<close>

definition addLanguage :: "bytes \<Rightarrow> IndexBuilder \<Rightarrow> go_error option \<times> IndexBuilder" where
  "addLanguage lang b = (case map_of (ibLanguageMap b) lang of
     Some code \<Rightarrow> (None, b\<lparr>ibLanguages := ibLanguages b @ [code]\<rparr>)
   | None \<Rightarrow> if 255 \<le> length (ibLanguageMap b) then (Some (GoErr ''too many languages''), b)
       else let code = of_nat (length (ibLanguageMap b)) in
         (None, b\<lparr>ibLanguageMap := mapSet lang code (ibLanguageMap b), ibLanguages := ibLanguages b @ [code]\<rparr>))"

definition Add :: "buildlib \<Rightarrow> Document \<Rightarrow> IndexBuilder \<Rightarrow> go_error option \<times> IndexBuilder" where
  "Add B doc0 b =
     (let doc1 = skipBinary doc0; doc = doc1\<lparr>dSymbols := sortSecs B (dSymbols doc1)\<rparr> in
      case checkDocument doc of
        Some e \<Rightarrow> (Some (GoErr e), b)
      | None \<Rightarrow>
        let (r1, cp) = newSearchableString (dContent doc) (dSymbols doc) (contentPostings b);
            b1 = b\<lparr>contentPostings := cp\<rparr> in
        case r1 of
          Inl e \<Rightarrow> (Some e, b1)
        | Inr runeSecs \<Rightarrow>
          let (r2, np) = newSearchableString (dName doc) [] (namePostings b1);
              b2 = b1\<lparr>namePostings := np\<rparr> in
          case r2 of
            Inl e \<Rightarrow> (Some e, b2)
          | Inr _ \<Rightarrow>
            (case map_of (case subRepoIndices b2 of None \<Rightarrow> [] | Some m \<Rightarrow> m) (dSubRepositoryPath doc) of
               None \<Rightarrow> (Some (GoErr ''unknown subrepo path''), b2)
             | Some idx \<Rightarrow>
               (case branchesMask b2 (dBranches doc) 0 of
                  None \<Rightarrow> (Some (GoErr ''no branch found''), b2)
                | Some msk \<Rightarrow>
                  addLanguage (dLanguage doc)
                    (b2\<lparr>ibSubRepos := ibSubRepos b2 @ [idx], contentStrings := contentStrings b2 @ [dContent doc],
                       ibRuneDocSections := ibRuneDocSections b2 @ runeSecs, nameStrings := nameStrings b2 @ [dName doc],
                       ibDocSections := ibDocSections b2 @ [dSymbols doc], ibBranchMasks := ibBranchMasks b2 @ [msk],
                       ibChecksums := ibChecksums b2 @ crcSum (dContent doc)\<rparr>))))"

definition AddFile :: "buildlib \<Rightarrow> bytes \<Rightarrow> bytes \<Rightarrow> IndexBuilder \<Rightarrow> go_error option \<times> IndexBuilder" where
  "AddFile B nm content b = Add B \<lparr>dName = nm, dContent = content, dBranches = [], dSubRepositoryPath = [],
     dLanguage = [], dSkipReason = [], dSymbols = []\<rparr> b"

end
