(* ===== verification/Zoekt_Answers.thy ===== *)
theory Zoekt_Answers
  imports Zoekt_Eval Zoekt_Postings
begin

text \<open>
  The answer of a shard to a query. The match tree that \<^verbatim>\<open>newMatchTree\<close> builds for a query, with its
  trigram filters, sampled offsets and byte comparisons, is compared with the meaning of the query on
  the texts themselves: a substring occurs in the name or in the content rune by rune, a regular
  expression finds a match, a document is on a branch or in a language.
\<close>

section \<open>Valid UTF-8\<close>









lemma length_runes [simp]: "length (runes t) = runeCount t"
  by (simp add: runes_def runeCount_def)


section \<open>A pattern in a text\<close>






section \<open>Checking a candidate\<close>







section \<open>The texts of a shard\<close>










section \<open>No occurrence is missed\<close>











section \<open>The meaning of a query\<close>







section \<open>The tree of a query\<close>


















section \<open>Properties\<close>


section \<open>A shard with one document\<close>




















end
