(* ===== verification/Zoekt_Builder.thy ===== *)
theory Zoekt_Builder
  imports Zoekt_Postings "HOL-Library.Multiset"
begin

unbundle bit_operations_syntax

text \<open>
  The invariant of the index builder. Every successful \<open>Add\<close> keeps the tables of the shard in step:
  one entry per document everywhere, posting lists, rune samples and document ends that describe
  exactly the texts added so far, sections in runes that are the symbols of the documents, and
  language and branch codes within range.
\<close>

section \<open>The postings of a list of texts\<close>

abbreviation allRunes :: "bytes list \<Rightarrow> (rune \<times> nat) list" where
  "allRunes docs \<equiv> concat (map runesOf docs)"

definition holdsPostings :: "bytes list \<Rightarrow> postingsBuilder \<Rightarrow> bool" where
  "holdsPostings docs s \<longleftrightarrow> holdsHits (postingsOf docs) s \<and> pbRuneOffsets s = sampledOffsets 0 0 (allRunes docs) \<and>
     pbRuneCount s = of_nat (length (allRunes docs)) \<and> (pbPlainASCII s \<longleftrightarrow> (\<forall>x \<in> set (allRunes docs). snd x \<le> 1)) \<and>
     pbEndRunes s = docEnds docs \<and> pbEndByte s = of_nat (length (concat docs))"

lemma docEnds_snoc: "docEnds (docs @ [C]) = docEnds docs @ [of_nat (sum_list (map runeCount docs) + runeCount C)]"
  by (simp add: docEnds_def runesBefore_def)

lemma sum_lengths: "sum_list (map length docs) = length (concat docs)"
  by (simp add: length_concat)

lemma holdsPostings_new: "holdsPostings [] newPostingsBuilder"
  by (simp add: holdsPostings_def newPostingsBuilder_def holdsHits_def postingsOf_def zeroOr_def sampledOffsets_def docEnds_def)

lemma newSearchableString_holds:
  assumes h: "holdsPostings docs s" and sz: "length (allRunes docs) + length (runesOf dat) < 4294967296"
    and r: "newSearchableString dat secs s = (Inr rs, s')"
  shows "holdsPostings (docs @ [dat]) s'"
proof -
  define x where "x = searchableLoop (pbRuneCount s) (runesOf dat) (0, 0, 0) 0 0 (flatBounds secs) [] s"
  obtain i bc bs rbs s1 where xe: "x = (i, bc, bs, rbs, s1)" by (metis prod_cases5)
  let ?n = "length (allRunes docs)"
  have n: "?n = sum_list (map runeCount docs)" by (rule length_runesOf)
  have s': "s' = s1\<lparr>pbRuneCount := pbRuneCount s1 + i, pbEndRunes := pbEndRunes s1 @ [pbRuneCount s1 + i],
      pbEndByte := pbEndByte s1 + of_nat (length dat)\<rparr>"
    using r unfolding newSearchableString_def x_def [symmetric] xe
    by (auto simp: Let_def split: if_splits option.splits)
  have i: "i = of_nat (length (runesOf dat))"
    using loop_counts [of "pbRuneCount s" "runesOf dat" "(0, 0, 0)" 0 0 "flatBounds secs" "[]" s] unfolding x_def [symmetric] xe by simp
  have frame: "pbRuneCount s1 = pbRuneCount s" "pbEndRunes s1 = pbEndRunes s" "pbEndByte s1 = pbEndByte s"
    using loop_frame [of "pbRuneCount s" "runesOf dat" "(0, 0, 0)" 0 0 "flatBounds secs" "[]" s] unfolding x_def [symmetric] xe by simp_all
  have "pbPlainASCII s1 \<longleftrightarrow> pbPlainASCII s \<and> (\<forall>x \<in> set (runesOf dat). snd x \<le> 1)"
    using loop_ascii [of "pbRuneCount s" "runesOf dat" "(0, 0, 0)" 0 0 "flatBounds secs" "[]" s] unfolding x_def [symmetric] xe by simp
  moreover have "holdsHits (postingsOf (docs @ [dat])) s1"
  proof -
    have 0: "(\<lambda>ng. postingsOf docs ng @ runeHits ?n [] ng) = postingsOf docs" by (rule ext) (simp add: runeHits_def)
    have e: "(\<lambda>ng. postingsOf docs ng @ runeHits ?n ([] @ runesOf dat) ng) = postingsOf (docs @ [dat])"
      by (rule ext) (simp add: postingsOf_def hitsFrom_snoc n)
    have "holdsHits (\<lambda>ng. postingsOf docs ng @ runeHits ?n ([] @ runesOf dat) ng)
        (loopState (searchableLoop (pbRuneCount s) (runesOf dat) (0, 0, 0) 0 0 (flatBounds secs) [] s))"
      using h sz by (intro loop_hits) (simp_all add: holdsPostings_def 0 window_def)
    then show ?thesis unfolding e x_def [symmetric] xe by simp
  qed
  moreover have "pbRuneOffsets s1 = sampledOffsets 0 0 (allRunes (docs @ [dat]))"
  proof -
    have 0: "sampledOffsets ?n (length (concat docs)) [] = []" by (simp add: sampledOffsets_def)
    have "pbRuneOffsets (loopState (searchableLoop (pbRuneCount s) (runesOf dat) (0, 0, 0) 0 0 (flatBounds secs) [] s)) =
        sampledOffsets 0 0 (allRunes docs) @ sampledOffsets ?n (length (concat docs)) ([] @ runesOf dat)"
      using h sz by (intro loop_samples) (simp_all add: holdsPostings_def 0)
    then show ?thesis unfolding x_def [symmetric] xe
      by (simp add: sampledOffsets_append sum_runesOf sum_lengths del: length_concat)
  qed
  ultimately show ?thesis using h unfolding s'
    by (auto simp: holdsPostings_def frame i docEnds_snoc n runeCount_def ball_Un holdsHits_def simp del: length_concat)
qed

section \<open>The invariant\<close>

fun runeSections :: "nat \<Rightarrow> bytes list \<Rightarrow> DocumentSection list list \<Rightarrow> DocumentSection list" where
  "runeSections start (C # docs) (ss # sss) = map (toRunes (of_nat start) C) ss @ runeSections (start + runeCount C) docs sss"
| "runeSections start _ _ = []"

definition sectionsOk :: "bytes \<Rightarrow> DocumentSection list \<Rightarrow> bool" where
  "sectionsOk C ss \<longleftrightarrow> sorted (flatBounds ss) \<and> (\<forall>b \<in> set (flatBounds ss). unat b \<le> length C \<and> atRune (runesOf C) (unat b))"

text \<open>Language codes are numbered in the order of first use.\<close>

definition languagesOk :: "(bytes \<times> u8) list \<Rightarrow> bytes \<Rightarrow> bool" where
  "languagesOk m codes \<longleftrightarrow> length m \<le> 255 \<and> distinct (map fst m) \<and> map snd m = rev (map of_nat [0..<length m]) \<and>
     (\<forall>c \<in> set codes. unat c < length m)"

definition subRepoCodes :: "(bytes \<times> u32) list option \<Rightarrow> u32 set" where
  "subRepoCodes m = (case m of None \<Rightarrow> {} | Some idx \<Rightarrow> snd ` set idx)"

definition builderInv :: "IndexBuilder \<Rightarrow> bool" where
  "builderInv b \<longleftrightarrow> (let docs = contentStrings b; n = length docs in
     holdsPostings docs (contentPostings b) \<and> holdsPostings (nameStrings b) (namePostings b) \<and> length (nameStrings b) = n \<and>
     list_all2 sectionsOk docs (ibDocSections b) \<and> ibRuneDocSections b = runeSections 0 docs (ibDocSections b) \<and>
     ibChecksums b = concat (map crcSum docs) \<and>
     length (ibBranchMasks b) = n \<and> length (repoBranches (ibRepo b)) \<le> 64 \<and>
     (\<forall>m \<in> set (ibBranchMasks b). take_bit (length (repoBranches (ibRepo b))) m = m) \<and>
     length (ibSubRepos b) = n \<and> set (ibSubRepos b) \<subseteq> subRepoCodes (subRepoIndices b) \<and>
     length (ibLanguages b) = n \<and> languagesOk (ibLanguageMap b) (ibLanguages b))"

lemma runeSections_snoc:
  "length docs = length sss \<Longrightarrow> runeSections start (docs @ [C]) (sss @ [ss]) =
     runeSections start docs sss @ map (toRunes (of_nat (start + sum_list (map runeCount docs))) C) ss"
  by (induction start docs sss rule: runeSections.induct) (simp_all add: add.assoc)

lemma branchMaskFrom_bits: "i + length bs \<le> 64 \<Longrightarrow> take_bit (i + length bs) (branchMaskFrom i bs br) = branchMaskFrom i bs br"
proof (induction bs arbitrary: i)
  case (Cons x bs)
  have "take_bit (i + length (x # bs)) (push_bit i 1 :: u64) = push_bit i 1"
    by (rule bit_eqI) (auto simp: bit_simps)
  then show ?case using Cons.IH [of "Suc i"] Cons.prems by simp
qed simp

lemma branchesMask_bits:
  "branchesMask b brs m = Some m' \<Longrightarrow> length (repoBranches (ibRepo b)) \<le> 64 \<Longrightarrow>
    take_bit (length (repoBranches (ibRepo b))) m = m \<Longrightarrow> take_bit (length (repoBranches (ibRepo b))) m' = m'"
proof (induction brs arbitrary: m)
  case (Cons br brs)
  have "take_bit (length (repoBranches (ibRepo b))) (branchMask b br) = branchMask b br"
    using branchMaskFrom_bits [of 0 "repoBranches (ibRepo b)" br] Cons.prems(2) by (simp add: branchMask_def)
  then show ?case using Cons by (simp add: Let_def take_bit_or split: if_splits)
qed simp

lemma branchesMask_cong: "ibRepo b = ibRepo b' \<Longrightarrow> branchesMask b brs m = branchesMask b' brs m"
  by (induction brs arbitrary: m) (simp_all add: branchMask_def Let_def)

lemma mapSet_new: "map_of m k = None \<Longrightarrow> mapSet k v m = (k, v) # m"
  by (force simp: mapSet_def map_of_eq_None_iff intro!: filter_True)

lemma addLanguage_ok:
  assumes "languagesOk (ibLanguageMap b) (ibLanguages b)" and "addLanguage lang b = (None, b')"
  shows "\<exists>m code. b' = b\<lparr>ibLanguageMap := m, ibLanguages := ibLanguages b @ [code]\<rparr> \<and> languagesOk m (ibLanguages b @ [code]) \<and>
    map_of m lang = Some code"
proof (cases "map_of (ibLanguageMap b) lang")
  case None
  let ?n = "length (ibLanguageMap b)" and ?m = "mapSet lang (of_nat (length (ibLanguageMap b))) (ibLanguageMap b)"
  have n: "?n < 255" and b': "b' = b\<lparr>ibLanguageMap := ?m, ibLanguages := ibLanguages b @ [of_nat ?n]\<rparr>"
    using assms(2) None by (auto simp: addLanguage_def Let_def split: if_splits)
  have m: "?m = (lang, of_nat ?n) # ibLanguageMap b" using None by (simp add: mapSet_new)
  have "unat (of_nat ?n :: u8) = ?n" using n by (simp add: unat_of_nat)
  then have "languagesOk ?m (ibLanguages b @ [of_nat ?n])"
    using assms(1) None n unfolding m by (auto simp: languagesOk_def map_of_eq_None_iff less_Suc_eq)
  moreover have "map_of ?m lang = Some (of_nat ?n)" by simp
  ultimately show ?thesis using b' by blast
next
  case (Some code)
  then have "code \<in> snd ` set (ibLanguageMap b)" by (force dest: map_of_SomeD)
  then have "code \<in> of_nat ` {0..<length (ibLanguageMap b)}" using assms(1)
    by (metis languagesOk_def list.set_map set_rev set_upt)
  then have "unat code < length (ibLanguageMap b)" using assms(1) by (auto simp: languagesOk_def unat_of_nat)
  then show ?thesis using assms Some by (auto simp: addLanguage_def languagesOk_def intro!: exI [of _ "ibLanguageMap b"])
qed

section \<open>Adding a document\<close>

definition indexedDoc :: "buildlib \<Rightarrow> Document \<Rightarrow> Document" where
  "indexedDoc B doc = (let d = skipBinary doc in d\<lparr>dSymbols := sortSecs B (dSymbols d)\<rparr>)"

lemma Add_success:
  assumes "Add B doc0 b = (None, b')"
  defines "doc \<equiv> indexedDoc B doc0"
  obtains rs cp ns np idx msk b2 where "checkDocument doc = None"
    and "newSearchableString (dContent doc) (dSymbols doc) (contentPostings b) = (Inr rs, cp)"
    and "newSearchableString (dName doc) [] (namePostings b) = (Inr ns, np)"
    and "map_of (case subRepoIndices b of None \<Rightarrow> [] | Some m \<Rightarrow> m) (dSubRepositoryPath doc) = Some idx"
    and "branchesMask b (dBranches doc) 0 = Some msk"
    and "b2 = b\<lparr>contentPostings := cp, namePostings := np, ibSubRepos := ibSubRepos b @ [idx],
           contentStrings := contentStrings b @ [dContent doc], ibRuneDocSections := ibRuneDocSections b @ rs,
           nameStrings := nameStrings b @ [dName doc], ibDocSections := ibDocSections b @ [dSymbols doc],
           ibBranchMasks := ibBranchMasks b @ [msk], ibChecksums := ibChecksums b @ crcSum (dContent doc)\<rparr>"
    and "addLanguage (dLanguage doc) b2 = (None, b')"
proof -
  obtain r1 cp where n1: "newSearchableString (dContent doc) (dSymbols doc) (contentPostings b) = (r1, cp)" by fastforce
  obtain r2 np where n2: "newSearchableString (dName doc) [] (namePostings b) = (r2, np)" by fastforce
  have c: "branchesMask (b\<lparr>contentPostings := cp, namePostings := np\<rparr>) brs m = branchesMask b brs m" for brs m
    by (rule branchesMask_cong) simp
  show thesis using assms(1) that unfolding Add_def Let_def
    unfolding doc_def [unfolded indexedDoc_def Let_def, symmetric]
    by (auto simp: n1 n2 c split: option.splits sum.splits)
qed

text \<open>What is relied on of \<^verbatim>\<open>sort.Sort\<close>, and symbols that do not end before they start.\<close>

definition sortsSections :: "buildlib \<Rightarrow> bool" where
  "sortsSections B \<longleftrightarrow> (\<forall>ss. mset (sortSecs B ss) = mset ss \<and> sorted (map Start (sortSecs B ss)))"

definition symbolsOk :: "Document \<Rightarrow> bool" where
  "symbolsOk doc \<longleftrightarrow> (\<forall>s \<in> set (dSymbols doc). Start s \<le> End s)"

lemma symbolsOk_indexed:
  assumes "sortsSections B" and "symbolsOk doc"
  shows "\<forall>s \<in> set (dSymbols (indexedDoc B doc)). Start s \<le> End s"
proof -
  have "set (sortSecs B ss) = set ss" for ss using assms(1) by (metis sortsSections_def mset_eq_setD)
  then show ?thesis using assms(2) by (auto simp: indexedDoc_def skipBinary_def symbolsOk_def Let_def)
qed

lemma flatBounds_sorted: "\<not> sectionsOverlap ss \<Longrightarrow> \<forall>s \<in> set ss. Start s \<le> End s \<Longrightarrow> sorted (flatBounds ss)"
  by (induction ss rule: sectionsOverlap.induct) (auto simp: not_less intro: order_trans)

lemma sorted_last: "sorted (xs :: 'a :: linorder list) \<Longrightarrow> x \<in> set xs \<Longrightarrow> x \<le> last xs"
  by (induction xs) auto

lemma last_flatBounds: "ss \<noteq> [] \<Longrightarrow> last (flatBounds ss) = End (last ss)"
  by (induction ss) auto

lemma checked_sections:
  assumes "checkDocument doc = None" and "\<forall>s \<in> set (dSymbols doc). Start s \<le> End s" and "length (dContent doc) < 4294967296"
  shows "sorted (flatBounds (dSymbols doc)) \<and> (\<forall>b \<in> set (flatBounds (dSymbols doc)). unat b \<le> length (dContent doc))"
proof -
  let ?ss = "dSymbols doc"
  have srt: "sorted (flatBounds ?ss)"
    using assms(1,2) by (intro flatBounds_sorted) (auto simp: checkDocument_def split: if_splits)
  have "unat b \<le> length (dContent doc)" if b: "b \<in> set (flatBounds ?ss)" for b
  proof -
    have ne: "?ss \<noteq> []" using b by auto
    have "b \<le> last (flatBounds ?ss)" by (rule sorted_last [OF srt b])
    also have "\<dots> \<le> of_nat (length (dContent doc))"
      using assms(1) ne unfolding last_flatBounds [OF ne] by (auto simp: checkDocument_def not_less split: if_splits)
    finally show ?thesis using unat_of_nat_u32 [OF assms(3)] by (simp add: word_le_nat_alt)
  qed
  then show ?thesis using srt by blast
qed

lemma allRunes_le: "length (allRunes docs) \<le> length (concat docs)"
  by (induction docs) (simp_all add: add_mono runeCount_le [unfolded runeCount_def])

lemma Add_keeps_inv:
  assumes inv: "builderInv b" and add: "Add B doc0 b = (None, b')" and ss: "sortsSections B" "symbolsOk doc0"
    and sz: "length (concat (contentStrings b')) < 4294967296" "length (concat (nameStrings b')) < 4294967296"
  shows "builderInv b' \<and> contentStrings b' = contentStrings b @ [dContent (indexedDoc B doc0)] \<and>
    nameStrings b' = nameStrings b @ [dName doc0] \<and> ibRepo b' = ibRepo b"
proof -
  define doc where "doc = indexedDoc B doc0"
  from Add_success [OF add] obtain rs cp ns np idx msk b2 where chk: "checkDocument doc = None"
    and n1: "newSearchableString (dContent doc) (dSymbols doc) (contentPostings b) = (Inr rs, cp)"
    and n2: "newSearchableString (dName doc) [] (namePostings b) = (Inr ns, np)"
    and idx: "map_of (case subRepoIndices b of None \<Rightarrow> [] | Some m \<Rightarrow> m) (dSubRepositoryPath doc) = Some idx"
    and msk: "branchesMask b (dBranches doc) 0 = Some msk"
    and b2: "b2 = b\<lparr>contentPostings := cp, namePostings := np, ibSubRepos := ibSubRepos b @ [idx],
           contentStrings := contentStrings b @ [dContent doc], ibRuneDocSections := ibRuneDocSections b @ rs,
           nameStrings := nameStrings b @ [dName doc], ibDocSections := ibDocSections b @ [dSymbols doc],
           ibBranchMasks := ibBranchMasks b @ [msk], ibChecksums := ibChecksums b @ crcSum (dContent doc)\<rparr>"
    and lang: "addLanguage (dLanguage doc) b2 = (None, b')" unfolding doc_def by metis
  have i: "holdsPostings (contentStrings b) (contentPostings b)" "holdsPostings (nameStrings b) (namePostings b)"
    "languagesOk (ibLanguageMap b2) (ibLanguages b2)" "length (contentStrings b) = length (ibDocSections b)"
    using inv by (auto simp: builderInv_def Let_def b2 dest: list_all2_lengthD)
  obtain m code where b': "b' = b2\<lparr>ibLanguageMap := m, ibLanguages := ibLanguages b2 @ [code]\<rparr>"
    and m: "languagesOk m (ibLanguages b2 @ [code])" using addLanguage_ok [OF i(3) lang] by blast
  have cs: "contentStrings b' = contentStrings b @ [dContent doc]" "nameStrings b' = nameStrings b @ [dName doc]"
    by (simp_all add: b' b2)
  have "length (allRunes (contentStrings b @ [dContent doc])) < 4294967296" "length (allRunes (nameStrings b @ [dName doc])) < 4294967296"
    using sz allRunes_le unfolding cs by (meson le_less_trans)+
  then have p: "holdsPostings (contentStrings b') cp" "holdsPostings (nameStrings b') np"
    unfolding cs using newSearchableString_holds [OF i(1) _ n1] newSearchableString_holds [OF i(2) _ n2] by simp_all
  have len: "length (dContent doc) < 4294967296" using sz(1) unfolding cs by simp
  have bounds: "sorted (flatBounds (dSymbols doc))" "\<forall>b \<in> set (flatBounds (dSymbols doc)). unat b \<le> length (dContent doc)"
    using checked_sections [OF chk _ len] symbolsOk_indexed [OF ss] by (auto simp: doc_def)
  have at: "\<forall>b \<in> set (flatBounds (dSymbols doc)). atRune (runesOf (dContent doc)) (unat b)"
    and rs: "rs = map (toRunes (pbRuneCount (contentPostings b)) (dContent doc)) (dSymbols doc)"
    using newSearchableString_sections_eq [OF len bounds, of "contentPostings b"] unfolding n1 by (simp_all split: if_splits)
  have so: "sectionsOk (dContent doc) (dSymbols doc)" using bounds at unfolding sectionsOk_def by blast
  have "rs = map (toRunes (of_nat (0 + sum_list (map runeCount (contentStrings b)))) (dContent doc)) (dSymbols doc)"
    using i(1) rs by (simp add: holdsPostings_def length_runesOf)
  moreover have "take_bit (length (repoBranches (ibRepo b))) msk = msk"
    using branchesMask_bits [OF msk] inv by (simp add: builderInv_def Let_def)
  moreover have "idx \<in> subRepoCodes (subRepoIndices b)"
    using idx by (force simp: subRepoCodes_def dest: map_of_SomeD split: option.splits)
  ultimately have "builderInv b'" using inv p m so i(4) unfolding builderInv_def Let_def
    by (auto simp: b' b2 runeSections_snoc list_all2_appendI)
  then show ?thesis using cs by (simp add: b' b2 doc_def indexedDoc_def skipBinary_def Let_def)
qed

section \<open>A run of the builder\<close>

fun addAll :: "buildlib \<Rightarrow> Document list \<Rightarrow> IndexBuilder \<Rightarrow> IndexBuilder res" where
  "addAll B [] b = Inr b"
| "addAll B (d # ds) b = (case Add B d b of (None, b') \<Rightarrow> addAll B ds b' | (Some e, b') \<Rightarrow> Inl e)"

definition buildShard :: "buildlib \<Rightarrow> Repository option \<Rightarrow> Document list \<Rightarrow> IndexBuilder res" where
  "buildShard B repo ds = rbind (NewIndexBuilder B repo) (addAll B ds)"

lemma NewIndexBuilder_inv: "NewIndexBuilder B repo = Inr b \<Longrightarrow> builderInv b \<and> contentStrings b = [] \<and> nameStrings b = []"
  by (auto simp: NewIndexBuilder_def setRepository_def populateSubRepoIndices_def setSubRepos_def builderInv_def
      holdsPostings_new languagesOk_def Let_def split: if_splits option.splits)

lemma Add_strings:
  assumes "Add B d b = (None, b')"
  shows "contentStrings b' = contentStrings b @ [dContent (indexedDoc B d)] \<and> nameStrings b' = nameStrings b @ [dName (indexedDoc B d)]"
proof -
  obtain rs cp ns np idx msk b2 where b2: "b2 = b\<lparr>contentPostings := cp, namePostings := np, ibSubRepos := ibSubRepos b @ [idx],
           contentStrings := contentStrings b @ [dContent (indexedDoc B d)], ibRuneDocSections := ibRuneDocSections b @ rs,
           nameStrings := nameStrings b @ [dName (indexedDoc B d)], ibDocSections := ibDocSections b @ [dSymbols (indexedDoc B d)],
           ibBranchMasks := ibBranchMasks b @ [msk], ibChecksums := ibChecksums b @ crcSum (dContent (indexedDoc B d))\<rparr>"
    and lang: "addLanguage (dLanguage (indexedDoc B d)) b2 = (None, b')"
    using Add_success [OF assms] by metis
  then show ?thesis by (auto simp: addLanguage_def Let_def split: option.splits if_splits)
qed

lemma addAll_strings:
  "addAll B ds b = Inr b' \<Longrightarrow> contentStrings b' = contentStrings b @ map (dContent \<circ> indexedDoc B) ds \<and>
     nameStrings b' = nameStrings b @ map (dName \<circ> indexedDoc B) ds"
proof (induction ds arbitrary: b)
  case (Cons d ds)
  then obtain b1 where "Add B d b = (None, b1)" "addAll B ds b1 = Inr b'"
    by (auto split: prod.splits option.splits)
  then show ?case using Cons.IH Add_strings by fastforce
qed simp

lemma addAll_inv:
  assumes "sortsSections B"
  shows "addAll B ds b = Inr b' \<Longrightarrow> builderInv b \<Longrightarrow> \<forall>d \<in> set ds. symbolsOk d \<Longrightarrow>
    length (concat (contentStrings b')) < 4294967296 \<Longrightarrow> length (concat (nameStrings b')) < 4294967296 \<Longrightarrow> builderInv b'"
proof (induction ds arbitrary: b)
  case (Cons d ds)
  then obtain b1 where b1: "Add B d b = (None, b1)" "addAll B ds b1 = Inr b'"
    by (auto split: prod.splits option.splits)
  have "length (concat (contentStrings b1)) < 4294967296" "length (concat (nameStrings b1)) < 4294967296"
    using addAll_strings [OF b1(2)] Cons.prems(4,5) by simp_all
  then have "builderInv b1" using Add_keeps_inv [OF Cons.prems(2) b1(1) assms] Cons.prems(3) by simp
  then show ?case using Cons.IH [OF b1(2)] Cons.prems by simp
qed simp

lemma buildShard_inv:
  assumes "buildShard B repo ds = Inr b" and "sortsSections B" and "\<forall>d \<in> set ds. symbolsOk d"
    and "length (concat (contentStrings b)) < 4294967296" and "length (concat (nameStrings b)) < 4294967296"
  shows "builderInv b" and "contentStrings b = map (dContent \<circ> indexedDoc B) ds" and "nameStrings b = map dName ds"
proof -
  obtain b0 where b0: "NewIndexBuilder B repo = Inr b0" "addAll B ds b0 = Inr b"
    using assms(1) by (auto simp: buildShard_def rbind_def split: sum.splits)
  from NewIndexBuilder_inv [OF b0(1)] addAll_inv [OF assms(2) b0(2)] assms(3-5) show "builderInv b" by blast
  have "dName (indexedDoc B d) = dName d" for d by (simp add: indexedDoc_def skipBinary_def Let_def)
  then show "contentStrings b = map (dContent \<circ> indexedDoc B) ds" "nameStrings b = map dName ds"
    using addAll_strings [OF b0(2)] NewIndexBuilder_inv [OF b0(1)] by (simp_all add: comp_def)
qed

section \<open>Positions\<close>

lemma hitsFrom_nats:
  "\<exists>ns. hitsFrom start docs ng = map of_nat ns \<and> sorted_wrt (<) ns \<and>
     (\<forall>n \<in> set ns. start \<le> n \<and> n < start + sum_list (map runeCount docs))"
proof (induction docs arbitrary: start)
  case (Cons C docs)
  define ks where "ks = map (\<lambda>k. start + k) (filter (\<lambda>k. gramAt (runesOf C) k = ng) [0..<length (runesOf C) - 2])"
  have ks: "runeHits start (runesOf C) ng = map of_nat ks" "sorted_wrt (<) ks" "\<forall>n \<in> set ks. start \<le> n \<and> n < start + runeCount C"
    by (auto simp: runeHits_def ks_def sorted_wrt_map sorted_wrt_filter runeCount_def)
  obtain ns where ns: "hitsFrom (start + runeCount C) docs ng = map of_nat ns" "sorted_wrt (<) ns"
    "\<forall>n \<in> set ns. start + runeCount C \<le> n \<and> n < start + runeCount C + sum_list (map runeCount docs)" using Cons.IH by blast
  have "sorted_wrt (<) (ks @ ns)" using ks ns unfolding sorted_wrt_append by (meson order_less_le_trans)
  then show ?case using ks ns by (intro exI [of _ "ks @ ns"]) (auto simp: add.assoc)
qed simp

lemma postingsOf_increasing:
  assumes "length (allRunes docs) < 4294967296"
  shows "sorted_wrt (<) (postingsOf docs ng)"
proof -
  obtain ns where ns: "postingsOf docs ng = map of_nat ns" "sorted_wrt (<) ns" "\<forall>n \<in> set ns. n < sum_list (map runeCount docs)"
    using hitsFrom_nats [of 0 docs ng] by (auto simp: postingsOf_def)
  then have "\<forall>n \<in> set ns. n < 4294967296" using assms by (auto simp: length_runesOf)
  then show ?thesis using ns(2) unfolding ns(1) sorted_wrt_map
    by (auto intro!: sorted_wrt_mono_rel [OF _ ns(2)] simp: word_less_nat_alt unat_of_nat_u32)
qed

section \<open>Failures\<close>

lemma newSearchableString_empty: "newSearchableString dat [] s = (r, s') \<Longrightarrow> r = Inr []"
proof -
  have e: "fst (snd (snd (searchableLoop E rs g i bc [] [] s))) = [] \<and> fst (snd (snd (snd (searchableLoop E rs g i bc [] [] s)))) = []"
    for E rs g i bc s by (induction rs arbitrary: g i bc s) (auto simp: Let_def split: prod.splits)
  obtain i bc bs rbs s1 where x: "searchableLoop (pbRuneCount s) (runesOf dat) (0, 0, 0) 0 0 [] [] s = (i, bc, bs, rbs, s1)"
    by (metis prod_cases5)
  then have "bs = []" "rbs = []" using e [of "pbRuneCount s" "runesOf dat" "(0, 0, 0)" 0 0 s] by simp_all
  then show "newSearchableString dat [] s = (r, s') \<Longrightarrow> r = Inr []" by (auto simp: newSearchableString_def x Let_def)
qed

lemma newSearchableString_count:
  "newSearchableString dat secs s = (r, s') \<Longrightarrow> pbRuneCount s' = pbRuneCount s + of_nat (length (runesOf dat)) \<and>
     length (pbEndRunes s') = length (pbEndRunes s) + (case r of Inl _ \<Rightarrow> 0 | Inr _ \<Rightarrow> 1)"
proof -
  define x where "x = searchableLoop (pbRuneCount s) (runesOf dat) (0, 0, 0) 0 0 (flatBounds secs) [] s"
  obtain i bc bs rbs s1 where xe: "x = (i, bc, bs, rbs, s1)" by (metis prod_cases5)
  have i: "i = of_nat (length (runesOf dat))"
    using loop_counts [of "pbRuneCount s" "runesOf dat" "(0, 0, 0)" 0 0 "flatBounds secs" "[]" s] unfolding x_def [symmetric] xe by simp
  have f: "pbRuneCount s1 = pbRuneCount s" "pbEndRunes s1 = pbEndRunes s"
    using loop_frame [of "pbRuneCount s" "runesOf dat" "(0, 0, 0)" 0 0 "flatBounds secs" "[]" s] unfolding x_def [symmetric] xe by simp_all
  show "newSearchableString dat secs s = (r, s') \<Longrightarrow> ?thesis"
    unfolding newSearchableString_def x_def [symmetric] xe by (auto simp: Let_def i f split: if_splits option.splits)
qed

lemma Add_failed:
  assumes "Add B doc0 b = (Some e, b')"
  defines "doc \<equiv> indexedDoc B doc0"
  obtains (check) msg where "checkDocument doc = Some msg" "b' = b"
  | (boundary) cp where "checkDocument doc = None" "newSearchableString (dContent doc) (dSymbols doc) (contentPostings b) = (Inl e, cp)"
      "b' = b\<lparr>contentPostings := cp\<rparr>"
  | (lookup) rs cp np where "checkDocument doc = None"
      "newSearchableString (dContent doc) (dSymbols doc) (contentPostings b) = (Inr rs, cp)"
      "b' = b\<lparr>contentPostings := cp, namePostings := np\<rparr>"
  | (language) "checkDocument doc = None" "contentStrings b' = contentStrings b @ [dContent doc]" "ibLanguages b' = ibLanguages b"
proof -
  obtain r1 cp where n1: "newSearchableString (dContent doc) (dSymbols doc) (contentPostings b) = (r1, cp)" by fastforce
  obtain r2 np where n2: "newSearchableString (dName doc) [] (namePostings b) = (r2, np)" by fastforce
  note r2 = newSearchableString_empty [OF n2]
  have l: "addLanguage lang x = (Some e, b') \<Longrightarrow> b' = x" for lang x by (auto simp: addLanguage_def Let_def split: option.splits if_splits)
  show thesis
  proof (cases "checkDocument doc")
    case (Some m)
    then show thesis using assms(1) check unfolding Add_def Let_def
      unfolding doc_def [unfolded indexedDoc_def Let_def, symmetric] by simp
  next
    case None
    show thesis
    proof (cases r1)
      case (Inl e1)
      then show thesis using assms(1) boundary None n1 unfolding Add_def Let_def
        unfolding doc_def [unfolded indexedDoc_def Let_def, symmetric] by simp
    next
      case (Inr rs)
      then show thesis using assms(1) lookup language None n1 unfolding Add_def Let_def
        unfolding doc_def [unfolded indexedDoc_def Let_def, symmetric]
        by (auto simp: n1 n2 r2 split: option.splits dest!: l)
    qed
  qed
qed

lemma Add_failure_inv:
  assumes inv: "builderInv b" and add: "Add B doc0 b = (Some e, b')" and ss: "sortsSections B" "symbolsOk doc0"
    and sz: "length (dContent (indexedDoc B doc0)) < 4294967296"
  shows "builderInv b' \<longleftrightarrow> checkDocument (indexedDoc B doc0) \<noteq> None"
  using add
proof (cases rule: Add_failed)
  case (check msg)
  then show ?thesis using inv by simp
next
  case (boundary cp)
  let ?doc = "indexedDoc B doc0"
  have bounds: "sorted (flatBounds (dSymbols ?doc))" "\<forall>b \<in> set (flatBounds (dSymbols ?doc)). unat b \<le> length (dContent ?doc)"
    using checked_sections [OF boundary(1) _ sz] symbolsOk_indexed [OF ss] by auto
  have "\<exists>b \<in> set (flatBounds (dSymbols ?doc)). \<not> atRune (runesOf (dContent ?doc)) (unat b)"
    using newSearchableString_sections_eq [OF sz bounds, of "contentPostings b"] unfolding boundary(2) by (auto split: if_splits)
  then obtain b0 :: u32 where b0: "unat b0 \<le> length (dContent ?doc)" "\<not> atRune (runesOf (dContent ?doc)) (unat b0)" using bounds(2) by blast
  have ne: "dContent ?doc \<noteq> []"
  proof
    assume "dContent ?doc = []"
    then show False using b0 by (simp add: runesOf.simps [of "[]"])
  qed
  then have l: "0 < length (runesOf (dContent ?doc))" "length (runesOf (dContent ?doc)) < 4294967296"
    using runeCount_le [of "dContent ?doc"] sz by (simp_all add: runesOf_nonempty runeCount_def)
  have "of_nat (length (runesOf (dContent ?doc))) \<noteq> (0 :: u32)" using l by (metis unat_of_nat_u32 unat_0 less_numeral_extra(3))
  then have "pbRuneCount cp \<noteq> pbRuneCount (contentPostings b)" using newSearchableString_count [OF boundary(2)] by simp
  then have "\<not> builderInv b'" using inv boundary(3) by (auto simp: builderInv_def Let_def holdsPostings_def)
  then show ?thesis using boundary(1) by simp
next
  case (lookup rs cp np)
  have "length (pbEndRunes cp) = Suc (length (pbEndRunes (contentPostings b)))" using newSearchableString_count [OF lookup(2)] by simp
  then have "\<not> builderInv b'" using inv lookup(3) by (auto simp: builderInv_def Let_def holdsPostings_def)
  then show ?thesis using lookup(1) by simp
next
  case language
  then have "\<not> builderInv b'" using inv by (auto simp: builderInv_def Let_def)
  then show ?thesis using language(1) by simp
qed

text \<open>A section that starts at the end of the text and ends before it.\<close>

lemma loop_past:
  "B \<noteq> [] \<Longrightarrow> bc + sum_list (map snd rs) \<le> unat (hd B) \<Longrightarrow> \<forall>x \<in> set rs. 0 < snd x \<Longrightarrow>
    loopBounds (searchableLoop E rs g i bc B rb s) = B \<and> loopRuneBounds (searchableLoop E rs g i bc B rb s) = rb"
proof (induction rs arbitrary: g i bc s)
  case (Cons x rs)
  obtain c sz g0 g1 g2 where x: "x = (c, sz)" and g: "g = (g0, g1, g2)" by (metis prod_cases3 surj_pair)
  have "bc < unat (hd B)" using Cons.prems(2,3) x by simp
  moreover have "unat (hd B) < 4294967296" by (rule unat_u32_less)
  ultimately have "unat (of_nat bc :: u32) = bc" by (intro unat_of_nat_u32) simp
  then have "takeWhile (\<lambda>b. b = of_nat bc) B = []" using Cons.prems(1) \<open>bc < unat (hd B)\<close> by (cases B) auto
  then have "\<exists>i' s'. searchableLoop E (x # rs) g i bc B rb s = searchableLoop E rs (g1, g2, c) i' (bc + sz) B rb s'"
    unfolding x g searchableLoop.simps Let_def by (metis append_Nil2 drop0 list.size(3) replicate_0)
  moreover have "loopBounds (searchableLoop E rs (g1, g2, c) i' (bc + sz) B rb s') = B \<and>
      loopRuneBounds (searchableLoop E rs (g1, g2, c) i' (bc + sz) B rb s') = rb" for i' s'
    using Cons.prems x by (intro Cons.IH) simp_all
  ultimately show ?case by metis
qed simp

lemma branchesMask_some: "branchesMask b brs m \<noteq> None \<longleftrightarrow> (\<forall>br \<in> set brs. branchMask b br \<noteq> 0)"
  by (induction brs arbitrary: m) (auto simp: Let_def)

lemma Add_success_iff:
  assumes ss: "sortsSections B" "symbolsOk doc0" and sz: "length (dContent (indexedDoc B doc0)) < 4294967296"
  defines "doc \<equiv> indexedDoc B doc0"
  shows "fst (Add B doc0 b) = None \<longleftrightarrow> checkDocument doc = None \<and>
    (\<forall>p \<in> set (flatBounds (dSymbols doc)). atRune (runesOf (dContent doc)) (unat p)) \<and>
    map_of (case subRepoIndices b of None \<Rightarrow> [] | Some m \<Rightarrow> m) (dSubRepositoryPath doc) \<noteq> None \<and>
    (\<forall>br \<in> set (dBranches doc). branchMask b br \<noteq> 0) \<and>
    (map_of (ibLanguageMap b) (dLanguage doc) \<noteq> None \<or> length (ibLanguageMap b) < 255)" (is "_ = ?ok")
proof (cases "checkDocument doc")
  case (Some m)
  then show ?thesis unfolding Add_def Let_def unfolding doc_def [unfolded indexedDoc_def Let_def, symmetric] by simp
next
  case None
  obtain r1 cp where n1: "newSearchableString (dContent doc) (dSymbols doc) (contentPostings b) = (r1, cp)" by fastforce
  obtain r2 np where n2: "newSearchableString (dName doc) [] (namePostings b) = (r2, np)" by fastforce
  note r2 = newSearchableString_empty [OF n2]
  have c: "branchesMask (b\<lparr>contentPostings := cp, namePostings := np\<rparr>) brs m = branchesMask b brs m" for brs m
    by (rule branchesMask_cong) simp
  have sz': "length (dContent doc) < 4294967296" using sz by (simp add: doc_def)
  have bounds: "sorted (flatBounds (dSymbols doc))" "\<forall>p \<in> set (flatBounds (dSymbols doc)). unat p \<le> length (dContent doc)"
    using checked_sections [OF None _ sz'] symbolsOk_indexed [OF ss] by (auto simp: doc_def)
  have r1: "isl r1 \<longleftrightarrow> \<not> (\<forall>p \<in> set (flatBounds (dSymbols doc)). atRune (runesOf (dContent doc)) (unat p))"
    using newSearchableString_sections_eq [OF sz' bounds, of "contentPostings b"] unfolding n1 by (simp del: set_concat)
  have l: "fst (addLanguage lang x) = None \<longleftrightarrow> map_of (ibLanguageMap x) lang \<noteq> None \<or> length (ibLanguageMap x) < 255" for lang x
    by (auto simp: addLanguage_def Let_def split: option.splits)
  show ?thesis
  proof (cases r1)
    case (Inl e)
    then have "\<not> ?ok" using r1 by auto
    moreover have "fst (Add B doc0 b) \<noteq> None" using None Inl n1 unfolding Add_def Let_def
      unfolding doc_def [unfolded indexedDoc_def Let_def, symmetric] by simp
    ultimately show ?thesis by blast
  next
    case (Inr rs)
    then have at: "\<forall>p \<in> set (flatBounds (dSymbols doc)). atRune (runesOf (dContent doc)) (unat p)" using r1 by auto
    show ?thesis using None Inr n1 at branchesMask_some [of b "dBranches doc" 0] unfolding Add_def Let_def
      unfolding doc_def [unfolded indexedDoc_def Let_def, symmetric]
      by (auto simp: n1 n2 r2 c l split: option.splits)
  qed
qed

section \<open>Properties\<close>

definition demoLib :: buildlib where
  "demoLib = \<lparr>tmplParse = (\<lambda>_. None), sortSecs = sort_key Start\<rparr>"

definition demoDoc :: Document where
  "demoDoc = \<lparr>dName = [0x66], dContent = [0x61, 0x62, 0x63, 0x64], dBranches = [], dSubRepositoryPath = [], dLanguage = [],
     dSkipReason = [], dSymbols = [\<lparr>Start = 1, End = 3\<rparr>]\<rparr>"

definition demoEmpty :: IndexBuilder where
  "demoEmpty = projr (NewIndexBuilder demoLib None)"

definition demoBuilt :: IndexBuilder where
  "demoBuilt = snd (Add demoLib demoDoc demoEmpty)"

lemma demoLib_sorts: "sortsSections demoLib"
  by (simp add: sortsSections_def demoLib_def)

lemma demoDoc_ok: "symbolsOk demoDoc"
  by (simp add: symbolsOk_def demoDoc_def)

lemma demoRunes: "runesOf [0x61, 0x62, 0x63, 0x64] = [(0x61, 1), (0x62, 1), (0x63, 1), (0x64, 1)]"
  by code_simp

lemma demo_noZero: "Go_Std.indexByte [0x61, 0x62, 0x63, 0x64] 0 = - 1"
  by code_simp

lemma demoDoc_indexed: "indexedDoc demoLib demoDoc = demoDoc"
  by (simp add: indexedDoc_def skipBinary_def demoDoc_def demoLib_def demo_noZero Let_def)

lemma demoEmpty_eq: "NewIndexBuilder demoLib None = Inr demoEmpty" "subRepoIndices demoEmpty = Some [([], 0)]"
  "ibLanguageMap demoEmpty = []"
  by (simp_all add: demoEmpty_def NewIndexBuilder_def setRepository_def verifyRepository_def demoLib_def emptyRepository_def
      populateSubRepoIndices_def setSubRepos_def mapSet_def)

lemma demoBuilt_add: "Add demoLib demoDoc demoEmpty = (None, demoBuilt)"
proof -
  have "fst (Add demoLib demoDoc demoEmpty) = None"
    by (subst Add_success_iff [OF demoLib_sorts demoDoc_ok], unfold demoDoc_indexed)
      (simp_all add: demoEmpty_eq demoDoc_def checkDocument_def demoRunes)
  then show ?thesis by (simp add: demoBuilt_def prod_eq_iff)
qed

lemma demoBuilt_eq: "buildShard demoLib None [demoDoc] = Inr demoBuilt"
  by (simp add: buildShard_def demoEmpty_eq demoBuilt_add)

lemma demoBuilt_strings: "contentStrings demoBuilt = [[0x61, 0x62, 0x63, 0x64]]" "nameStrings demoBuilt = [[0x66]]"
  using Add_strings [OF demoBuilt_add] NewIndexBuilder_inv [OF demoEmpty_eq(1)] by (simp_all add: demoDoc_indexed) (simp_all add: demoDoc_def)

text \<open>C26: A shard built by adding documents without an error satisfies the invariant of the builder:
  the posting lists, rune samples, rune counts and document ends of the contents and of the names are
  those of the documents, in order; the sections in runes are the symbols translated; checksums,
  branch masks, subrepositories and languages have one entry per document, in range. Symbols may not
  end before they start, and contents and names stay below \<open>2\<^sup>3\<^sup>2\<close> bytes.\<close>

theorem built_shard_invariant:
  assumes "buildShard B repo ds = Inr b" and "sortsSections B" and "\<forall>d \<in> set ds. symbolsOk d"
    and "length (concat (contentStrings b)) < 4294967296" and "length (concat (nameStrings b)) < 4294967296"
  shows "builderInv b \<and> contentStrings b = map (dContent \<circ> skipBinary) ds \<and> nameStrings b = map dName ds"
  using buildShard_inv [OF assms] by (simp add: indexedDoc_def Let_def comp_def)

theorem built_shard_invariant_witness:
  "buildShard demoLib None [demoDoc] = Inr demoBuilt \<and> builderInv demoBuilt \<and>
     contentStrings demoBuilt = [[0x61, 0x62, 0x63, 0x64]] \<and> nameStrings demoBuilt = [[0x66]]"
  using built_shard_invariant [OF demoBuilt_eq demoLib_sorts] demoBuilt_eq by (simp add: demoBuilt_strings demoDoc_ok)

text \<open>C27: The posting list of a trigram in a built shard decodes to exactly the positions of the trigram,
  counted in runes from the start of the first document, in increasing order; no position crosses the
  end of a document.\<close>

theorem built_postings_exact:
  assumes "buildShard B repo ds = Inr b" and "sortsSections B" and "\<forall>d \<in> set ds. symbolsOk d"
    and "length (concat (contentStrings b)) < 4294967296" and "length (concat (nameStrings b)) < 4294967296"
  shows "\<exists>ps. fromDeltas (zeroOr [] (pbPostings (contentPostings b)) ng) = Some ps \<and> sorted_wrt (<) ps \<and>
    (\<forall>p. p \<in> set ps \<longleftrightarrow> (\<exists>i < length ds. \<exists>k. k + 2 < runeCount (contentStrings b ! i) \<and>
       gramAt (runesOf (contentStrings b ! i)) k = ng \<and> p = of_nat (runesBefore (contentStrings b) i + k)))"
proof (intro exI conjI allI)
  note inv = buildShard_inv [OF assms]
  have "length (allRunes (contentStrings b)) < 4294967296" using allRunes_le assms(4) by (rule le_less_trans)
  then show "sorted_wrt (<) (postingsOf (contentStrings b) ng)" by (rule postingsOf_increasing)
  show "fromDeltas (zeroOr [] (pbPostings (contentPostings b)) ng) = Some (postingsOf (contentStrings b) ng)"
    using inv(1) by (simp add: builderInv_def Let_def holdsPostings_def holdsHits_def fromDeltas_deltasLoop)
  have "length ds = length (contentStrings b)" using inv(2) by simp
  then show "p \<in> set (postingsOf (contentStrings b) ng) \<longleftrightarrow> (\<exists>i < length ds. \<exists>k. k + 2 < runeCount (contentStrings b ! i) \<and>
       gramAt (runesOf (contentStrings b ! i)) k = ng \<and> p = of_nat (runesBefore (contentStrings b) i + k))" for p
    using hitsFrom_set [of p 0 "contentStrings b" ng] by (simp add: postingsOf_def)
qed

theorem built_postings_exact_witness:
  "\<exists>ps. fromDeltas (zeroOr [] (pbPostings (contentPostings demoBuilt)) (runesToNGram (0x62, 0x63, 0x64))) = Some ps \<and>
     sorted_wrt (<) ps \<and> 1 \<in> set ps"
proof -
  have "\<forall>d \<in> set [demoDoc]. symbolsOk d" by (simp add: demoDoc_ok)
  from built_postings_exact [OF demoBuilt_eq demoLib_sorts this, of "runesToNGram (0x62, 0x63, 0x64)"]
  obtain ps where ps: "fromDeltas (zeroOr [] (pbPostings (contentPostings demoBuilt)) (runesToNGram (0x62, 0x63, 0x64))) = Some ps"
    "sorted_wrt (<) ps"
    and p: "\<forall>p. p \<in> set ps \<longleftrightarrow> (\<exists>i < length [demoDoc]. \<exists>k. k + 2 < runeCount (contentStrings demoBuilt ! i) \<and>
       gramAt (runesOf (contentStrings demoBuilt ! i)) k = runesToNGram (0x62, 0x63, 0x64) \<and>
       p = of_nat (runesBefore (contentStrings demoBuilt) i + k))"
    by (auto simp: demoBuilt_strings)
  have "1 \<in> set ps" unfolding p [rule_format]
    by (intro exI [of _ 0] conjI exI [of _ 1]) (simp_all add: demoBuilt_strings runeCount_def demoRunes gramAt_def runesBefore_def)
  then show ?thesis using ps by blast
qed

text \<open>C28: \<open>Add\<close> succeeds exactly when the checks of the document pass, every boundary of a symbol is the
  start of a rune or the end of the text, the subrepository and all branches are known, and the
  language is known or fewer than 255 languages are in use.\<close>

theorem Add_succeeds_iff:
  assumes "sortsSections B" and "symbolsOk doc" and "length (dContent (indexedDoc B doc)) < 4294967296"
  shows "fst (Add B doc b) = None \<longleftrightarrow> checkDocument (indexedDoc B doc) = None \<and>
    (\<forall>p \<in> set (flatBounds (dSymbols (indexedDoc B doc))). atRune (runesOf (dContent (indexedDoc B doc))) (unat p)) \<and>
    map_of (case subRepoIndices b of None \<Rightarrow> [] | Some m \<Rightarrow> m) (dSubRepositoryPath doc) \<noteq> None \<and>
    (\<forall>br \<in> set (dBranches doc). branchMask b br \<noteq> 0) \<and>
    (map_of (ibLanguageMap b) (dLanguage (indexedDoc B doc)) \<noteq> None \<or> length (ibLanguageMap b) < 255)"
proof -
  have "dSubRepositoryPath (indexedDoc B doc) = dSubRepositoryPath doc" "dBranches (indexedDoc B doc) = dBranches doc"
    by (simp_all add: indexedDoc_def skipBinary_def Let_def)
  then show ?thesis using Add_success_iff [OF assms, of b] by (simp del: set_concat)
qed

theorem Add_succeeds_iff_witness:
  "fst (Add demoLib demoDoc demoEmpty) = None \<and> fst (Add demoLib (demoDoc\<lparr>dSubRepositoryPath := [0x66]\<rparr>) demoEmpty) \<noteq> None"
proof -
  have "indexedDoc demoLib (demoDoc\<lparr>dSubRepositoryPath := [0x66]\<rparr>) = demoDoc\<lparr>dSubRepositoryPath := [0x66]\<rparr>"
    by (simp add: indexedDoc_def skipBinary_def demoDoc_def demoLib_def demo_noZero Let_def)
  then have "fst (Add demoLib (demoDoc\<lparr>dSubRepositoryPath := [0x66]\<rparr>) demoEmpty) \<noteq> None"
    using Add_succeeds_iff [OF demoLib_sorts, of "demoDoc\<lparr>dSubRepositoryPath := [0x66]\<rparr>" demoEmpty]
    by (simp add: symbolsOk_def demoDoc_def demoEmpty_eq)
  then show ?thesis by (simp add: demoBuilt_add)
qed

text \<open>C29: A failed \<open>Add\<close> keeps the invariant of the builder only when the document is rejected by the first
  checks. After a section boundary inside a rune, an unknown subrepository or branch, or too many
  languages, posting lists and tables no longer belong to the same documents.\<close>

theorem Add_failure_not_atomic:
  assumes "builderInv b" and "Add B doc b = (Some e, b')" and "sortsSections B" and "symbolsOk doc"
    and "length (dContent (indexedDoc B doc)) < 4294967296"
  shows "builderInv b' \<longleftrightarrow> checkDocument (indexedDoc B doc) \<noteq> None"
  by (rule Add_failure_inv [OF assms])

theorem Add_failure_not_atomic_witness:
  "\<exists>e b'. Add demoLib (demoDoc\<lparr>dBranches := [[0x62]]\<rparr>) demoEmpty = (Some e, b') \<and> builderInv demoEmpty \<and> \<not> builderInv b'"
proof -
  let ?d = "demoDoc\<lparr>dBranches := [[0x62]]\<rparr>"
  have d: "indexedDoc demoLib ?d = ?d" "symbolsOk ?d"
    by (simp_all add: indexedDoc_def skipBinary_def demoDoc_def demoLib_def demo_noZero Let_def symbolsOk_def)
  have inv: "builderInv demoEmpty" using NewIndexBuilder_inv [OF demoEmpty_eq(1)] by blast
  have "branchMask demoEmpty [0x62] = 0"
    by (simp add: branchMask_def demoEmpty_def NewIndexBuilder_def setRepository_def verifyRepository_def demoLib_def emptyRepository_def
      populateSubRepoIndices_def setSubRepos_def)
  moreover have sz: "length (dContent (indexedDoc demoLib ?d)) < 4294967296" unfolding d(1) by (simp add: demoDoc_def)
  ultimately have "fst (Add demoLib ?d demoEmpty) \<noteq> None"
    unfolding Add_success_iff [OF demoLib_sorts d(2) sz] d(1) by (simp add: demoDoc_def)
  then obtain e b' where a: "Add demoLib ?d demoEmpty = (Some e, b')" by (cases "Add demoLib ?d demoEmpty") auto
  have "\<not> builderInv b'" using Add_failure_not_atomic [OF inv a demoLib_sorts d(2) sz] unfolding d(1) by (simp add: demoDoc_def checkDocument_def)
  then show ?thesis using a inv by blast
qed

lemma sortSecs_single: "sortsSections B \<Longrightarrow> sortSecs B [x] = [x]"
  by (metis sortsSections_def mset_single_iff mset_single_iff_right mset.simps)

lemma newSearchableString_malformed:
  assumes "C \<noteq> []" and len: "length C < 4294967296" and e: "unat e < length C"
  shows "fst (newSearchableString C [\<lparr>Start = of_nat (length C), End = e\<rparr>] s) = Inl (GoPanic ''index out of range'')"
proof -
  define r where "r = searchableLoop (pbRuneCount s) (runesOf C) (0, 0, 0) 0 0 [of_nat (length C), e] [] s"
  obtain i bc bs rbs s1 where x: "r = (i, bc, bs, rbs, s1)" by (metis prod_cases5)
  have u: "unat (of_nat (length C) :: u32) = length C" using len by (rule unat_of_nat_u32)
  have "bc = length C"
    using loop_counts [of "pbRuneCount s" "runesOf C" "(0, 0, 0)" 0 0 "[of_nat (length C), e]" "[]" s] sum_widths [of C]
    unfolding r_def [symmetric] x by simp
  moreover have "bs = [of_nat (length C), e] \<and> rbs = []"
    using loop_past [of "[of_nat (length C), e]" 0 "runesOf C" "pbRuneCount s" "(0, 0, 0)" 0 "[]" s] sum_widths [of C] u runesOf_width_pos [of C]
    unfolding r_def [symmetric] x by simp
  moreover have "e \<noteq> of_nat (length C)" using e u by auto
  ultimately show ?thesis unfolding newSearchableString_def using x [unfolded r_def] by simp
qed

text \<open>C31: A symbol that starts at the end of the text and ends before it passes the checks of \<open>Add\<close>, which
  only compares the end of one section with the start of the next and the last end with the length of
  the text; the translation of the sections to runes then panics.\<close>

theorem Add_malformed_symbol_panics:
  assumes "sortsSections B" and "Go_Std.indexByte (dContent doc) 0 < 0" and "dSkipReason doc = []" and "dSubRepositoryPath doc = []"
    and "dContent doc \<noteq> []" and "length (dContent doc) < 4294967296"
    and "dSymbols doc = [\<lparr>Start = of_nat (length (dContent doc)), End = e\<rparr>]" and "unat e < length (dContent doc)"
  shows "fst (Add B doc b) = Some (GoPanic ''index out of range'')"
proof -
  let ?secs = "[\<lparr>Start = of_nat (length (dContent doc)), End = e\<rparr>]"
  have d: "skipBinary doc = doc" using assms(2,3) by (simp add: skipBinary_def Let_def)
  have "e \<le> of_nat (length (dContent doc))" using assms(6,8) by (simp add: word_le_nat_alt unat_of_nat_u32)
  then have c: "checkDocument (doc\<lparr>dSymbols := ?secs\<rparr>) = None" using assms(4) by (simp add: checkDocument_def)
  obtain cp where "newSearchableString (dContent doc) ?secs (contentPostings b) = (Inl (GoPanic ''index out of range''), cp)"
    using newSearchableString_malformed [OF assms(5,6,8), of "contentPostings b"] by (metis prod.collapse)
  then show ?thesis unfolding Add_def Let_def d using assms(1,7) c by (simp add: sortSecs_single)
qed

theorem Add_malformed_symbol_panics_witness:
  "fst (Add demoLib (demoDoc\<lparr>dSymbols := [\<lparr>Start = 4, End = 2\<rparr>]\<rparr>) demoEmpty) = Some (GoPanic ''index out of range'')"
  by (rule Add_malformed_symbol_panics [where e = 2, OF demoLib_sorts]) (simp_all add: demoDoc_def demo_noZero)

lemma joined_dotdot: "hd (splitByte slash (joinBytes [slash] (dotdotB # xs))) = dotdotB"
  by (cases xs) (simp_all add: dotdotB_def)

text \<open>C32: The check that a document lies in its subrepository accepts documents outside it: when the name
  and the path of the subrepository differ in their first element, \<open>filepath.Rel\<close> returns a path that
  starts with two dots and no error, and the check looks for an error or an unchanged name only.\<close>

theorem subrepo_check_accepts_outside:
  assumes "\<not> isRooted (Clean sub)" and "\<not> isRooted (Clean (dName doc))" and "Clean sub \<noteq> dotB" and "Clean (dName doc) \<noteq> Clean sub"
    and "pathElems (Clean sub) = x # xs" and "pathElems (Clean (dName doc)) = y # ys" and "x \<noteq> y" and "x \<noteq> dotdotB"
    and "hd (splitByte slash (dName doc)) \<noteq> dotdotB"
  shows "checkDocument (doc\<lparr>dSubRepositoryPath := sub\<rparr>) = checkDocument (doc\<lparr>dSubRepositoryPath := []\<rparr>)"
proof -
  have "relPath sub (dName doc) = Some (joinBytes [slash] (dotdotB # replicate (length xs) dotdotB @ y # ys))"
    using assms(1-8) by (simp add: relPath_def Let_def)
  moreover have "joinBytes [slash] (dotdotB # replicate (length xs) dotdotB @ y # ys) \<noteq> dName doc"
    using joined_dotdot assms(9) by metis
  ultimately show ?thesis by (simp add: checkDocument_def)
qed

theorem subrepo_check_accepts_outside_witness:
  "checkDocument (demoDoc\<lparr>dName := ascii ''other/f'', dSubRepositoryPath := ascii ''sub''\<rparr>) = None"
proof -
  have "checkDocument ((demoDoc\<lparr>dName := ascii ''other/f''\<rparr>)\<lparr>dSubRepositoryPath := ascii ''sub''\<rparr>) =
      checkDocument ((demoDoc\<lparr>dName := ascii ''other/f''\<rparr>)\<lparr>dSubRepositoryPath := []\<rparr>)"
    by (rule subrepo_check_accepts_outside [where x = "ascii ''sub''" and xs = "[]" and y = "ascii ''other''" and ys = "[ascii ''f'']"])
      (simp_all add: ascii_def Clean_def isRooted_def dotB_def dotdotB_def pathElems_def demoDoc_def)
  then show ?thesis by (simp add: checkDocument_def demoDoc_def)
qed

text \<open>C30: Adding a text with sorted sections that end within it translates the byte offsets of the sections
  to rune offsets in the shard, or fails exactly when some boundary lies inside a rune.\<close>

theorem section_boundaries_translated:
  assumes "length dat < 4294967296" and "sorted (flatBounds secs)" and "\<forall>b \<in> set (flatBounds secs). unat b \<le> length dat"
  shows "fst (newSearchableString dat secs pb) =
    (if \<forall>b \<in> set (flatBounds secs). atRune (runesOf dat) (unat b) then Inr (map (toRunes (pbRuneCount pb) dat) secs)
     else Inl (GoErr ''no rune for section boundary''))"
  by (rule newSearchableString_sections_eq [OF assms])

lemma demoUmlaut: "runesOf [0x61, 0xC3, 0xBC, 0x62] = [(0x61, 1), (0xFC, 2), (0x62, 1)]"
  by code_simp

theorem section_boundaries_translated_witness:
  "fst (newSearchableString [0x61, 0xC3, 0xBC, 0x62] [\<lparr>Start = 1, End = 3\<rparr>] newPostingsBuilder) = Inr [\<lparr>Start = 1, End = 2\<rparr>] \<and>
   fst (newSearchableString [0x61, 0xC3, 0xBC, 0x62] [\<lparr>Start = 1, End = 2\<rparr>] newPostingsBuilder) =
     Inl (GoErr ''no rune for section boundary'')"
  by (subst section_boundaries_translated; (subst section_boundaries_translated)?)
    (simp_all add: demoUmlaut toRunes_def newPostingsBuilder_def)

end
