(* ===== verification/Go_Heap.thy ===== *)
theory Go_Heap
  imports Zoekt_Prelude "HOL-Library.Multiset" "HOL-Library.Monad_Syntax"
begin

text \<open>
  The functions of \<^verbatim>\<open>container/heap\<close>. They see the container only through the methods \<open>Less\<close> and
  \<open>Swap\<close> of the interface, which panic (\<open>None\<close>) on an index out of range. The locale states what
  the methods promise, and the lemmas in it that the functions return and restore the heap order.
\<close>

section \<open>Sifting\<close>

function heapUp :: "(nat \<Rightarrow> nat \<Rightarrow> 's \<Rightarrow> bool option) \<Rightarrow> (nat \<Rightarrow> nat \<Rightarrow> 's \<Rightarrow> 's option) \<Rightarrow> nat \<Rightarrow> 's \<Rightarrow> 's option" where
  "heapUp Less Swap j s =
     (let i = (j - 1) div 2 in
      if i = j then Some s
      else do {
        b \<leftarrow> Less j i s;
        if \<not> b then Some s
        else do {
          s' \<leftarrow> Swap i j s;
          heapUp Less Swap i s'
        }
      })"
  by pat_completeness auto
termination by (relation "measure (\<lambda>(Less, Swap, j, s). j)") auto

declare heapUp.simps [simp del]

text \<open>The result has the final position of the element.\<close>

function heapDown :: "(nat \<Rightarrow> nat \<Rightarrow> 's \<Rightarrow> bool option) \<Rightarrow> (nat \<Rightarrow> nat \<Rightarrow> 's \<Rightarrow> 's option) \<Rightarrow> nat \<Rightarrow> nat \<Rightarrow> 's \<Rightarrow> (nat \<times> 's) option" where
  "heapDown Less Swap n i s =
     (let j1 = 2 * i + 1 in
      if n \<le> j1 then Some (i, s)
      else do {
        b2 \<leftarrow> (if j1 + 1 < n then Less (j1 + 1) j1 s else Some False);
        let j = (if b2 then j1 + 1 else j1);
        b \<leftarrow> Less j i s;
        if \<not> b then Some (i, s)
        else do {
          s' \<leftarrow> Swap i j s;
          heapDown Less Swap n j s'
        }
      })"
  by pat_completeness auto
termination
  by (relation "measure (\<lambda>(Less, Swap, n, i, s). n - i)") (auto split: if_splits)

declare heapDown.simps [simp del]

section \<open>Heap order\<close>

abbreviation parent :: "nat \<Rightarrow> nat" where "parent k \<equiv> (k - 1) div 2"

definition heapTo :: "('k \<Rightarrow> 'o :: linorder) \<Rightarrow> nat \<Rightarrow> 'k list \<Rightarrow> bool" where
  "heapTo f n xs \<longleftrightarrow> (\<forall>k. 0 < k \<longrightarrow> k < n \<longrightarrow> f (xs ! parent k) \<le> f (xs ! k))"

text \<open>Heap order but for the entry at \<open>i\<close>.\<close>

definition holeAt :: "('k \<Rightarrow> 'o :: linorder) \<Rightarrow> nat \<Rightarrow> nat \<Rightarrow> 'k list \<Rightarrow> bool" where
  "holeAt f n i xs \<longleftrightarrow> (\<forall>k. 0 < k \<longrightarrow> k < n \<longrightarrow>
     (k \<noteq> i \<longrightarrow> parent k \<noteq> i \<longrightarrow> f (xs ! parent k) \<le> f (xs ! k)) \<and>
     (parent k = i \<longrightarrow> 0 < i \<longrightarrow> f (xs ! parent i) \<le> f (xs ! k)))"

definition belowOk :: "('k \<Rightarrow> 'o :: linorder) \<Rightarrow> nat \<Rightarrow> nat \<Rightarrow> 'k list \<Rightarrow> bool" where
  "belowOk f n i xs \<longleftrightarrow> (\<forall>k. 0 < k \<longrightarrow> k < n \<longrightarrow> parent k = i \<longrightarrow> f (xs ! i) \<le> f (xs ! k))"

definition aboveOk :: "('k \<Rightarrow> 'o :: linorder) \<Rightarrow> nat \<Rightarrow> nat \<Rightarrow> 'k list \<Rightarrow> bool" where
  "aboveOk f n i xs \<longleftrightarrow> (0 < i \<longrightarrow> i < n \<longrightarrow> f (xs ! parent i) \<le> f (xs ! i))"

definition swapped :: "nat \<Rightarrow> nat \<Rightarrow> 'k list \<Rightarrow> 'k list" where
  "swapped i j xs = xs[i := xs ! j, j := xs ! i]"

lemma length_swapped [simp]: "length (swapped i j xs) = length xs"
  by (simp add: swapped_def)

lemma mset_swapped: "i < length xs \<Longrightarrow> j < length xs \<Longrightarrow> mset (swapped i j xs) = mset xs"
  by (simp add: swapped_def mset_swap)

lemma nth_swapped: "i < length xs \<Longrightarrow> j < length xs \<Longrightarrow> k < length xs \<Longrightarrow>
  swapped i j xs ! k = (if k = j then xs ! i else if k = i then xs ! j else xs ! k)"
  by (simp add: swapped_def nth_list_update)

lemma heap_whole: "holeAt f n i xs \<Longrightarrow> aboveOk f n i xs \<Longrightarrow> belowOk f n i xs \<Longrightarrow> heapTo f n xs"
  unfolding holeAt_def aboveOk_def belowOk_def heapTo_def by metis

lemma heap_hole: "heapTo f n xs \<Longrightarrow> holeAt f n i xs"
  unfolding holeAt_def heapTo_def
  by (metis gr_zeroI less_trans order_trans div_less_dividend div_le_dividend diff_less le_less_trans less_imp_diff_less zero_less_one)

lemma parent_less: "0 < k \<Longrightarrow> parent k < k"
  by auto

lemma holeD:
  assumes "holeAt f n i xs" and "0 < k" and "k < n"
  shows "k \<noteq> i \<Longrightarrow> parent k \<noteq> i \<Longrightarrow> f (xs ! parent k) \<le> f (xs ! k)"
    and "parent k = i \<Longrightarrow> 0 < i \<Longrightarrow> f (xs ! parent i) \<le> f (xs ! k)"
  using assms unfolding holeAt_def by blast+

lemma holeAt_cong:
  assumes "holeAt f n i xs" and "\<And>k. k < n \<Longrightarrow> k \<noteq> i \<Longrightarrow> g (xs ! k) = f (xs ! k)"
  shows "holeAt g n i xs"
  unfolding holeAt_def
proof (intro allI impI conjI)
  fix k assume k: "0 < k" "k < n"
  have pk: "parent k < k" using k(1) by (rule parent_less)
  then have pkn: "parent k < n" using k(2) by simp
  show "g (xs ! parent k) \<le> g (xs ! k)" if "k \<noteq> i" "parent k \<noteq> i"
    using holeD(1) [OF assms(1) k that] assms(2) [OF k(2) that(1)] assms(2) [OF pkn that(2)] by simp
  show "g (xs ! parent i) \<le> g (xs ! k)" if "parent k = i" "0 < i"
  proof -
    have "parent i < i" using that(2) by (rule parent_less)
    then show ?thesis using holeD(2) [OF assms(1) k that] assms(2) [of k] assms(2) [of "parent i"] that(1) k pk pkn by auto
  qed
qed

lemma heap_push:
  assumes "heapTo f (length xs) xs"
  shows "holeAt f (Suc (length xs)) (length xs) (xs @ [x])" and "belowOk f (Suc (length xs)) (length xs) (xs @ [x])"
proof -
  have np: "parent k \<noteq> length xs" if "0 < k" "k < Suc (length xs)" for k using parent_less [OF that(1)] that(2) by linarith
  show "belowOk f (Suc (length xs)) (length xs) (xs @ [x])" unfolding belowOk_def using np by blast
  show "holeAt f (Suc (length xs)) (length xs) (xs @ [x])" unfolding holeAt_def
  proof (intro allI impI conjI)
    fix k assume k: "0 < k" "k < Suc (length xs)"
    have pk: "parent k < k" using k(1) by (rule parent_less)
    show "f ((xs @ [x]) ! parent k) \<le> f ((xs @ [x]) ! k)" if "k \<noteq> length xs"
    proof -
      have "k < length xs" "parent k < length xs" using k(2) that pk by linarith+
      then show ?thesis using assms k(1) by (simp add: nth_append heapTo_def)
    qed
    show "f ((xs @ [x]) ! parent (length xs)) \<le> f ((xs @ [x]) ! k)" if "parent k = length xs" using np [OF k] that by blast
  qed
qed

lemma heap_pop_hole:
  assumes "heapTo f (Suc n) xs" and "length xs = Suc n"
  shows "holeAt f n 0 (swapped 0 n xs)"
  unfolding holeAt_def
proof (intro allI impI conjI)
  fix k assume k: "0 < k" "k < n"
  have pk: "parent k < k" using k(1) by (rule parent_less)
  show "f (swapped 0 n xs ! parent k) \<le> f (swapped 0 n xs ! k)" if "k \<noteq> 0" "parent k \<noteq> 0"
  proof -
    have "swapped 0 n xs ! k = xs ! k" "swapped 0 n xs ! parent k = xs ! parent k"
      using nth_swapped [of 0 xs n k] nth_swapped [of 0 xs n "parent k"] assms(2) k pk that by auto
    then show ?thesis using assms(1) k by (simp add: heapTo_def)
  qed
qed simp

lemma swap_up:
  assumes hole: "holeAt f n j xs" and below: "belowOk f n j xs" and n: "n \<le> length xs" "j < n" "0 < j"
    and lt: "f (xs ! j) < f (xs ! parent j)"
  shows "holeAt f n (parent j) (swapped (parent j) j xs)" and "belowOk f n (parent j) (swapped (parent j) j xs)"
proof -
  let ?i = "parent j" and ?ys = "swapped (parent j) j xs"
  have ij: "?i < j" using n(3) by auto
  have y: "k < n \<Longrightarrow> ?ys ! k = (if k = j then xs ! ?i else if k = ?i then xs ! j else xs ! k)" for k
    using n ij by (simp add: nth_swapped)
  have sib: "f (xs ! ?i) \<le> f (xs ! k)" if "0 < k" "k < n" "parent k = ?i" "k \<noteq> j" for k
    using holeD(1) [OF hole that(1,2)] that ij by auto
  have pi: "f (xs ! parent ?i) \<le> f (xs ! ?i)" if "0 < ?i"
  proof -
    have "parent ?i < ?i" using that by (rule parent_less)
    then show ?thesis using holeD(1) [OF hole that] n(2) ij by auto
  qed
  show "holeAt f n ?i ?ys" unfolding holeAt_def
  proof (intro allI impI conjI)
    fix k assume k: "0 < k" "k < n"
    have pk: "parent k < k" using k(1) by (rule parent_less)
    then have pkn: "parent k < n" using k(2) by simp
    show "f (?ys ! parent k) \<le> f (?ys ! k)" if "k \<noteq> ?i" "parent k \<noteq> ?i"
    proof (cases "parent k = j")
      case True
      have "f (xs ! ?i) \<le> f (xs ! k)" by (rule holeD(2) [OF hole k True n(3)])
      then show ?thesis using True that pk pkn k y [OF k(2)] y [OF pkn] by auto
    next
      case False
      have "k \<noteq> j" using that(2) by auto
      then show ?thesis using holeD(1) [OF hole k] False that y [OF k(2)] y [OF pkn] by auto
    qed
    show "f (?ys ! parent ?i) \<le> f (?ys ! k)" if "parent k = ?i" "0 < ?i"
    proof -
      have "parent ?i < ?i" using that(2) by (rule parent_less)
      moreover have "parent ?i < n" using calculation ij n(2) by linarith
      ultimately have "?ys ! parent ?i = xs ! parent ?i" using y [of "parent ?i"] ij by auto
      moreover have "f (xs ! parent ?i) \<le> f (?ys ! k)"
        using pi [OF that(2)] sib [OF k that(1)] y [OF k(2)] pk that(1) by (cases "k = j") (auto intro: order_trans)
      ultimately show ?thesis by simp
    qed
  qed
  show "belowOk f n ?i ?ys" unfolding belowOk_def
  proof (intro allI impI)
    fix k assume k: "0 < k" "k < n" "parent k = ?i"
    have pk: "?i < k" using parent_less [OF k(1)] k(3) by simp
    have "?ys ! ?i = xs ! j" using y [of ?i] ij n(2) by auto
    moreover have "f (xs ! j) \<le> f (?ys ! k)"
      using lt sib [OF k] y [OF k(2)] pk by (cases "k = j") (auto intro: less_imp_le order_trans)
    ultimately show "f (?ys ! ?i) \<le> f (?ys ! k)" by simp
  qed
qed

lemma swap_down:
  assumes hole: "holeAt f n i xs" and n: "n \<le> length xs" "j < n" "0 < j" "parent j = i"
    and lt: "f (xs ! j) < f (xs ! i)" and least: "\<And>k. 0 < k \<Longrightarrow> k < n \<Longrightarrow> parent k = i \<Longrightarrow> f (xs ! j) \<le> f (xs ! k)"
  shows "holeAt f n j (swapped i j xs)" and "aboveOk f n j (swapped i j xs)"
proof -
  let ?ys = "swapped i j xs"
  have ij: "i < j" using parent_less [OF n(3)] n(4) by simp
  have y: "k < n \<Longrightarrow> ?ys ! k = (if k = j then xs ! i else if k = i then xs ! j else xs ! k)" for k
    using n ij by (simp add: nth_swapped)
  show "aboveOk f n j ?ys" unfolding aboveOk_def using y [OF n(2)] y [of i] ij n(2,4) lt by auto
  show "holeAt f n j ?ys" unfolding holeAt_def
  proof (intro allI impI conjI)
    fix k assume k: "0 < k" "k < n"
    have pk: "parent k < k" using k(1) by (rule parent_less)
    then have pkn: "parent k < n" using k(2) by simp
    show "f (?ys ! parent k) \<le> f (?ys ! k)" if nk: "k \<noteq> j" "parent k \<noteq> j"
    proof (cases "k = i")
      case True
      then have "f (xs ! parent i) \<le> f (xs ! j)" using holeD(2) [OF hole n(3,2,4)] k(1) by simp
      then show ?thesis using True nk pk y [OF k(2)] y [OF pkn] by auto
    next
      case False
      then show ?thesis using holeD(1) [OF hole k] least [OF k] nk y [OF k(2)] y [OF pkn] by auto
    qed
    show "f (?ys ! parent j) \<le> f (?ys ! k)" if "parent k = j" "0 < j"
    proof -
      have "k \<noteq> i" "k \<noteq> j" using pk that ij by auto
      then have "f (xs ! j) \<le> f (xs ! k)" using holeD(1) [OF hole k] that ij by auto
      then show ?thesis using y [OF k(2)] y [of i] \<open>k \<noteq> i\<close> \<open>k \<noteq> j\<close> ij n(2,4) by auto
    qed
  qed
qed

lemma heap_root_least:
  assumes "heapTo f n xs" and "k < n"
  shows "f (xs ! 0) \<le> f (xs ! k)"
  using assms(2)
proof (induction k rule: less_induct)
  case (less k)
  show ?case
  proof (cases "k = 0")
    case False
    then have "parent k < k" by (intro parent_less) simp
    then have "f (xs ! 0) \<le> f (xs ! parent k)" using less by simp
    also have "\<dots> \<le> f (xs ! k)" using assms(1) less.prems False by (simp add: heapTo_def)
    finally show ?thesis .
  qed simp
qed

section \<open>The interface\<close>

locale heap_container =
  fixes Less :: "nat \<Rightarrow> nat \<Rightarrow> 's \<Rightarrow> bool option" and Swap :: "nat \<Rightarrow> nat \<Rightarrow> 's \<Rightarrow> 's option"
    and elems :: "'s \<Rightarrow> 'k list" and key :: "'s \<Rightarrow> 'k \<Rightarrow> 'o :: linorder" and good :: "'s \<Rightarrow> bool" and frame :: "'s \<Rightarrow> 'f"
  assumes Less_spec: "good s \<Longrightarrow> i < length (elems s) \<Longrightarrow> j < length (elems s) \<Longrightarrow>
      Less i j s = Some (key s (elems s ! i) < key s (elems s ! j))"
    and Swap_spec: "good s \<Longrightarrow> i < length (elems s) \<Longrightarrow> j < length (elems s) \<Longrightarrow>
      \<exists>s'. Swap i j s = Some s' \<and> good s' \<and> elems s' = swapped i j (elems s) \<and> key s' = key s \<and> frame s' = frame s"
begin

lemma up_heap:
  assumes "good s" and "j < length (elems s)" and "holeAt (key s) (length (elems s)) j (elems s)"
    and "belowOk (key s) (length (elems s)) j (elems s)"
  shows "\<exists>s'. heapUp Less Swap j s = Some s' \<and> good s' \<and> key s' = key s \<and> frame s' = frame s \<and> mset (elems s') = mset (elems s) \<and>
    heapTo (key s) (length (elems s)) (elems s')"
  using assms
proof (induction j arbitrary: s rule: less_induct)
  case (less j)
  show ?case
  proof (cases "j = 0")
    case True
    have "heapTo (key s) (length (elems s)) (elems s)"
      using heap_whole [OF less.prems(3) _ less.prems(4)] by (simp add: True aboveOk_def)
    then show ?thesis using True less.prems(1) by (simp add: heapUp.simps)
  next
    case False
    then have pj: "parent j < j" by (intro parent_less) simp
    then have L: "Less j (parent j) s = Some (key s (elems s ! j) < key s (elems s ! parent j))"
      using less.prems(1,2) by (intro Less_spec) simp_all
    show ?thesis
    proof (cases "key s (elems s ! j) < key s (elems s ! parent j)")
      case lt: True
      obtain s1 where s1: "Swap (parent j) j s = Some s1" "good s1" "elems s1 = swapped (parent j) j (elems s)" "key s1 = key s" "frame s1 = frame s"
        using Swap_spec [OF less.prems(1), of "parent j" j] less.prems(2) pj by auto
      have "holeAt (key s1) (length (elems s1)) (parent j) (elems s1)" "belowOk (key s1) (length (elems s1)) (parent j) (elems s1)"
        using swap_up [OF less.prems(3,4) le_refl less.prems(2) _ lt] False s1(3,4) by simp_all
      moreover have "parent j < length (elems s1)" using pj less.prems(2) s1(3) by simp
      ultimately obtain s' where s': "heapUp Less Swap (parent j) s1 = Some s'" "good s'" "key s' = key s1" "frame s' = frame s1"
        "mset (elems s') = mset (elems s1)" "heapTo (key s1) (length (elems s1)) (elems s')" using less.IH [OF pj s1(2)] by blast
      have "heapUp Less Swap j s = Some s'" using False pj L lt s1(1) s'(1) by (subst heapUp.simps) (simp add: Let_def)
      then show ?thesis using s' s1 pj less.prems(2) by (simp add: mset_swapped)
    next
      case ge: False
      then have "aboveOk (key s) (length (elems s)) j (elems s)" by (simp add: aboveOk_def not_less)
      then have "heapTo (key s) (length (elems s)) (elems s)" by (rule heap_whole [OF less.prems(3) _ less.prems(4)])
      moreover have "heapUp Less Swap j s = Some s" using False pj L ge by (subst heapUp.simps) (simp add: Let_def)
      ultimately show ?thesis using less.prems(1) by simp
    qed
  qed
qed

text \<open>One round of sifting down: no child is smaller, or the smallest child moves up.\<close>

lemma down_step:
  assumes g: "good s" and n: "n \<le> length (elems s)"
  shows "heapDown Less Swap n i s = Some (i, s) \<and> belowOk (key s) n i (elems s) \<or>
    (\<exists>j s1. 0 < j \<and> j < n \<and> parent j = i \<and> key s (elems s ! j) < key s (elems s ! i) \<and>
       (\<forall>k. 0 < k \<longrightarrow> k < n \<longrightarrow> parent k = i \<longrightarrow> key s (elems s ! j) \<le> key s (elems s ! k)) \<and>
       good s1 \<and> elems s1 = swapped i j (elems s) \<and> key s1 = key s \<and> frame s1 = frame s \<and>
       heapDown Less Swap n i s = heapDown Less Swap n j s1)"
proof (cases "n \<le> 2 * i + 1")
  case True
  then have "belowOk (key s) n i (elems s)" by (auto simp: belowOk_def)
  then show ?thesis using True by (simp add: heapDown.simps)
next
  case False
  define j1 where "j1 = 2 * i + 1"
  have j1: "j1 < n" "parent j1 = i" "i < j1" using False by (simp_all add: j1_def)
  have kids: "k = j1 \<or> k = j1 + 1" if "0 < k" "parent k = i" for k using that by (auto simp: j1_def)
  define b2 where "b2 \<longleftrightarrow> j1 + 1 < n \<and> key s (elems s ! (j1 + 1)) < key s (elems s ! j1)"
  have B2: "(if j1 + 1 < n then Less (j1 + 1) j1 s else Some False) = Some b2"
    using Less_spec [OF g, of "j1 + 1" j1] n j1(1) by (auto simp: b2_def)
  define j where "j = (if b2 then j1 + 1 else j1)"
  have j: "0 < j" "j < n" "parent j = i" "i < j" using j1 by (auto simp: j_def b2_def j1_def)
  have least: "key s (elems s ! j) \<le> key s (elems s ! k)" if "0 < k" "k < n" "parent k = i" for k
    using kids [OF that(1,3)] that(2) by (auto simp: j_def b2_def)
  have L: "Less j i s = Some (key s (elems s ! j) < key s (elems s ! i))" using g j n by (intro Less_spec) simp_all
  have step: "heapDown Less Swap n i s = (if key s (elems s ! j) < key s (elems s ! i)
      then Option.bind (Swap i j s) (heapDown Less Swap n j) else Some (i, s))"
    unfolding heapDown.simps [of _ _ n i s] Let_def j1_def [symmetric] B2 Option.bind.simps j_def [symmetric] L using j1(1) by simp
  show ?thesis
  proof (cases "key s (elems s ! j) < key s (elems s ! i)")
    case True
    obtain s1 where "Swap i j s = Some s1" "good s1" "elems s1 = swapped i j (elems s)" "key s1 = key s" "frame s1 = frame s"
      using Swap_spec [OF g, of i j] j n by auto
    then show ?thesis using step j least True by (intro disjI2 exI [of _ j] exI [of _ s1]) simp
  next
    case ge: False
    then have "belowOk (key s) n i (elems s)" using least by (force simp: belowOk_def)
    then show ?thesis using step ge by simp
  qed
qed

lemma down_heap:
  assumes "good s" and "n \<le> length (elems s)" and "holeAt (key s) n i (elems s)" and "aboveOk (key s) n i (elems s)"
  shows "\<exists>i' s'. heapDown Less Swap n i s = Some (i', s') \<and> i \<le> i' \<and> good s' \<and> key s' = key s \<and> frame s' = frame s \<and> mset (elems s') = mset (elems s) \<and>
    drop n (elems s') = drop n (elems s) \<and> heapTo (key s) n (elems s')"
  using assms
proof (induction "n - i" arbitrary: i s rule: less_induct)
  case less
  from down_step [OF less.prems(1,2), of i] show ?case
  proof (elim disjE conjE exE)
    assume "heapDown Less Swap n i s = Some (i, s)" "belowOk (key s) n i (elems s)"
    then show ?thesis using less.prems heap_whole by auto
  next
    fix j s1
    assume j: "0 < j" "j < n" "parent j = i" "key s (elems s ! j) < key s (elems s ! i)"
      and least: "\<forall>k. 0 < k \<longrightarrow> k < n \<longrightarrow> parent k = i \<longrightarrow> key s (elems s ! j) \<le> key s (elems s ! k)"
      and s1: "good s1" "elems s1 = swapped i j (elems s)" "key s1 = key s" "frame s1 = frame s" and e: "heapDown Less Swap n i s = heapDown Less Swap n j s1"
    have ij: "i < j" using parent_less [OF j(1)] j(3) by simp
    have "holeAt (key s1) n j (elems s1)" "aboveOk (key s1) n j (elems s1)"
      using swap_down [OF less.prems(3,2) j(2,1,3,4)] least s1(2,3) by simp_all
    moreover have "n - j < n - i" "n \<le> length (elems s1)" using ij j(2) less.prems(2) s1(2) by simp_all
    ultimately obtain i' s' where s': "heapDown Less Swap n j s1 = Some (i', s')" "j \<le> i'" "good s'" "key s' = key s1" "frame s' = frame s1"
      "mset (elems s') = mset (elems s1)" "drop n (elems s') = drop n (elems s1)" "heapTo (key s1) n (elems s')"
      using less.hyps [of j s1] s1(1) by blast
    have "drop n (elems s1) = drop n (elems s)" using ij j(2) s1(2) by (simp add: swapped_def)
    moreover have "mset (elems s1) = mset (elems s)" using ij j(2) less.prems(2) s1(2) by (simp add: mset_swapped)
    ultimately show ?thesis using s' s1(3,4) e ij by (intro exI [of _ i'] exI [of _ s']) simp
  qed
qed

end

section \<open>The functions\<close>

definition heapFix :: "(nat \<Rightarrow> nat \<Rightarrow> 's \<Rightarrow> bool option) \<Rightarrow> (nat \<Rightarrow> nat \<Rightarrow> 's \<Rightarrow> 's option) \<Rightarrow> nat \<Rightarrow> nat \<Rightarrow> 's \<Rightarrow> 's option" where
  "heapFix Less Swap n i s = do {
     (i', s') \<leftarrow> heapDown Less Swap n i s;
     if i < i' then Some s' else heapUp Less Swap i s'
   }"

context heap_container
begin

lemma fix_heap:
  assumes "good s" and "i < length (elems s)" and "holeAt (key s) (length (elems s)) i (elems s)"
  shows "\<exists>s'. heapFix Less Swap (length (elems s)) i s = Some s' \<and> good s' \<and> key s' = key s \<and> frame s' = frame s \<and> mset (elems s') = mset (elems s) \<and>
    heapTo (key s) (length (elems s)) (elems s')"
proof -
  let ?n = "length (elems s)"
  from down_step [OF assms(1) le_refl, of i] show ?thesis
  proof (elim disjE conjE exE)
    assume "heapDown Less Swap ?n i s = Some (i, s)" "belowOk (key s) ?n i (elems s)"
    then show ?thesis using up_heap [OF assms(1,2,3)] by (simp add: heapFix_def)
  next
    fix j s1
    assume j: "0 < j" "j < ?n" "parent j = i" "key s (elems s ! j) < key s (elems s ! i)"
      and least: "\<forall>k. 0 < k \<longrightarrow> k < ?n \<longrightarrow> parent k = i \<longrightarrow> key s (elems s ! j) \<le> key s (elems s ! k)"
      and s1: "good s1" "elems s1 = swapped i j (elems s)" "key s1 = key s" "frame s1 = frame s" and e: "heapDown Less Swap ?n i s = heapDown Less Swap ?n j s1"
    have ij: "i < j" using parent_less [OF j(1)] j(3) by simp
    have "holeAt (key s1) ?n j (elems s1)" "aboveOk (key s1) ?n j (elems s1)"
      using swap_down [OF assms(3) le_refl j(2,1,3,4)] least s1(2,3) by simp_all
    then obtain i' s' where s': "heapDown Less Swap ?n j s1 = Some (i', s')" "j \<le> i'" "good s'" "key s' = key s1" "frame s' = frame s1"
      "mset (elems s') = mset (elems s1)" "heapTo (key s1) ?n (elems s')"
      using down_heap [OF s1(1), of ?n j] s1(2) by auto
    have "i < i'" using s'(2) ij by simp
    moreover have "mset (elems s1) = mset (elems s)" using ij j(2) s1(2) by (simp add: mset_swapped)
    ultimately show ?thesis using s' s1(3,4) e by (simp add: heapFix_def)
  qed
qed

end

end
