(* ===== verification/Zoekt_Queue.thy ===== *)
theory Zoekt_Queue
  imports Go_Heap "HOL-Library.Product_Lexorder"
begin

text \<open>
  The model of \<^verbatim>\<open>cmd/zoekt-sourcegraph-indexserver/queue.go\<close>: the priority queue of repositories to
  index. An item is reached by two pointers, from the map of all items and from the heap; the heap
  therefore holds the names of the items, and the items are in the map. Every operation holds the
  mutex from start to end, so concurrent calls are some sequence of the operations.
\<close>

section \<open>State\<close>

record queueItem =
  qiRepoName :: bytes
  indexedCommit :: bytes
  latestCommit :: bytes
  heapIdx :: int
  itemSeq :: "64 word"

record Queue =
  qItems :: "(bytes \<times> queueItem) list option"
  qPq :: "bytes list"
  qSeq :: "64 word"

definition emptyQueue :: Queue where
  "emptyQueue = \<lparr>qItems = None, qPq = [], qSeq = 0\<rparr>"

definition itemOf :: "Queue \<Rightarrow> bytes \<Rightarrow> queueItem option" where
  "itemOf q nm = (case qItems q of None \<Rightarrow> None | Some m \<Rightarrow> map_of m nm)"

definition setItem :: "bytes \<Rightarrow> queueItem \<Rightarrow> Queue \<Rightarrow> Queue" where
  "setItem nm it q = q\<lparr>qItems := Some (mapSet nm it (case qItems q of None \<Rightarrow> [] | Some m \<Rightarrow> m))\<rparr>"

section \<open>The heap of items\<close>

definition pqItem :: "nat \<Rightarrow> Queue \<Rightarrow> queueItem option" where
  "pqItem i q = (if i < length (qPq q) then itemOf q (qPq q ! i) else None)"

definition qLess :: "nat \<Rightarrow> nat \<Rightarrow> Queue \<Rightarrow> bool option" where
  "qLess i j q = do {
     x \<leftarrow> pqItem i q;
     y \<leftarrow> pqItem j q;
     Some (if (indexedCommit x = latestCommit x) = (indexedCommit y = latestCommit y)
           then itemSeq x <s itemSeq y else indexedCommit x \<noteq> latestCommit x)
   }"

definition setHeapIdx :: "nat \<Rightarrow> int \<Rightarrow> Queue \<Rightarrow> Queue option" where
  "setHeapIdx i idx q = map_option (\<lambda>it. setItem (qPq q ! i) (it\<lparr>heapIdx := idx\<rparr>) q) (pqItem i q)"

definition qSwap :: "nat \<Rightarrow> nat \<Rightarrow> Queue \<Rightarrow> Queue option" where
  "qSwap i j q = (if i < length (qPq q) \<and> j < length (qPq q)
     then Option.bind (setHeapIdx i (int i) (q\<lparr>qPq := swapped i j (qPq q)\<rparr>)) (setHeapIdx j (int j))
     else None)"

definition qPush :: "bytes \<Rightarrow> Queue \<Rightarrow> Queue option" where
  "qPush nm q = map_option (\<lambda>it. (setItem nm (it\<lparr>heapIdx := int (length (qPq q))\<rparr>) q)\<lparr>qPq := qPq q @ [nm]\<rparr>) (itemOf q nm)"

definition qPopLast :: "Queue \<Rightarrow> (queueItem \<times> Queue) option" where
  "qPopLast q = do {
     item \<leftarrow> pqItem (length (qPq q) - 1) q;
     let item' = item\<lparr>heapIdx := - 1\<rparr>;
     Some (item', (setItem (last (qPq q)) item' q)\<lparr>qPq := butlast (qPq q)\<rparr>)
   }"

definition heapPush :: "bytes \<Rightarrow> Queue \<Rightarrow> Queue option" where
  "heapPush nm q = Option.bind (qPush nm q) (\<lambda>q'. heapUp qLess qSwap (length (qPq q') - 1) q')"

definition heapPop :: "Queue \<Rightarrow> (queueItem \<times> Queue) option" where
  "heapPop q = do {
     let n = length (qPq q) - 1;
     q1 \<leftarrow> qSwap 0 n q;
     (i, q2) \<leftarrow> heapDown qLess qSwap n 0 q1;
     qPopLast q2
   }"

section \<open>The queue\<close>

definition getItem :: "bytes \<Rightarrow> Queue \<Rightarrow> queueItem \<times> Queue" where
  "getItem nm q =
     (let q1 = (case qItems q of None \<Rightarrow> q\<lparr>qItems := Some [], qPq := []\<rparr> | Some m \<Rightarrow> q) in
      case itemOf q1 nm of
        Some it \<Rightarrow> (it, q1)
      | None \<Rightarrow> let it = \<lparr>qiRepoName = nm, indexedCommit = [], latestCommit = [], heapIdx = - 1, itemSeq = 0\<rparr>
          in (it, setItem nm it q1))"

definition Pop :: "Queue \<Rightarrow> ((bytes \<times> bytes) option \<times> Queue) option" where
  "Pop q = (if qPq q = [] then Some (None, q)
     else map_option (\<lambda>(it, q'). (Some (qiRepoName it, latestCommit it), q')) (heapPop q))"

definition Len :: "Queue \<Rightarrow> nat" where
  "Len q = length (qPq q)"

definition AddOrUpdate :: "bytes \<Rightarrow> bytes \<Rightarrow> Queue \<Rightarrow> Queue option" where
  "AddOrUpdate nm commit q =
     (let (item, q1) = getItem nm q; item1 = item\<lparr>latestCommit := commit\<rparr> in
      if heapIdx item1 < 0
      then heapPush nm (setItem nm (item1\<lparr>itemSeq := qSeq q1 + 1\<rparr>) (q1\<lparr>qSeq := qSeq q1 + 1\<rparr>))
      else heapFix qLess qSwap (length (qPq q1)) (nat (heapIdx item1)) (setItem nm item1 q1))"

definition SetIndexed :: "bytes \<Rightarrow> bytes \<Rightarrow> Queue \<Rightarrow> Queue option" where
  "SetIndexed nm indexed q =
     (let (item, q1) = getItem nm q; item1 = item\<lparr>indexedCommit := indexed\<rparr>; q2 = setItem nm item1 q1 in
      if 0 \<le> heapIdx item1 then heapFix qLess qSwap (length (qPq q2)) (nat (heapIdx item1)) q2 else Some q2)"

section \<open>Items and the heap agree\<close>

definition itemKey :: "queueItem \<Rightarrow> bool \<times> int" where
  "itemKey it = (indexedCommit it = latestCommit it, sint (itemSeq it))"

definition qKey :: "Queue \<Rightarrow> bytes \<Rightarrow> bool \<times> int" where
  "qKey q nm = (case itemOf q nm of None \<Rightarrow> (True, 0) | Some it \<Rightarrow> itemKey it)"

text \<open>Everything but the places in the heap.\<close>

definition qFrame :: "Queue \<Rightarrow> 64 word \<times> (bytes \<Rightarrow> queueItem option)" where
  "qFrame q = (qSeq q, \<lambda>nm. map_option (heapIdx_update (\<lambda>_. 0)) (itemOf q nm))"

definition linked :: "Queue \<Rightarrow> bool" where
  "linked q \<longleftrightarrow> distinct (qPq q) \<and>
     (\<forall>i < length (qPq q). \<exists>it. itemOf q (qPq q ! i) = Some it \<and> heapIdx it = int i) \<and>
     (\<forall>nm it. itemOf q nm = Some it \<longrightarrow> qiRepoName it = nm \<and> (nm \<notin> set (qPq q) \<longrightarrow> heapIdx it = - 1))"

lemma itemOf_setItem [simp]: "itemOf (setItem nm it q) = (itemOf q)(nm \<mapsto> it)"
  by (rule ext) (simp add: itemOf_def setItem_def split: option.splits)

lemma setItem_pq [simp]: "qPq (setItem nm it q) = qPq q" "qSeq (setItem nm it q) = qSeq q"
  by (simp_all add: setItem_def)

lemma itemOf_pq [simp]: "itemOf (q\<lparr>qPq := pq\<rparr>) = itemOf q" "itemOf (q\<lparr>qSeq := n\<rparr>) = itemOf q"
  by (simp_all add: itemOf_def [abs_def])

lemma linked_item:
  assumes "linked q" and "i < length (qPq q)"
  obtains it where "itemOf q (qPq q ! i) = Some it" and "heapIdx it = int i" and "qiRepoName it = qPq q ! i"
  using assms unfolding linked_def by metis

lemma qLess_spec:
  assumes "linked q" and "i < length (qPq q)" and "j < length (qPq q)"
  shows "qLess i j q = Some (qKey q (qPq q ! i) < qKey q (qPq q ! j))"
proof -
  obtain x y where "itemOf q (qPq q ! i) = Some x" "itemOf q (qPq q ! j) = Some y" using linked_item assms by metis
  then show ?thesis using assms by (auto simp: qLess_def pqItem_def qKey_def itemKey_def word_sless_alt less_prod_def)
qed

lemma qSwap_spec:
  assumes l: "linked q" and i: "i < length (qPq q)" and j: "j < length (qPq q)"
  shows "\<exists>q'. qSwap i j q = Some q' \<and> linked q' \<and> qPq q' = swapped i j (qPq q) \<and> qKey q' = qKey q \<and> qFrame q' = qFrame q"
proof -
  obtain x where x: "itemOf q (qPq q ! i) = Some x" "qiRepoName x = qPq q ! i" using linked_item [OF l i] by metis
  obtain y where y: "itemOf q (qPq q ! j) = Some y" "qiRepoName y = qPq q ! j" using linked_item [OF l j] by metis
  let ?ys = "swapped i j (qPq q)"
  have ys: "?ys ! i = qPq q ! j" "?ys ! j = qPq q ! i" "length ?ys = length (qPq q)" "set ?ys = set (qPq q)"
    using i j by (simp_all add: nth_swapped) (metis mset_swapped mset_eq_setD)
  have d: "distinct ?ys" using l i j by (metis linked_def mset_swapped mset_eq_imp_distinct_iff)
  show ?thesis
  proof (cases "i = j")
    case True
    let ?q = "setItem (qPq q ! i) (x\<lparr>heapIdx := int i\<rparr>) (setItem (qPq q ! i) (x\<lparr>heapIdx := int i\<rparr>) (q\<lparr>qPq := ?ys\<rparr>))"
    have sw: "?ys = qPq q" using True by (simp add: swapped_def)
    have "linked ?q" using l x i unfolding linked_def sw by (auto simp: nth_eq_iff_index_eq)
    moreover have "qSwap i j q = Some ?q" using x i True ys by (simp add: qSwap_def setHeapIdx_def pqItem_def)
    moreover have "qKey ?q = qKey q" using x by (auto simp: qKey_def itemKey_def)
    moreover have "qFrame ?q = qFrame q" using x by (auto simp: qFrame_def)
    ultimately show ?thesis by (intro exI [of _ ?q]) (simp add: sw)
  next
    case False
    let ?q = "setItem (qPq q ! i) (x\<lparr>heapIdx := int j\<rparr>) (setItem (qPq q ! j) (y\<lparr>heapIdx := int i\<rparr>) (q\<lparr>qPq := ?ys\<rparr>))"
    have ne: "qPq q ! i \<noteq> qPq q ! j" using l False i j by (simp add: linked_def nth_eq_iff_index_eq)
    have "\<exists>it. itemOf ?q (?ys ! k) = Some it \<and> heapIdx it = int k" if k: "k < length ?ys" for k
    proof -
      obtain z where z: "itemOf q (qPq q ! k) = Some z" "heapIdx z = int k" using linked_item [OF l, of k] k ys(3) by metis
      have "k \<noteq> i \<Longrightarrow> k \<noteq> j \<Longrightarrow> qPq q ! k \<noteq> qPq q ! i \<and> qPq q ! k \<noteq> qPq q ! j"
        using l i j k ys(3) by (simp add: linked_def nth_eq_iff_index_eq)
      then show ?thesis using z x y ne i j k by (auto simp: nth_swapped)
    qed
    then have "linked ?q" using l x y d ys i j unfolding linked_def by auto
    moreover have "qSwap i j q = Some ?q" using x y i j ys ne by (simp add: qSwap_def setHeapIdx_def pqItem_def)
    moreover have "qKey ?q = qKey q" using x y ne by (auto simp: qKey_def itemKey_def)
    moreover have "qFrame ?q = qFrame q" using x y ne by (auto simp: qFrame_def)
    ultimately show ?thesis by (intro exI [of _ ?q]) simp
  qed
qed

interpretation qh: heap_container qLess qSwap qPq qKey linked qFrame
  by unfold_locales (use qLess_spec qSwap_spec in auto)

section \<open>The invariant\<close>

definition queueInv :: "Queue \<Rightarrow> bool" where
  "queueInv q \<longleftrightarrow> linked q \<and> heapTo (qKey q) (length (qPq q)) (qPq q) \<and> 0 \<le> sint (qSeq q) \<and>
     (\<forall>nm \<in> set (qPq q). snd (qKey q nm) \<le> sint (qSeq q)) \<and> inj_on (\<lambda>nm. snd (qKey q nm)) (set (qPq q))"

text \<open>The abstract queue: the counter, the items without their places, and the set of queued names.\<close>

definition newItem :: "bytes \<Rightarrow> queueItem" where
  "newItem nm = \<lparr>qiRepoName = nm, indexedCommit = [], latestCommit = [], heapIdx = 0, itemSeq = 0\<rparr>"

definition absItem :: "(bytes \<Rightarrow> queueItem option) \<Rightarrow> bytes \<Rightarrow> queueItem" where
  "absItem m nm = (case m nm of None \<Rightarrow> newItem nm | Some it \<Rightarrow> it)"

type_synonym absQueue = "64 word \<times> (bytes \<Rightarrow> queueItem option) \<times> bytes set"

definition absQ :: "Queue \<Rightarrow> absQueue" where
  "absQ q = (fst (qFrame q), snd (qFrame q), set (qPq q))"

fun absAdd :: "bytes \<Rightarrow> bytes \<Rightarrow> absQueue \<Rightarrow> absQueue" where
  "absAdd nm commit (n, m, Q) =
     (let it = (absItem m nm)\<lparr>latestCommit := commit\<rparr> in
      if nm \<in> Q then (n, m(nm \<mapsto> it), Q) else (n + 1, m(nm \<mapsto> it\<lparr>itemSeq := n + 1\<rparr>), insert nm Q))"

fun absSet :: "bytes \<Rightarrow> bytes \<Rightarrow> absQueue \<Rightarrow> absQueue" where
  "absSet nm indexed (n, m, Q) = (n, m(nm \<mapsto> (absItem m nm)\<lparr>indexedCommit := indexed\<rparr>), Q)"

definition frontOf :: "(bytes \<Rightarrow> queueItem option) \<Rightarrow> bytes set \<Rightarrow> bytes \<Rightarrow> bool" where
  "frontOf m Q nm \<longleftrightarrow> nm \<in> Q \<and> (\<forall>y \<in> Q. y \<noteq> nm \<longrightarrow> itemKey (absItem m nm) < itemKey (absItem m y))"

fun absRemove :: "bytes \<Rightarrow> absQueue \<Rightarrow> absQueue" where
  "absRemove nm (n, m, Q) = (n, m, Q - {nm})"

lemma itemKey_heapIdx [simp]: "itemKey (it\<lparr>heapIdx := i\<rparr>) = itemKey it"
  by (simp add: itemKey_def)

lemma qKey_abs: "nm \<in> set (qPq q) \<Longrightarrow> linked q \<Longrightarrow> qKey q nm = itemKey (absItem (snd (qFrame q)) nm)"
  by (auto simp: qKey_def absItem_def qFrame_def in_set_conv_nth elim: linked_item split: option.splits)

lemma qKey_frame: "qFrame q' = qFrame q \<Longrightarrow> qKey q' = qKey q"
proof
  fix nm assume "qFrame q' = qFrame q"
  then have "map_option (heapIdx_update (\<lambda>_. 0)) (itemOf q' nm) = map_option (heapIdx_update (\<lambda>_. 0)) (itemOf q nm)"
    by (simp add: qFrame_def) metis
  then have "map_option itemKey (itemOf q' nm) = map_option itemKey (itemOf q nm)"
    by (cases "itemOf q' nm"; cases "itemOf q nm") (simp_all, metis itemKey_heapIdx)
  then show "qKey q' nm = qKey q nm" by (cases "itemOf q' nm"; cases "itemOf q nm") (simp_all add: qKey_def)
qed

text \<open>After a heap function: the same names and items, in heap order.\<close>

lemma queueInv_heap:
  assumes "linked q'" and "qFrame q' = qFrame q" and "mset (qPq q') = mset (qPq q)"
    and "heapTo (qKey q) (length (qPq q)) (qPq q')" and "0 \<le> sint (qSeq q)"
    and "\<forall>nm \<in> set (qPq q). snd (qKey q nm) \<le> sint (qSeq q)" and "inj_on (\<lambda>nm. snd (qKey q nm)) (set (qPq q))"
  shows "queueInv q' \<and> absQ q' = absQ q"
proof -
  have "qKey q' = qKey q" using assms(2) by (rule qKey_frame)
  moreover have "set (qPq q') = set (qPq q)" "length (qPq q') = length (qPq q)"
    using assms(3) by (metis mset_eq_setD, metis mset_eq_length)
  moreover have "qSeq q' = qSeq q" using assms(2) by (simp add: qFrame_def)
  ultimately show ?thesis using assms by (simp add: queueInv_def absQ_def)
qed

lemma getItem_spec:
  assumes "linked q" and "getItem nm q = (it, q1)"
  shows "linked q1 \<and> qPq q1 = qPq q \<and> qSeq q1 = qSeq q \<and> itemOf q1 = (itemOf q)(nm \<mapsto> it) \<and>
    it\<lparr>heapIdx := 0\<rparr> = absItem (snd (qFrame q)) nm \<and> (0 \<le> heapIdx it \<longleftrightarrow> nm \<in> set (qPq q))"
proof -
  have none: "qPq q = []" if "qItems q = None" using assms(1) that by (cases "qPq q") (auto simp: linked_def itemOf_def)
  define q0 where "q0 = (case qItems q of None \<Rightarrow> q\<lparr>qItems := Some [], qPq := []\<rparr> | Some m \<Rightarrow> q)"
  have q0: "itemOf q0 = itemOf q" "qPq q0 = qPq q" "qSeq q0 = qSeq q"
    using none by (auto simp: q0_def itemOf_def [abs_def] split: option.splits)
  then have l0: "linked q0" using assms(1) by (simp add: linked_def)
  have g: "getItem nm q = (case itemOf q0 nm of Some it \<Rightarrow> (it, q0)
      | None \<Rightarrow> let it = \<lparr>qiRepoName = nm, indexedCommit = [], latestCommit = [], heapIdx = - 1, itemSeq = 0\<rparr> in (it, setItem nm it q0))"
    unfolding getItem_def Let_def q0_def [symmetric] by simp
  show ?thesis
  proof (cases "itemOf q nm")
    case None
    then have it: "it = \<lparr>qiRepoName = nm, indexedCommit = [], latestCommit = [], heapIdx = - 1, itemSeq = 0\<rparr>" "q1 = setItem nm it q0"
      using assms(2) g q0(1) by (auto simp: Let_def)
    have nin: "nm \<notin> set (qPq q)" using None assms(1) by (auto simp: linked_def in_set_conv_nth)
    then have "linked q1" using l0 q0 by (auto simp: linked_def it)
    then show ?thesis using nin q0 None by (simp add: it absItem_def qFrame_def newItem_def)
  next
    case (Some x)
    then have it: "it = x" "q1 = q0" using assms(2) g q0(1) by auto
    have "0 \<le> heapIdx x \<longleftrightarrow> nm \<in> set (qPq q)" using Some assms(1) by (force simp: linked_def in_set_conv_nth)
    then show ?thesis using it q0 l0 Some by (simp add: absItem_def qFrame_def fun_upd_idem)
  qed
qed

section \<open>The operations\<close>

lemma sint_succ: "0 \<le> sint x \<Longrightarrow> sint x < 9223372036854775807 \<Longrightarrow> sint (x + 1 :: 64 word) = sint x + 1"
  by (simp add: sint_word_ariths signed_take_bit_int_eq_self)

lemma fix_inv:
  assumes inv: "queueInv q" and nm: "nm \<in> set (qPq q)" "itemOf q nm = Some it"
    and it': "qiRepoName it' = nm" "heapIdx it' = heapIdx it" "itemSeq it' = itemSeq it"
    and q2: "itemOf q2 = (itemOf q)(nm \<mapsto> it')" "qPq q2 = qPq q" "qSeq q2 = qSeq q"
  shows "\<exists>q'. heapFix qLess qSwap (length (qPq q)) (nat (heapIdx it')) q2 = Some q' \<and> queueInv q' \<and> absQ q' = absQ q2"
proof -
  have l: "linked q" using inv by (simp add: queueInv_def)
  obtain i where i: "i < length (qPq q)" "qPq q ! i = nm" using nm(1) by (metis in_set_conv_nth)
  have hi: "heapIdx it = int i" using linked_item [OF l i(1)] i(2) nm(2) by (metis option.inject)
  have l2: "linked q2" using l it' i hi nm unfolding linked_def q2 by (auto simp: nth_eq_iff_index_eq)
  have k: "qKey q2 (qPq q ! k) = qKey q (qPq q ! k)" if "k < length (qPq q)" "k \<noteq> i" for k
  proof -
    have "qPq q ! k \<noteq> nm" using l that i by (auto simp: linked_def nth_eq_iff_index_eq)
    then show ?thesis by (simp add: qKey_def q2)
  qed
  have "holeAt (qKey q) (length (qPq q)) i (qPq q)" using inv by (intro heap_hole) (simp add: queueInv_def)
  then have "holeAt (qKey q2) (length (qPq q2)) i (qPq q2)" unfolding q2(2) by (rule holeAt_cong) (rule k)
  then obtain q' where q': "heapFix qLess qSwap (length (qPq q2)) i q2 = Some q'" "linked q'" "qFrame q' = qFrame q2"
    "mset (qPq q') = mset (qPq q2)" "heapTo (qKey q2) (length (qPq q2)) (qPq q')" using qh.fix_heap [OF l2, of i] i(1) q2(2) by auto
  have s: "snd (qKey q2 y) = snd (qKey q y)" for y using it' nm(2) by (simp add: qKey_def q2 itemKey_def)
  have "queueInv q' \<and> absQ q' = absQ q2"
    using inv q' by (intro queueInv_heap) (simp_all add: queueInv_def s q2)
  then show ?thesis using q'(1) hi it'(2) q2(2) by simp
qed

lemma push_inv:
  assumes inv: "queueInv q" and nm: "nm \<notin> set (qPq q)" and sq: "sint (qSeq q) < 9223372036854775807"
    and it': "qiRepoName it' = nm" "itemSeq it' = qSeq q + 1"
    and q2: "itemOf q2 = (itemOf q)(nm \<mapsto> it')" "qPq q2 = qPq q" "qSeq q2 = qSeq q + 1"
  shows "\<exists>q'. heapPush nm q2 = Some q' \<and> queueInv q' \<and> absQ q' = (fst (qFrame q2), snd (qFrame q2), insert nm (set (qPq q)))"
proof -
  have l: "linked q" using inv by (simp add: queueInv_def)
  have n: "sint (qSeq q + 1) = sint (qSeq q) + 1" using inv sq by (intro sint_succ) (simp_all add: queueInv_def)
  let ?n = "length (qPq q)"
  define q3 where "q3 = (setItem nm (it'\<lparr>heapIdx := int ?n\<rparr>) q2)\<lparr>qPq := qPq q @ [nm]\<rparr>"
  have q3: "qPush nm q2 = Some q3" "itemOf q3 = (itemOf q)(nm \<mapsto> it'\<lparr>heapIdx := int ?n\<rparr>)" "qPq q3 = qPq q @ [nm]" "qSeq q3 = qSeq q + 1"
    by (simp_all add: qPush_def q3_def q2)
  have f3: "qFrame q3 = qFrame q2" by (auto simp: qFrame_def q3 q2)
  have k: "qKey q3 y = qKey q y" if "y \<in> set (qPq q)" for y using that nm by (auto simp: qKey_def q3)
  have kn: "qKey q3 nm = (indexedCommit it' = latestCommit it', sint (qSeq q) + 1)" by (simp add: qKey_def q3 itemKey_def it' n)
  have l3: "linked q3" using l nm it'(1) unfolding linked_def q3 by (auto simp: nth_append less_Suc_eq nth_eq_iff_index_eq)
  have "heapTo (qKey q3) ?n (qPq q)"
  proof -
    have "qPq q ! j \<in> set (qPq q) \<and> qPq q ! parent j \<in> set (qPq q)" if "0 < j" "j < ?n" for j
      using that parent_less [OF that(1)] by simp
    then show ?thesis using inv by (simp add: queueInv_def heapTo_def k)
  qed
  from heap_push [OF this, of nm]
  have "holeAt (qKey q3) (length (qPq q3)) ?n (qPq q3)" "belowOk (qKey q3) (length (qPq q3)) ?n (qPq q3)" by (simp_all add: q3)
  then obtain q' where q': "heapUp qLess qSwap ?n q3 = Some q'" "linked q'" "qFrame q' = qFrame q3"
    "mset (qPq q') = mset (qPq q3)" "heapTo (qKey q3) (length (qPq q3)) (qPq q')" using qh.up_heap [OF l3, of ?n] q3(3) by auto
  have old: "inj_on (\<lambda>y. snd (qKey q y)) (set (qPq q))" "\<forall>y \<in> set (qPq q). snd (qKey q y) \<le> sint (qSeq q)" "0 \<le> sint (qSeq q)"
    using inv by (simp_all add: queueInv_def)
  have st: "set (qPq q3) = insert nm (set (qPq q))" by (simp add: q3)
  have "queueInv q' \<and> absQ q' = absQ q3"
  proof (rule queueInv_heap [OF q'(2-5)])
    show "0 \<le> sint (qSeq q3)" using old(3) by (simp add: q3 n)
    show le: "\<forall>y \<in> set (qPq q3). snd (qKey q3 y) \<le> sint (qSeq q3)" using old(2) by (auto simp: st q3(4) n k kn)
    have "inj_on (\<lambda>y. snd (qKey q3 y)) (set (qPq q))" using old(1) by (simp add: k cong: inj_on_cong)
    moreover have "snd (qKey q3 y) \<noteq> snd (qKey q3 nm)" if "y \<in> set (qPq q)" for y using old(2) that k [OF that] kn by force
    ultimately show "inj_on (\<lambda>y. snd (qKey q3 y)) (set (qPq q3))" unfolding st inj_on_insert by fastforce
  qed
  moreover have "heapPush nm q2 = Some q'" using q'(1) q3 by (simp add: heapPush_def)
  ultimately show ?thesis using f3 q3(3) by (auto simp: absQ_def)
qed

lemma heapTo_prefix: "n \<le> length xs \<Longrightarrow> heapTo f n (xs @ ys) \<Longrightarrow> heapTo f n xs"
  unfolding heapTo_def
proof (intro allI impI)
  fix k assume n: "n \<le> length xs" and h: "\<forall>k. 0 < k \<longrightarrow> k < n \<longrightarrow> f ((xs @ ys) ! parent k) \<le> f ((xs @ ys) ! k)" and k: "0 < k" "k < n"
  have "parent k < length xs" using parent_less [OF k(1)] k(2) n by linarith
  then show "f (xs ! parent k) \<le> f (xs ! k)" using h k n by (auto simp: nth_append dest!: spec [of _ k])
qed

text \<open>The root is swapped to the end and the rest sifted.\<close>

lemma pop_sift:
  assumes inv: "queueInv q" and n: "length (qPq q) = Suc n"
  shows "\<exists>q1 i q2 xs. qSwap 0 n q = Some q1 \<and> heapDown qLess qSwap n 0 q1 = Some (i, q2) \<and> linked q2 \<and> qFrame q2 = qFrame q \<and>
    mset (qPq q2) = mset (qPq q) \<and> qPq q2 = xs @ [qPq q ! 0] \<and> heapTo (qKey q) (length xs) xs"
proof -
  let ?pq = "qPq q"
  have l: "linked q" using inv by (simp add: queueInv_def)
  have i: "0 < length ?pq" "n < length ?pq" using n by simp_all
  obtain q1 where q1: "qSwap 0 n q = Some q1" "linked q1" "qPq q1 = swapped 0 n ?pq" "qKey q1 = qKey q" "qFrame q1 = qFrame q"
    using qSwap_spec [OF l i] by blast
  have "heapTo (qKey q) (Suc n) ?pq" using inv n by (simp add: queueInv_def)
  from heap_pop_hole [OF this n] have "holeAt (qKey q1) n 0 (qPq q1)" by (simp add: q1)
  moreover have "aboveOk (qKey q1) n 0 (qPq q1)" by (simp add: aboveOk_def)
  ultimately obtain k q2 where q2: "heapDown qLess qSwap n 0 q1 = Some (k, q2)" "linked q2" "qFrame q2 = qFrame q1"
    "mset (qPq q2) = mset (qPq q1)" "drop n (qPq q2) = drop n (qPq q1)" "heapTo (qKey q1) n (qPq q2)"
    using qh.down_heap [OF q1(2), of n 0] q1(3) n by auto
  have m: "mset (qPq q2) = mset ?pq" using q2(4) q1(3) mset_swapped [OF i] by simp
  then have len: "length (qPq q2) = Suc n" using n by (metis mset_eq_length)
  have "drop n (swapped 0 n ?pq) = [?pq ! 0]"
    using Cons_nth_drop_Suc [of n "swapped 0 n ?pq"] nth_swapped [OF i i(2)] n by simp
  then obtain xs where e: "qPq q2 = xs @ [?pq ! 0]" "length xs = n"
    using q2(5) q1(3) len by (metis append_take_drop_id length_append_singleton old.nat.inject)
  have "heapTo (qKey q) n xs"
    using heapTo_prefix [of n xs "qKey q" "[?pq ! 0]"] q2(6) e q1(4) by simp
  then show ?thesis using q1(1,5) q2(1-3) m e by (intro exI [of _ q1] exI [of _ k] exI [of _ q2] exI [of _ xs]) simp
qed

lemma popLast_linked:
  assumes l: "linked q" and pq: "qPq q = xs @ [r]"
  shows "\<exists>x q'. qPopLast q = Some (x\<lparr>heapIdx := - 1\<rparr>, q') \<and> qiRepoName x = r \<and> itemOf q r = Some x \<and> linked q' \<and>
    qFrame q' = qFrame q \<and> qPq q' = xs"
proof -
  obtain x where x: "itemOf q r = Some x" "qiRepoName x = r" using linked_item [OF l, of "length xs"] pq by (metis length_append_singleton lessI nth_append_length)
  let ?it = "x\<lparr>heapIdx := - 1\<rparr>"
  define q' where "q' = (setItem r ?it q)\<lparr>qPq := xs\<rparr>"
  have i': "itemOf q' = (itemOf q)(r \<mapsto> ?it)" "qPq q' = xs" "qSeq q' = qSeq q" by (simp_all add: q'_def)
  have d: "distinct xs" "r \<notin> set xs" using l pq by (simp_all add: linked_def)
  have "linked q'" unfolding linked_def i'
  proof (intro conjI allI impI)
    fix j assume j: "j < length xs"
    then have "xs ! j \<noteq> r" using d(2) by (metis nth_mem)
    then show "\<exists>it. ((itemOf q)(r \<mapsto> ?it)) (xs ! j) = Some it \<and> heapIdx it = int j"
      using linked_item [OF l, of j] j pq by (metis fun_upd_other length_append_singleton less_SucI nth_append)
  next
    fix y it assume "((itemOf q)(r \<mapsto> ?it)) y = Some it"
    then show "qiRepoName it = y" "y \<notin> set xs \<Longrightarrow> heapIdx it = - 1"
      using l x(2) pq unfolding linked_def by (auto split: if_splits)
  qed (rule d(1))
  moreover have "qFrame q' = qFrame q" using x(1) by (auto simp: qFrame_def i')
  moreover have "qPopLast q = Some (?it, q')" using x(1) by (simp add: qPopLast_def pqItem_def pq q'_def Let_def)
  ultimately show ?thesis using x i'(2) by blast
qed

lemma root_front:
  assumes inv: "queueInv q" and ne: "qPq q \<noteq> []"
  shows "frontOf (snd (qFrame q)) (set (qPq q)) (qPq q ! 0)"
  unfolding frontOf_def
proof (intro conjI ballI impI)
  let ?pq = "qPq q"
  let ?r = "?pq ! 0"
  have l: "linked q" using inv by (simp add: queueInv_def)
  show r: "?r \<in> set ?pq" using ne by simp
  fix y assume y: "y \<in> set ?pq" "y \<noteq> ?r"
  then obtain j where "j < length ?pq" "?pq ! j = y" by (metis in_set_conv_nth)
  then have "qKey q ?r \<le> qKey q y" using heap_root_least [of "qKey q" "length ?pq" ?pq j] inv by (simp add: queueInv_def)
  moreover have "snd (qKey q ?r) \<noteq> snd (qKey q y)" using inv y r by (auto simp: queueInv_def inj_on_def)
  ultimately have "qKey q ?r < qKey q y" by (metis order_less_le)
  then show "itemKey (absItem (snd (qFrame q)) ?r) < itemKey (absItem (snd (qFrame q)) y)"
    using qKey_abs [OF r l] qKey_abs [OF y(1) l] by simp
qed

lemma pop_inv:
  assumes inv: "queueInv q" and ne: "qPq q \<noteq> []"
  shows "\<exists>it q'. heapPop q = Some (it, q') \<and> queueInv q' \<and> absQ q' = absRemove (qiRepoName it) (absQ q) \<and>
    it\<lparr>heapIdx := 0\<rparr> = absItem (snd (qFrame q)) (qiRepoName it) \<and> qiRepoName it = qPq q ! 0"
proof -
  obtain n where n: "length (qPq q) = Suc n" using ne by (cases "qPq q") auto
  let ?r = "qPq q ! 0"
  obtain q1 i q2 xs where q2: "qSwap 0 n q = Some q1" "heapDown qLess qSwap n 0 q1 = Some (i, q2)" "linked q2" "qFrame q2 = qFrame q"
    "mset (qPq q2) = mset (qPq q)" "qPq q2 = xs @ [?r]" "heapTo (qKey q) (length xs) xs" using pop_sift [OF inv n] by blast
  obtain x q' where q': "qPopLast q2 = Some (x\<lparr>heapIdx := - 1\<rparr>, q')" "qiRepoName x = ?r" "itemOf q2 ?r = Some x" "linked q'"
    "qFrame q' = qFrame q2" "qPq q' = xs" using popLast_linked [OF q2(3,6)] by blast
  have hp: "heapPop q = Some (x\<lparr>heapIdx := - 1\<rparr>, q')" using q2(1,2) q'(1) n by (simp add: heapPop_def)
  have "set (qPq q2) = set (qPq q)" using q2(5) by (metis mset_eq_setD)
  moreover have "distinct (qPq q2)" using q2(3) by (simp add: linked_def)
  ultimately have sets: "set xs = set (qPq q) - {?r}" unfolding q2(6) by auto
  have k': "qKey q' = qKey q" using q'(5) q2(4) by (intro qKey_frame) simp
  have "qSeq q' = qSeq q" using q'(5) q2(4) by (simp add: qFrame_def)
  then have "queueInv q'" using inv q'(4) q2(7) sets unfolding queueInv_def k' q'(6) by (auto intro: inj_on_subset)
  moreover have "absQ q' = absRemove ?r (absQ q)" using q'(5) q2(4) by (simp add: absQ_def q'(6) sets)
  moreover have "x\<lparr>heapIdx := 0\<rparr> = absItem (snd (qFrame q)) ?r"
    using q'(3) unfolding q2(4) [symmetric] by (simp add: absItem_def qFrame_def)
  ultimately show ?thesis using hp q'(2) by (intro exI [of _ "x\<lparr>heapIdx := - 1\<rparr>"] exI [of _ q']) simp
qed

lemma absItem_update: "absItem (m(nm \<mapsto> it)) nm = it" "y \<noteq> nm \<Longrightarrow> absItem (m(nm \<mapsto> it)) y = absItem m y"
  by (simp_all add: absItem_def)

lemma frame_update:
  "itemOf q2 = (itemOf q)(nm \<mapsto> it) \<Longrightarrow> snd (qFrame q2) = (snd (qFrame q))(nm \<mapsto> it\<lparr>heapIdx := 0\<rparr>)"
  by (auto simp: qFrame_def)

lemma queued_item:
  assumes "linked q" and "y \<in> set (qPq q)"
  obtains z where "itemOf q y = Some z"
proof -
  obtain j where "j < length (qPq q)" "qPq q ! j = y" using assms(2) by (metis in_set_conv_nth)
  then show thesis using that linked_item [OF assms(1), of j] by blast
qed

lemma queueInv_keys:
  assumes "queueInv q" and "linked q2" and "qPq q2 = qPq q" and "qSeq q2 = qSeq q" and k: "\<And>y. y \<in> set (qPq q) \<Longrightarrow> qKey q2 y = qKey q y"
  shows "queueInv q2"
proof -
  have "heapTo (qKey q2) (length (qPq q)) (qPq q)" unfolding heapTo_def
  proof (intro allI impI)
    fix j assume j: "0 < j" "j < length (qPq q)"
    then have "parent j < length (qPq q)" using parent_less [OF j(1)] by linarith
    then show "qKey q2 (qPq q ! parent j) \<le> qKey q2 (qPq q ! j)" using assms(1) j by (simp add: k queueInv_def heapTo_def)
  qed
  moreover have "inj_on (\<lambda>y. snd (qKey q2 y)) (set (qPq q))" using assms(1) by (simp add: queueInv_def k cong: inj_on_cong)
  ultimately show ?thesis using assms by (simp add: queueInv_def)
qed

lemma linked_other:
  assumes "linked q" and "nm \<notin> set (qPq q)" and "qiRepoName it = nm" and "heapIdx it = - 1"
    and "itemOf q2 = (itemOf q)(nm \<mapsto> it)" and "qPq q2 = qPq q"
  shows "linked q2"
proof -
  have "qPq q ! i \<noteq> nm" if "i < length (qPq q)" for i using assms(2) that by auto
  then show ?thesis using assms(1,3,4) unfolding linked_def assms(5,6) by simp
qed

lemma getItem_inv:
  assumes "queueInv q" and "getItem nm q = (it, q1)"
  shows "queueInv q1"
proof -
  have l: "linked q" using assms(1) by (simp add: queueInv_def)
  note g = getItem_spec [OF l assms(2)]
  have "qKey q1 y = qKey q y" if y: "y \<in> set (qPq q)" for y
  proof (cases "y = nm")
    case True
    obtain z where z: "itemOf q y = Some z" using queued_item [OF l y] .
    then have "itemKey it = itemKey (absItem (snd (qFrame q)) nm)" using g by (metis itemKey_heapIdx)
    then show ?thesis using g True z by (simp add: qKey_def absItem_def qFrame_def)
  next
    case False
    then show ?thesis using g by (simp add: qKey_def)
  qed
  then show ?thesis using g by (intro queueInv_keys [OF assms(1)]) simp_all
qed

lemma AddOrUpdate_refines:
  assumes inv: "queueInv q" and sq: "sint (qSeq q) < 9223372036854775807"
  shows "\<exists>q'. AddOrUpdate nm commit q = Some q' \<and> queueInv q' \<and> absQ q' = absAdd nm commit (absQ q)"
proof -
  have l: "linked q" using inv by (simp add: queueInv_def)
  obtain it q1 where g: "getItem nm q = (it, q1)" by fastforce
  note s = getItem_spec [OF l g] and i1 = getItem_inv [OF inv g]
  have e: "absItem (snd (qFrame q)) nm = it\<lparr>heapIdx := 0\<rparr>" using s by simp
  have it: "it\<lparr>latestCommit := c, heapIdx := 0\<rparr> = (absItem (snd (qFrame q)) nm)\<lparr>latestCommit := c\<rparr>"
    "it\<lparr>latestCommit := c, itemSeq := n, heapIdx := 0\<rparr> = (absItem (snd (qFrame q)) nm)\<lparr>latestCommit := c, itemSeq := n\<rparr>" for c n
    unfolding e by simp_all
  have rn: "qiRepoName it = nm" using s by (auto simp: linked_def)
  show ?thesis
  proof (cases "nm \<in> set (qPq q)")
    case True
    define q2 where "q2 = setItem nm (it\<lparr>latestCommit := commit\<rparr>) q1"
    have q2: "itemOf q2 = (itemOf q1)(nm \<mapsto> it\<lparr>latestCommit := commit\<rparr>)" "qPq q2 = qPq q1" "qSeq q2 = qSeq q1" by (simp_all add: q2_def)
    obtain q' where q': "heapFix qLess qSwap (length (qPq q1)) (nat (heapIdx (it\<lparr>latestCommit := commit\<rparr>))) q2 = Some q'"
      "queueInv q'" "absQ q' = absQ q2" using fix_inv [OF i1 _ _ _ _ _ q2, of it] s True rn by auto
    have "AddOrUpdate nm commit q = Some q'" using q'(1) s True by (simp add: AddOrUpdate_def g Let_def q2_def not_less)
    moreover have "absQ q2 = absAdd nm commit (absQ q)"
      using s True it(1) by (simp add: absQ_def qFrame_def q2 Let_def fun_eq_iff)
    ultimately show ?thesis using q' by simp
  next
    case False
    define q2 where "q2 = setItem nm (it\<lparr>latestCommit := commit, itemSeq := qSeq q1 + 1\<rparr>) (q1\<lparr>qSeq := qSeq q1 + 1\<rparr>)"
    have q2: "itemOf q2 = (itemOf q1)(nm \<mapsto> it\<lparr>latestCommit := commit, itemSeq := qSeq q1 + 1\<rparr>)" "qPq q2 = qPq q1" "qSeq q2 = qSeq q1 + 1"
      by (simp_all add: q2_def)
    obtain q' where q': "heapPush nm q2 = Some q'" "queueInv q'" "absQ q' = (fst (qFrame q2), snd (qFrame q2), insert nm (set (qPq q1)))"
      using push_inv [OF i1 _ _ _ _ q2] s False rn sq by auto
    have "AddOrUpdate nm commit q = Some q'" using q'(1) s False by (simp add: AddOrUpdate_def g Let_def q2_def)
    moreover have "(fst (qFrame q2), snd (qFrame q2), insert nm (set (qPq q1))) = absAdd nm commit (absQ q)"
      using s False it(2) by (simp add: absQ_def qFrame_def q2 Let_def fun_eq_iff)
    ultimately show ?thesis using q' by simp
  qed
qed

lemma SetIndexed_refines:
  assumes inv: "queueInv q"
  shows "\<exists>q'. SetIndexed nm indexed q = Some q' \<and> queueInv q' \<and> absQ q' = absSet nm indexed (absQ q)"
proof -
  have l: "linked q" using inv by (simp add: queueInv_def)
  obtain it q1 where g: "getItem nm q = (it, q1)" by fastforce
  note s = getItem_spec [OF l g] and i1 = getItem_inv [OF inv g]
  have e: "absItem (snd (qFrame q)) nm = it\<lparr>heapIdx := 0\<rparr>" using s by simp
  have it: "it\<lparr>indexedCommit := c, heapIdx := 0\<rparr> = (absItem (snd (qFrame q)) nm)\<lparr>indexedCommit := c\<rparr>" for c
    unfolding e by simp_all
  have rn: "qiRepoName it = nm" using s by (auto simp: linked_def)
  define q2 where "q2 = setItem nm (it\<lparr>indexedCommit := indexed\<rparr>) q1"
  have q2: "itemOf q2 = (itemOf q1)(nm \<mapsto> it\<lparr>indexedCommit := indexed\<rparr>)" "qPq q2 = qPq q1" "qSeq q2 = qSeq q1" by (simp_all add: q2_def)
  have a2: "absQ q2 = absSet nm indexed (absQ q)" using s it by (simp add: absQ_def qFrame_def q2 fun_eq_iff)
  show ?thesis
  proof (cases "nm \<in> set (qPq q)")
    case True
    obtain q' where q': "heapFix qLess qSwap (length (qPq q1)) (nat (heapIdx (it\<lparr>indexedCommit := indexed\<rparr>))) q2 = Some q'"
      "queueInv q'" "absQ q' = absQ q2" using fix_inv [OF i1 _ _ _ _ _ q2, of it] s True rn by auto
    then have "SetIndexed nm indexed q = Some q'" using s True by (simp add: SetIndexed_def g Let_def q2(2) flip: q2_def)
    then show ?thesis using q' a2 by simp
  next
    case False
    have k: "qKey q2 y = qKey q1 y" if "y \<in> set (qPq q)" for y using that False by (auto simp: qKey_def q2)
    have q1: "itemOf q1 nm = Some it" "linked q1" "nm \<notin> set (qPq q1)" "set (qPq q1) = set (qPq q)" using s False by simp_all
    then have idx: "heapIdx it = - 1" unfolding linked_def by blast
    have "linked q2" by (rule linked_other [OF q1(2,3) _ _ q2(1,2)]) (simp_all add: rn idx)
    then have "queueInv q2" using k q1(4) by (intro queueInv_keys [OF i1 _ q2(2,3)]) simp_all
    moreover have "SetIndexed nm indexed q = Some q2" using idx by (simp add: SetIndexed_def g Let_def flip: q2_def)
    ultimately show ?thesis using a2 by blast
  qed
qed

lemma Pop_refines:
  assumes inv: "queueInv q"
  shows "\<exists>r q'. Pop q = Some (r, q') \<and> queueInv q' \<and>
    (case absQ q of (n, m, Q) \<Rightarrow> if Q = {} then r = None \<and> absQ q' = absQ q
      else \<exists>nm. r = Some (nm, latestCommit (absItem m nm)) \<and> frontOf m Q nm \<and> absQ q' = absRemove nm (absQ q))"
proof (cases "qPq q = []")
  case True
  then show ?thesis using inv by (simp add: Pop_def absQ_def)
next
  case False
  obtain it q' where p: "heapPop q = Some (it, q')" "queueInv q'" "absQ q' = absRemove (qiRepoName it) (absQ q)"
    "it\<lparr>heapIdx := 0\<rparr> = absItem (snd (qFrame q)) (qiRepoName it)" "qiRepoName it = qPq q ! 0" using pop_inv [OF inv False] by blast
  have "latestCommit (absItem (snd (qFrame q)) (qiRepoName it)) = latestCommit it" unfolding p(4) [symmetric] by simp
  then show ?thesis using p False root_front [OF inv False]
    by (intro exI [of _ "Some (qiRepoName it, latestCommit it)"] exI [of _ q']) (simp add: Pop_def absQ_def)
qed

section \<open>Sequences of operations\<close>

datatype queueOp = OpPop | OpAdd bytes bytes | OpSet bytes bytes

text \<open>The repositories popped, and the queue afterwards.\<close>

fun runOp :: "queueOp \<Rightarrow> Queue \<Rightarrow> (bytes list \<times> Queue) option" where
  "runOp OpPop q = map_option (\<lambda>(r, q'). (case r of None \<Rightarrow> [] | Some (nm, c) \<Rightarrow> [nm], q')) (Pop q)"
| "runOp (OpAdd nm c) q = map_option (\<lambda>q'. ([], q')) (AddOrUpdate nm c q)"
| "runOp (OpSet nm c) q = map_option (\<lambda>q'. ([], q')) (SetIndexed nm c q)"

fun runOps :: "queueOp list \<Rightarrow> Queue \<Rightarrow> (bytes list \<times> Queue) option" where
  "runOps [] q = Some ([], q)"
| "runOps (op # ops) q = do {
     (out, q') \<leftarrow> runOp op q;
     (outs, q'') \<leftarrow> runOps ops q';
     Some (out @ outs, q'')
   }"

fun opOn :: "bytes \<Rightarrow> queueOp \<Rightarrow> bool" where
  "opOn x OpPop \<longleftrightarrow> False"
| "opOn x (OpAdd nm c) \<longleftrightarrow> nm = x"
| "opOn x (OpSet nm c) \<longleftrightarrow> nm = x"

lemma absSeq: "absQ q = (n, m, Q) \<Longrightarrow> n = qSeq q"
  by (simp add: absQ_def qFrame_def)

lemma runOp_inv:
  assumes "queueInv q" and "sint (qSeq q) < 9223372036854775807"
  shows "\<exists>out q'. runOp op q = Some (out, q') \<and> queueInv q' \<and> sint (qSeq q') \<le> sint (qSeq q) + 1"
proof (cases op)
  case OpPop
  obtain r q' where r: "Pop q = Some (r, q')" "queueInv q'" and a: "fst (absQ q') = fst (absQ q)"
    using Pop_refines [OF assms(1)] by (auto simp: absQ_def split: if_splits)
  have "qSeq q' = qSeq q" using a by (simp add: absQ_def qFrame_def)
  then show ?thesis using r OpPop by simp
next
  case (OpAdd nm c)
  obtain q' where r: "AddOrUpdate nm c q = Some q'" "queueInv q'" and a: "absQ q' = absAdd nm c (absQ q)"
    using AddOrUpdate_refines [OF assms] by blast
  have "qSeq q' = qSeq q \<or> qSeq q' = qSeq q + 1" using a by (auto simp: absQ_def qFrame_def Let_def split: if_splits)
  moreover have "sint (qSeq q + 1) = sint (qSeq q) + 1" using assms by (intro sint_succ) (simp_all add: queueInv_def)
  ultimately show ?thesis using r OpAdd by auto
next
  case (OpSet nm c)
  obtain q' where r: "SetIndexed nm c q = Some q'" "queueInv q'" and a: "absQ q' = absSet nm c (absQ q)"
    using SetIndexed_refines [OF assms(1)] by blast
  have "qSeq q' = qSeq q" using a by (auto simp: absQ_def qFrame_def)
  then show ?thesis using r OpSet by simp
qed

lemma runOps_inv:
  assumes "queueInv q" and "sint (qSeq q) + int (length ops) < 9223372036854775808"
  shows "\<exists>out q'. runOps ops q = Some (out, q') \<and> queueInv q'"
  using assms
proof (induction ops arbitrary: q)
  case (Cons op ops)
  then have "sint (qSeq q) < 9223372036854775807" by simp
  with runOp_inv [OF Cons.prems(1)] obtain out q' where 1: "runOp op q = Some (out, q')" "queueInv q'" "sint (qSeq q') \<le> sint (qSeq q) + 1"
    by blast
  then obtain outs q'' where "runOps ops q' = Some (outs, q'')" "queueInv q''" using Cons.IH [OF 1(2)] Cons.prems(2) by auto
  then show ?case using 1(1) by simp
qed simp

text \<open>The queued names that were queued before \<open>x\<close>.\<close>

definition ahead :: "absQueue \<Rightarrow> bytes \<Rightarrow> bytes set" where
  "ahead a x = (case a of (n, m, Q) \<Rightarrow> {y \<in> Q. sint (itemSeq (absItem m y)) < sint (itemSeq (absItem m x))})"

definition waits :: "absQueue \<Rightarrow> bytes \<Rightarrow> bool" where
  "waits a x = (case a of (n, m, Q) \<Rightarrow> x \<in> Q \<and> indexedCommit (absItem m x) \<noteq> latestCommit (absItem m x))"

lemma front_ahead:
  assumes "frontOf m Q nm" and "waits (n, m, Q) x" and "nm \<noteq> x"
  shows "nm \<in> ahead (n, m, Q) x"
proof -
  have "itemKey (absItem m nm) < itemKey (absItem m x)" using assms by (auto simp: frontOf_def waits_def)
  then have "sint (itemSeq (absItem m nm)) < sint (itemSeq (absItem m x))"
    using assms(2) by (auto simp: itemKey_def waits_def less_prod_def)
  then show ?thesis using assms(1) by (simp add: ahead_def frontOf_def)
qed

lemma absAdd_ahead:
  assumes "waits (n, m, Q) x" and "nm \<noteq> x" and "sint (itemSeq (absItem m x)) \<le> sint n" and "0 \<le> sint n" "sint n < 9223372036854775807"
  shows "waits (absAdd nm c (n, m, Q)) x \<and> ahead (absAdd nm c (n, m, Q)) x = ahead (n, m, Q) x"
proof -
  have "sint (n + 1) = sint n + 1" using assms(4,5) by (rule sint_succ)
  then show ?thesis using assms(1-3) by (auto simp: waits_def ahead_def Let_def absItem_update absItem_def split: option.splits)
qed

lemma absSet_ahead:
  "waits (n, m, Q) x \<Longrightarrow> nm \<noteq> x \<Longrightarrow>
    waits (absSet nm c (n, m, Q)) x \<and> ahead (absSet nm c (n, m, Q)) x = ahead (n, m, Q) x"
  by (auto simp: waits_def ahead_def absItem_def split: option.splits if_splits)

lemma runOp_progress:
  assumes inv: "queueInv q" and sq: "sint (qSeq q) < 9223372036854775807" and w: "waits (absQ q) x" and op: "\<not> opOn x op"
  shows "\<exists>out q'. runOp op q = Some (out, q') \<and> queueInv q' \<and> sint (qSeq q') \<le> sint (qSeq q) + 1 \<and>
    (x \<in> set out \<or> waits (absQ q') x \<and> card (ahead (absQ q') x) + (if op = OpPop then 1 else 0) \<le> card (ahead (absQ q) x))"
proof -
  obtain out q' where r: "runOp op q = Some (out, q')" "queueInv q'" "sint (qSeq q') \<le> sint (qSeq q) + 1"
    using runOp_inv [OF inv sq] by blast
  obtain n m Q where a: "absQ q = (n, m, Q)" by (metis prod_cases3)
  have n: "n = qSeq q" and m: "m = snd (qFrame q)" and Q: "Q = set (qPq q)" using a by (simp_all add: absQ_def qFrame_def)
  have fin: "finite (ahead (absQ q) x)" by (simp add: ahead_def absQ_def)
  have "x \<in> set out \<or> waits (absQ q') x \<and> card (ahead (absQ q') x) + (if op = OpPop then 1 else 0) \<le> card (ahead (absQ q) x)"
  proof (cases op)
    case OpPop
    have "Q \<noteq> {}" using w a by (auto simp: waits_def)
    then obtain nm where nm: "Pop q = Some (Some (nm, latestCommit (absItem m nm)), q')" "frontOf m Q nm" "absQ q' = absRemove nm (absQ q)"
      using Pop_refines [OF inv] r(1) OpPop a by auto
    show ?thesis
    proof (cases "nm = x")
      case True
      then show ?thesis using r(1) OpPop nm(1) by auto
    next
      case False
      then have "nm \<in> ahead (absQ q) x" using front_ahead [OF nm(2)] w a by simp
      moreover have "ahead (absQ q') x = ahead (absQ q) x - {nm}" using nm(3) a by (auto simp: ahead_def)
      moreover have "waits (absQ q') x" using nm(3) a w False by (simp add: waits_def)
      ultimately show ?thesis using OpPop fin by (simp add: card_Diff_singleton) (metis Suc_leI card_gt_0_iff empty_iff Suc_pred le_refl)
    qed
  next
    case (OpAdd nm c)
    have x: "x \<in> set (qPq q)" using w a Q by (simp add: waits_def)
    have "sint (itemSeq (absItem m x)) \<le> sint n"
      using inv x qKey_abs [OF x] n m unfolding queueInv_def by (metis itemKey_def snd_conv)
    then have "waits (absAdd nm c (absQ q)) x \<and> ahead (absAdd nm c (absQ q)) x = ahead (absQ q) x"
      unfolding a using w a op OpAdd inv sq n by (intro absAdd_ahead) (simp_all add: queueInv_def)
    moreover have "absQ q' = absAdd nm c (absQ q)" using AddOrUpdate_refines [OF inv sq, of nm c] r(1) OpAdd by auto
    ultimately show ?thesis using OpAdd by simp
  next
    case (OpSet nm c)
    then have "waits (absSet nm c (absQ q)) x \<and> ahead (absSet nm c (absQ q)) x = ahead (absQ q) x"
      unfolding a using w a op by (intro absSet_ahead) simp_all
    moreover have "absQ q' = absSet nm c (absQ q)" using SetIndexed_refines [OF inv, of nm c] r(1) OpSet by auto
    ultimately show ?thesis using OpSet by simp
  qed
  then show ?thesis using r by blast
qed

lemma runOps_progress:
  assumes "queueInv q" and "sint (qSeq q) + int (length ops) < 9223372036854775808" and "waits (absQ q) x"
    and "\<forall>op \<in> set ops. \<not> opOn x op" and "card (ahead (absQ q) x) < count_list ops OpPop"
  shows "\<exists>out q'. runOps ops q = Some (out, q') \<and> x \<in> set out"
  using assms
proof (induction ops arbitrary: q)
  case (Cons op ops)
  then have sq: "sint (qSeq q) < 9223372036854775807" by simp
  obtain out q' where r: "runOp op q = Some (out, q')" "queueInv q'" "sint (qSeq q') \<le> sint (qSeq q) + 1"
    "x \<in> set out \<or> waits (absQ q') x \<and> card (ahead (absQ q') x) + (if op = OpPop then 1 else 0) \<le> card (ahead (absQ q) x)"
    using runOp_progress [OF Cons.prems(1) sq Cons.prems(3), of op] Cons.prems(4) by auto
  have sz: "sint (qSeq q') + int (length ops) < 9223372036854775808" using r(3) Cons.prems(2) by simp
  obtain outs q'' where rest: "runOps ops q' = Some (outs, q'')" using runOps_inv [OF r(2) sz] by blast
  show ?case
  proof (cases "x \<in> set out")
    case True
    then show ?thesis using r(1) rest by simp
  next
    case False
    then have "waits (absQ q') x" "card (ahead (absQ q') x) < count_list ops OpPop" using r(4) Cons.prems(5) by (auto split: if_splits)
    then have "x \<in> set outs" using Cons.IH [OF r(2) sz] Cons.prems(4) rest by auto
    then show ?thesis using r(1) rest by simp
  qed
qed simp

section \<open>Properties\<close>

lemma queueInv_empty: "queueInv emptyQueue"
  by (simp add: queueInv_def linked_def emptyQueue_def itemOf_def heapTo_def)

text \<open>C34: Whatever sequence of operations is applied to a new queue, no operation panics and the queue
  stays consistent: the heap is in heap order, every item knows its place in the heap, an item off
  the heap has index -1, and no two queued items have the same sequence number. The sequence number
  is 64 bits wide, so the number of operations must stay below \<open>2\<^sup>6\<^sup>3\<close>.\<close>

theorem queue_invariant:
  assumes "length ops < 9223372036854775808"
  shows "\<exists>out q. runOps ops emptyQueue = Some (out, q) \<and> queueInv q"
  by (rule runOps_inv [OF queueInv_empty]) (use assms in \<open>simp add: emptyQueue_def\<close>)

theorem queue_invariant_witness:
  "\<exists>out q. runOps [OpAdd [1] [2], OpPop, OpSet [1] [2], OpPop] emptyQueue = Some (out, q) \<and> queueInv q"
  by (rule queue_invariant) simp

text \<open>C33: Each operation of the queue refines the abstract one. \<open>AddOrUpdate\<close> sets the commit and, for a
  repository that is not queued, gives it the next sequence number; \<open>SetIndexed\<close> changes the item and
  never the queued set; \<open>Pop\<close> reports an empty queue exactly when nothing is queued, and otherwise
  removes the front of the queue: the first queued repository among those whose latest commit is not
  indexed if there is one, otherwise the first queued one.\<close>

theorem queue_refines:
  assumes "queueInv q" and "sint (qSeq q) < 9223372036854775807"
  shows "(\<exists>q'. AddOrUpdate nm commit q = Some q' \<and> queueInv q' \<and> absQ q' = absAdd nm commit (absQ q)) \<and>
    (\<exists>q'. SetIndexed nm indexed q = Some q' \<and> queueInv q' \<and> absQ q' = absSet nm indexed (absQ q)) \<and>
    (\<exists>r q'. Pop q = Some (r, q') \<and> queueInv q' \<and>
      (case absQ q of (n, m, Q) \<Rightarrow> if Q = {} then r = None \<and> absQ q' = absQ q
        else \<exists>nm. r = Some (nm, latestCommit (absItem m nm)) \<and> frontOf m Q nm \<and> absQ q' = absRemove nm (absQ q)))"
  using AddOrUpdate_refines [OF assms] SetIndexed_refines [OF assms(1)] Pop_refines [OF assms(1)] by blast

theorem queue_refines_witness:
  "\<exists>q'. AddOrUpdate [1] [2] emptyQueue = Some q' \<and> queueInv q' \<and> absQ q' = absAdd [1] [2] (absQ emptyQueue)"
  using queue_refines [OF queueInv_empty, of "[1]" "[2]" "[3]"] by (simp add: emptyQueue_def)

text \<open>C35: No starvation: a queued repository whose latest commit is not indexed is popped after at most as
  many calls of \<open>Pop\<close> as repositories were queued before it, plus one, whatever else is added, updated
  or marked as indexed in between.\<close>

theorem stale_repository_is_popped:
  assumes "queueInv q" and "sint (qSeq q) + int (length ops) < 9223372036854775808" and "waits (absQ q) x"
    and "\<forall>op \<in> set ops. \<not> opOn x op" and "card (ahead (absQ q) x) < count_list ops OpPop"
  shows "\<exists>out q'. runOps ops q = Some (out, q') \<and> x \<in> set out"
  by (rule runOps_progress [OF assms])

theorem stale_repository_is_popped_witness:
  "\<exists>q. AddOrUpdate [1] [7] emptyQueue = Some q \<and>
     (\<exists>out q'. runOps [OpAdd [2] [8], OpSet [2] [9], OpPop] q = Some (out, q') \<and> [1] \<in> set out)"
proof -
  obtain q where q: "AddOrUpdate [1] [7] emptyQueue = Some q" "queueInv q" "absQ q = absAdd [1] [7] (absQ emptyQueue)"
    using AddOrUpdate_refines [OF queueInv_empty, of "[1]" "[7]"] by (auto simp: emptyQueue_def)
  have a: "absQ q = (1, [[1] \<mapsto> (newItem [1])\<lparr>latestCommit := [7], itemSeq := 1\<rparr>], {[1]})"
    using q(3) by (simp add: absQ_def qFrame_def itemOf_def emptyQueue_def absItem_def)
  have s: "qSeq q = 1" using absSeq [OF a] by simp
  have "waits (absQ q) [1]" unfolding a by (simp add: waits_def absItem_def newItem_def)
  moreover have "ahead (absQ q) [1] = {}" unfolding a by (auto simp: ahead_def)
  ultimately have "\<exists>out q'. runOps [OpAdd [2] [8], OpSet [2] [9], OpPop] q = Some (out, q') \<and> [1] \<in> set out"
    by (intro stale_repository_is_popped [OF q(2)]) (simp_all add: s)
  then show ?thesis using q(1) by blast
qed

end
