(* ===== verification/Spec2Isabelle.thy ===== *)
theory Spec2Isabelle
  imports Zoekt_Hititer Zoekt_Content Zoekt_Sectioniter Zoekt_Query Zoekt_Regexp Zoekt_Api Zoekt_Section Zoekt_Answers Zoekt_Builder Zoekt_Queue
begin

text \<open>
  A verification development for zoekt, a trigram-based source code search engine (the Go
  packages under src/).

  \<^bold>\<open>Parts of the program.\<close> A builder turns documents into an index shard: the contents, the
  posting list of every trigram, and tables of offsets, written as sections of one file with a table
  of contents. A searcher reads a shard, turns a query into a tree of match nodes, walks the candidate
  documents with iterators over posting lists, and checks each candidate on its contents. Shards are
  searched together by a sharded searcher, and index servers decide which repository to index next.

  \<^bold>\<open>Conventions.\<close> Go integers of fixed width are words, whose arithmetic wraps as in Go; \<open>int\<close>
  values that the code keeps small are natural numbers or integers. A \<^verbatim>\<open>[]byte\<close> or \<^verbatim>\<open>string\<close> is a
  list of bytes; where the capacity of a slice matters it is a pair of the slice and its spare
  bytes. A Go map is an association list read with \<open>map_of\<close>. A function that may panic or not return
  has an option as its result (\<open>None\<close>), one that returns an \<^verbatim>\<open>error\<close> a sum (\<open>Inl\<close>); an error holds
  the constant part of its message. Code outside the repository (the regular expression matcher,
  \<^verbatim>\<open>sort.Sort\<close>, template parsing, Unicode case tables) is a parameter, with what is relied on as a
  hypothesis; the parts of the standard library whose exact behaviour matters are definitions.

  \<^bold>\<open>Foundations.\<close>
  \<^item> \<open>Zoekt_Prelude\<close>: types of the model and the lemmas that all components share.
  \<^item> \<open>Go_Std\<close>: varints, big-endian integers, UTF-8 decoding, binary search, string search.
  \<^item> \<open>Go_Regexp\<close>: the syntax trees of \<^verbatim>\<open>regexp/syntax\<close> and their language.
  \<^item> \<open>Go_Files\<close>: decimal numbers, CRC-64 checksums, file paths.
  \<^item> \<open>Go_Heap\<close>: \<^verbatim>\<open>container/heap\<close> over an interface stated as the locale \<open>heap_container\<close>.

  \<^bold>\<open>Searching one shard.\<close>
  \<^item> \<open>Zoekt_Bits\<close> (bits.go): trigrams, their case variants, delta-coded lists, document sections,
    case folding comparison; packing and coding are invertible, the case variants complete.
  \<^item> \<open>Zoekt_Hititer\<close> (hititer.go): the iterators over posting lists. The locale \<open>hit_iterator\<close> is the
    Go interface; all four kinds of iterator interpret it, and terminate.
  \<^item> \<open>Zoekt_Matchiter\<close>, \<open>Zoekt_Sectioniter\<close> (matchiter.go): candidates and the document iterators,
    as interpretations of the locale \<open>match_iterator\<close>: no document with a candidate is skipped.
  \<^item> \<open>Zoekt_Section\<close> (section.go, toc.go, indexfile.go, indexfile_linux.go, parts of read.go): file
    access as the locale \<open>index_file\<close> with both implementations, the writer, simple and compound
    sections, the table of contents and its round trip.
  \<^item> \<open>Zoekt_Api\<close> (api.go): what a search takes and returns.
  \<^item> \<open>Zoekt_Indexdata\<close> (indexdata.go, parts of read.go): the data of an open shard, the choice of the
    two rarest trigrams, the construction of iterators for a substring.
  \<^item> \<open>Zoekt_Content\<close> (contentprovider.go): contents of the current document, byte offsets of runes,
    lines and fragments, scores.
  \<^item> \<open>Zoekt_Matchtree\<close>, \<open>Zoekt_Evaluate\<close> (matchtree.go): the match tree and its correctness: the
    iteration never passes a document on which the tree holds, the evaluation decides the tree.
  \<^item> \<open>Zoekt_Eval\<close> (eval.go): the search loop. It returns exactly the matching documents up to an
    early stop, with ordered disjoint matches.
  \<^item> \<open>Zoekt_Answers\<close>: the match tree of a query against the meaning of the query on the names and
    contents themselves: the tree can be built, its evaluation does not panic, and it decides the query,
    for indexes whose tables describe texts in valid UTF-8 within the reach of the sampled offsets.
  \<^item> \<open>Zoekt_Query\<close>, \<open>Zoekt_Regexp\<close> (query/): queries, their simplification and expansion, and the
    substring query a regular expression implies.

  \<^bold>\<open>Building a shard.\<close>
  \<^item> \<open>Zoekt_Indexbuilder\<close> (indexbuilder.go): posting lists, repositories, adding documents.
  \<^item> \<open>Zoekt_Postings\<close>: what the loop over the runes of a text adds to the posting lists.
  \<^item> \<open>Zoekt_Builder\<close>: the invariant of the builder, its preservation by \<open>Add\<close>, when \<open>Add\<close> fails, and
    that posting lists decode to exactly the positions of their trigram.

  \<^bold>\<open>Index server.\<close>
  \<^item> \<open>Zoekt_Queue\<close> (cmd/zoekt-sourcegraph-indexserver/queue.go): the queue of repositories, which
    refines an abstract priority queue and starves no stale repository.

  \<^bold>\<open>Bounds.\<close> There is no fuel: loops terminate by a measure, and those whose termination depends on the
  data are \<open>partial_function (option)\<close> with a proof that they return. Hypotheses bound the size of the
  contents of a shard by \<open>2\<^sup>3\<^sup>2\<close> bytes, the range of the offsets in the file format, and the number
  of operations of the queue by \<open>2\<^sup>6\<^sup>3\<close>.

  \<^bold>\<open>Not modelled.\<close> JSON and gob encoding, HTTP handlers and HTML templates, the go-git library and the
  programs that drive it, file system watching, flag parsing and the clients of code hosts are
  I/O around the parts above; \<^verbatim>\<open>String\<close> methods used for debugging are left out.
\<close>

end
